(* ===== verification/Prelude.thy ===== *)
theory Prelude
  imports Main "HOL-Library.Word" "HOL-Library.Multiset" "HOL-Library.Monad_Syntax"
begin

text \<open>
  What the components share: the machine integers of the Rust code, the operations of
  the standard library that the code calls (\<^verbatim>\<open>Vec::swap_remove\<close>, \<^verbatim>\<open>Iterator::position\<close>,
  \<^verbatim>\<open>slice::swap\<close>, checked and saturating arithmetic, \<^verbatim>\<open>Duration\<close>), and the two interfaces
  of code outside the repository that the definitions take as parameters: the random
  number generator of the crate \<^verbatim>\<open>rand\<close> and the iteration order of the hashed collections.

  A panic of the program is the value \<^term>\<open>None\<close> of the option type, so the option monad
  is the sequencing of statements that may panic.  Arithmetic that overflows panics, as in
  the profile the repository's workflow builds and tests.
\<close>

section \<open>Collections of rewrite rules\<close>

named_theorems std_simps \<open>characteristic facts of the standard library operations\<close>
named_theorems op_defs \<open>definitions of the operations of a component\<close>

section \<open>Machine integers\<close>

type_synonym u8 = "8 word"
type_synonym u16 = "16 word"

definition saturating_sub :: "'a::len word \<Rightarrow> 'a word \<Rightarrow> 'a word" where
  "saturating_sub a b = (if b \<le> a then a - b else 0)"

definition saturating_add :: "'a::len word \<Rightarrow> 'a word \<Rightarrow> 'a word" where
  "saturating_add a b = (if unat a + unat b < 2 ^ LENGTH('a) then a + b else - 1)"

definition checked_sub :: "'a::len word \<Rightarrow> 'a word \<Rightarrow> 'a word option" where
  "checked_sub a b = (if b \<le> a then Some (a - b) else None)"

lemma unat_saturating_sub [std_simps]:
  "unat (saturating_sub a b) = unat a - unat b"
  by (auto simp: saturating_sub_def unat_sub word_le_nat_alt)

lemma unat_saturating_add [std_simps]:
  "unat (saturating_add (a :: 'a::len word) b) = min (unat a + unat b) (2 ^ LENGTH('a) - 1)"
proof -
  have "unat (- 1 :: 'a word) = 2 ^ LENGTH('a) - 1"
    by (simp add: unsigned_minus_1_eq_mask mask_eq_exp_minus_1)
  then show ?thesis by (auto simp: saturating_add_def unat_word_ariths)
qed

lemma checked_sub_Some [std_simps]:
  "checked_sub a b = Some c \<longleftrightarrow> b \<le> a \<and> c = a - b"
  by (auto simp: checked_sub_def)

text \<open>
  The 64-bit counters of the program are natural numbers below \<open>2 ^ 64\<close>; the addition that
  would leave the range panics.
\<close>

definition u64_add :: "nat \<Rightarrow> nat \<Rightarrow> nat option" where
  "u64_add a b = (if a + b < 2 ^ 64 then Some (a + b) else None)"

lemma u64_add_Some [std_simps]: "u64_add a b = Some c \<longleftrightarrow> a + b < 2 ^ 64 \<and> c = a + b"
  by (auto simp: u64_add_def)

section \<open>Durations\<close>

text \<open>
  A \<^verbatim>\<open>std::time::Duration\<close> is its number of nanoseconds; \<^verbatim>\<open>Duration::MAX\<close> is
  \<open>2 ^ 64 - 1\<close> seconds and \<open>10 ^ 9 - 1\<close> nanoseconds.  The sum of two durations that is
  larger panics.
\<close>

type_synonym duration = nat

definition DURATION_MAX :: duration where
  "DURATION_MAX = (2 ^ 64 - 1) * 10 ^ 9 + (10 ^ 9 - 1)"

definition duration_add :: "duration \<Rightarrow> duration \<Rightarrow> duration option" where
  "duration_add a b = (if a + b \<le> DURATION_MAX then Some (a + b) else None)"

definition from_secs :: "nat \<Rightarrow> duration" where
  "from_secs s = s * 10 ^ 9"

definition from_millis :: "nat \<Rightarrow> duration" where
  "from_millis m = m * 10 ^ 6"

definition as_secs :: "duration \<Rightarrow> nat" where
  "as_secs d = d div 10 ^ 9"

definition subsec_millis :: "duration \<Rightarrow> nat" where
  "subsec_millis d = d mod 10 ^ 9 div 10 ^ 6"

lemma duration_add_Some [std_simps]:
  "duration_add a b = Some c \<longleftrightarrow> a + b \<le> DURATION_MAX \<and> c = a + b"
  by (auto simp: duration_add_def)

section \<open>Vectors\<close>

text \<open>\<^verbatim>\<open>Iterator::position\<close>: the index of the first element that satisfies the predicate.\<close>

fun position :: "('a \<Rightarrow> bool) \<Rightarrow> 'a list \<Rightarrow> nat option" where
  "position P [] = None"
| "position P (x # xs) = (if P x then Some 0 else map_option Suc (position P xs))"

text \<open>\<^verbatim>\<open>Vec::swap_remove\<close>: the element leaves and the last one takes its place; an index
  out of range panics.\<close>

definition swap_remove :: "nat \<Rightarrow> 'a list \<Rightarrow> ('a \<times> 'a list) option" where
  "swap_remove i xs =
     (if i < length xs then Some (xs ! i, (butlast xs)[i := last xs]) else None)"

text \<open>Reading a vector or slice by index; an index out of range panics.\<close>

definition vec_get :: "'a list \<Rightarrow> nat \<Rightarrow> 'a option" where
  "vec_get xs i = (if i < length xs then Some (xs ! i) else None)"

text \<open>\<^verbatim>\<open>slice::swap\<close>, for indices in range.\<close>

definition list_swap :: "nat \<Rightarrow> nat \<Rightarrow> 'a list \<Rightarrow> 'a list" where
  "list_swap i j xs = xs[i := xs ! j, j := xs ! i]"

lemma position_None [std_simps]: "position P xs = None \<longleftrightarrow> (\<forall>x \<in> set xs. \<not> P x)"
  by (induction xs) auto

lemma position_SomeD: "position P xs = Some i \<Longrightarrow> i < length xs \<and> P (xs ! i)"
  by (induction xs arbitrary: i) (auto split: if_splits)

lemma position_eq_None: "position (\<lambda>q. q = p) xs = None \<longleftrightarrow> p \<notin> set xs"
  by (auto simp: position_None)

lemma position_eq_SomeD: "position (\<lambda>q. q = p) xs = Some i \<Longrightarrow> i < length xs \<and> xs ! i = p \<and> p \<in> set xs"
  by (drule position_SomeD) auto

lemma swap_remove_mset:
  assumes "swap_remove i xs = Some (x, ys)"
  shows "mset xs = add_mset x (mset ys)"
proof -
  from assms have i: "i < length xs" and x: "x = xs ! i"
    and ys: "ys = (butlast xs)[i := last xs]"
    by (auto simp: swap_remove_def split: if_splits)
  from i have split: "xs = butlast xs @ [last xs]" by (cases xs rule: rev_cases) auto
  show ?thesis
  proof (cases "i < length (butlast xs)")
    case True
    then have "mset ys = add_mset (last xs) (mset (butlast xs) - {# butlast xs ! i #})"
      by (simp add: ys mset_update)
    moreover have "butlast xs ! i = x" using True by (simp add: x nth_butlast)
    moreover have "x \<in># mset (butlast xs)"
      using True \<open>butlast xs ! i = x\<close> by (metis nth_mem set_mset_mset)
    ultimately show ?thesis
      using arg_cong [OF split, of mset] by (simp add: add_mset_commute)
  next
    case False
    with i have "i = length xs - 1" by simp
    moreover from i have "xs \<noteq> []" by auto
    ultimately have "x = last xs" by (simp add: x last_conv_nth)
    with False ys show ?thesis
      using arg_cong [OF split, of mset] by (simp add: list_update_beyond)
  qed
qed

lemma swap_remove_set: "swap_remove i xs = Some (x, ys) \<Longrightarrow> set xs = insert x (set ys)"
  by (drule swap_remove_mset) (metis set_mset_mset set_mset_add_mset_insert)

lemma swap_remove_length: "swap_remove i xs = Some (x, ys) \<Longrightarrow> length xs = Suc (length ys)"
  by (drule swap_remove_mset) (metis size_add_mset size_mset)

lemma swap_remove_distinct:
  "swap_remove i xs = Some (x, ys) \<Longrightarrow> distinct xs \<longleftrightarrow> distinct ys \<and> x \<notin> set ys"
  by (drule swap_remove_mset) (metis distinct.simps(2) mset.simps(2) mset_eq_imp_distinct_iff)

lemma swap_remove_nth: "swap_remove i xs = Some (x, ys) \<Longrightarrow> i < length xs \<and> x = xs ! i"
  by (auto simp: swap_remove_def split: if_splits)

lemmas swap_remove_facts =
  swap_remove_set swap_remove_length swap_remove_distinct

lemma swap_remove_total [std_simps]:
  "(\<exists>x ys. swap_remove i xs = Some (x, ys)) \<longleftrightarrow> i < length xs"
  by (auto simp: swap_remove_def)

lemma mset_list_swap [std_simps]:
  "i < length xs \<Longrightarrow> j < length xs \<Longrightarrow> mset (list_swap i j xs) = mset xs"
  by (simp add: list_swap_def mset_swap)

lemma length_list_swap [std_simps, simp]: "length (list_swap i j xs) = length xs"
  by (simp add: list_swap_def)

lemma nth_list_swap:
  "i < length xs \<Longrightarrow> j < length xs \<Longrightarrow> k < length xs \<Longrightarrow>
     list_swap i j xs ! k = (if k = i then xs ! j else if k = j then xs ! i else xs ! k)"
  by (auto simp: list_swap_def nth_list_update)

section \<open>Interfaces outside the repository\<close>

text \<open>
  The generator of the crate \<^verbatim>\<open>rand\<close>: \<^verbatim>\<open>Rng::random_range(0..n)\<close> and
  \<^verbatim>\<open>SliceRandom::shuffle\<close> over a generator state.  Its documentation promises an index of
  the range, a panic on the empty range, and a permutation of the slice.
\<close>

record ('n, 'r) rng_ops =
  random_range :: "'r \<Rightarrow> nat \<Rightarrow> nat \<times> 'r"
  rng_shuffle :: "'r \<Rightarrow> 'n list \<Rightarrow> 'n list \<times> 'r"

definition gen_range :: "('n, 'r) rng_ops \<Rightarrow> 'r \<Rightarrow> nat \<Rightarrow> (nat \<times> 'r) option" where
  "gen_range R r n = (if n = 0 then None else Some (random_range R r n))"

definition rng_ok :: "('n, 'r) rng_ops \<Rightarrow> bool" where
  "rng_ok R \<longleftrightarrow> (\<forall>r n. 0 < n \<longrightarrow> fst (random_range R r n) < n) \<and>
     (\<forall>r xs. mset (fst (rng_shuffle R r xs)) = mset xs)"

lemma gen_range_in_range:
  "rng_ok R \<Longrightarrow> gen_range R r n = Some (i, r') \<Longrightarrow> i < n"
  by (auto simp: gen_range_def rng_ok_def split: if_splits) (metis fst_conv)

lemma gen_range_total [std_simps]: "(\<exists>i r'. gen_range R r n = Some (i, r')) \<longleftrightarrow> 0 < n"
  by (auto simp: gen_range_def)

lemma rng_shuffle_mset: "rng_ok R \<Longrightarrow> rng_shuffle R r xs = (ys, r') \<Longrightarrow> mset ys = mset xs"
  unfolding rng_ok_def by (metis fst_conv)

lemma rng_shuffle_facts:
  assumes "rng_ok R" and "rng_shuffle R r xs = (ys, r')"
  shows "set ys = set xs" "length ys = length xs" "distinct ys = distinct xs"
  using rng_shuffle_mset [OF assms]
  by (metis set_mset_mset, metis size_mset, metis mset_eq_imp_distinct_iff)

text \<open>
  A generator that satisfies the contract, for concrete runs: it counts its calls, draws
  the count modulo the range and reverses the slice.
\<close>

definition counting_rng :: "('n, nat) rng_ops" where
  "counting_rng = \<lparr>random_range = (\<lambda>r n. (r mod n, Suc r)),
                   rng_shuffle = (\<lambda>r xs. (rev xs, Suc r))\<rparr>"

lemma counting_rng_ok [simp]: "rng_ok counting_rng"
  by (simp add: rng_ok_def counting_rng_def)

text \<open>
  The order in which a \<^verbatim>\<open>HashSet\<close> or the keys of a \<^verbatim>\<open>HashMap\<close> are iterated is not
  specified; an operation that iterates takes it as an argument, which yields every element
  of the collection once.
\<close>

definition iter_ok :: "('a set \<Rightarrow> 'a list) \<Rightarrow> bool" where
  "iter_ok it \<longleftrightarrow> (\<forall>S. finite S \<longrightarrow> set (it S) = S \<and> distinct (it S))"

lemma iter_ok_set: "iter_ok it \<Longrightarrow> finite S \<Longrightarrow> set (it S) = S"
  by (simp add: iter_ok_def)

lemma iter_ok_distinct: "iter_ok it \<Longrightarrow> finite S \<Longrightarrow> distinct (it S)"
  by (simp add: iter_ok_def)

lemma sorted_list_of_set_iter_ok [simp]:
  "iter_ok (sorted_list_of_set :: 'a::linorder set \<Rightarrow> 'a list)"
  by (simp add: iter_ok_def)

end
