(* ===== verification/HyParView_Types.thy ===== *)
theory HyParView_Types
  imports Prelude
begin

text \<open>
  The data of the crate \<^verbatim>\<open>hyparview\<close>: time to live (\<^verbatim>\<open>ttl.rs\<close>), node options
  (\<^verbatim>\<open>node_options.rs\<close>), protocol messages (\<^verbatim>\<open>message.rs\<close>), events (\<^verbatim>\<open>event.rs\<close>) and
  actions (\<^verbatim>\<open>action.rs\<close>), and what replaying a queue of actions does to a set of neighbors.
\<close>

section \<open>Time to live\<close>

datatype TimeToLive = TimeToLive (as_u8: u8)

definition is_expired :: "TimeToLive \<Rightarrow> bool" where
  "is_expired t \<longleftrightarrow> as_u8 t = 0"

definition decrement :: "TimeToLive \<Rightarrow> TimeToLive" where
  "decrement t = TimeToLive (saturating_sub (as_u8 t) 1)"

lemma as_u8_decrement: "unat (as_u8 (decrement t)) = unat (as_u8 t) - 1"
  by (simp add: decrement_def unat_saturating_sub)

lemma is_expired_iff: "is_expired t \<longleftrightarrow> unat (as_u8 t) = 0"
  by (simp add: is_expired_def unat_eq_0)

section \<open>Options\<close>

record node_options =
  max_active_view_size :: u8
  max_passive_view_size :: u8
  shuffle_active_view_size :: u8
  shuffle_passive_view_size :: u8
  active_random_walk_len :: u8
  passive_random_walk_len :: u8

definition default_node_options :: node_options where
  "default_node_options =
     \<lparr>max_active_view_size = 4, max_passive_view_size = 24,
      shuffle_active_view_size = 2, shuffle_passive_view_size = 2,
      active_random_walk_len = 5, passive_random_walk_len = 2\<rparr>"

section \<open>Messages\<close>

record 'n join_message =
  join_sender :: 'n

record 'n forward_join_message =
  fj_sender :: 'n
  fj_new_node :: 'n
  fj_ttl :: TimeToLive

record 'n neighbor_message =
  nb_sender :: 'n
  nb_high_priority :: bool

record 'n shuffle_message =
  sh_sender :: 'n
  sh_origin :: 'n
  sh_nodes :: "'n list"
  sh_ttl :: TimeToLive

record 'n shuffle_reply_message =
  sr_sender :: 'n
  sr_nodes :: "'n list"

record 'n disconnect_message =
  dc_sender :: 'n
  dc_alive :: bool

datatype 'n hv_message =
    Join "'n join_message"
  | ForwardJoin "'n forward_join_message"
  | Neighbor "'n neighbor_message"
  | Shuffle "'n shuffle_message"
  | ShuffleReply "'n shuffle_reply_message"
  | Disconnect "'n disconnect_message"

fun hv_sender :: "'n hv_message \<Rightarrow> 'n" where
  "hv_sender (Join m) = join_sender m"
| "hv_sender (ForwardJoin m) = fj_sender m"
| "hv_sender (Neighbor m) = nb_sender m"
| "hv_sender (Shuffle m) = sh_sender m"
| "hv_sender (ShuffleReply m) = sr_sender m"
| "hv_sender (Disconnect m) = dc_sender m"

definition mk_join :: "'n \<Rightarrow> 'n hv_message" where
  "mk_join s = Join \<lparr>join_sender = s\<rparr>"

definition mk_forward_join :: "'n \<Rightarrow> 'n \<Rightarrow> TimeToLive \<Rightarrow> 'n hv_message" where
  "mk_forward_join s new ttl = ForwardJoin \<lparr>fj_sender = s, fj_new_node = new, fj_ttl = ttl\<rparr>"

definition mk_neighbor :: "'n \<Rightarrow> bool \<Rightarrow> 'n hv_message" where
  "mk_neighbor s hp = Neighbor \<lparr>nb_sender = s, nb_high_priority = hp\<rparr>"

definition mk_shuffle :: "'n \<Rightarrow> 'n \<Rightarrow> 'n list \<Rightarrow> TimeToLive \<Rightarrow> 'n hv_message" where
  "mk_shuffle s origin nodes ttl =
     Shuffle \<lparr>sh_sender = s, sh_origin = origin, sh_nodes = nodes, sh_ttl = ttl\<rparr>"

definition mk_shuffle_reply :: "'n \<Rightarrow> 'n list \<Rightarrow> 'n hv_message" where
  "mk_shuffle_reply s nodes = ShuffleReply \<lparr>sr_sender = s, sr_nodes = nodes\<rparr>"

definition mk_disconnect :: "'n \<Rightarrow> bool \<Rightarrow> 'n hv_message" where
  "mk_disconnect s alive = Disconnect \<lparr>dc_sender = s, dc_alive = alive\<rparr>"

lemmas mk_message_defs =
  mk_join_def mk_forward_join_def mk_neighbor_def mk_shuffle_def mk_shuffle_reply_def
  mk_disconnect_def

lemma hv_sender_mk [simp]:
  "hv_sender (mk_join s) = s" "hv_sender (mk_forward_join s w t) = s"
  "hv_sender (mk_neighbor s b) = s" "hv_sender (mk_shuffle s w ns t) = s"
  "hv_sender (mk_shuffle_reply s ns) = s" "hv_sender (mk_disconnect s b) = s"
  by (simp_all add: mk_message_defs)

section \<open>Events and actions\<close>

datatype 'n hv_event = NeighborUp 'n | NeighborDown 'n

datatype 'n hv_action =
    HvSend 'n "'n hv_message"
  | HvDisconnect 'n
  | HvNotify "'n hv_event"

definition notify_up :: "'n \<Rightarrow> 'n hv_action" where
  "notify_up p = HvNotify (NeighborUp p)"

definition notify_down :: "'n \<Rightarrow> 'n hv_action" where
  "notify_down p = HvNotify (NeighborDown p)"

text \<open>
  The specification of the notifications: a listener that keeps a set of neighbors accepts
  an up event only for a node it does not have and a down event only for a node it has.
  \<^term>\<open>None\<close> is a notification that contradicts the set.
\<close>

fun replay :: "'n set \<Rightarrow> 'n hv_action list \<Rightarrow> 'n set option" where
  "replay S [] = Some S"
| "replay S (HvNotify (NeighborUp p) # as) = (if p \<in> S then None else replay (insert p S) as)"
| "replay S (HvNotify (NeighborDown p) # as) = (if p \<in> S then replay (S - {p}) as else None)"
| "replay S (HvSend d m # as) = replay S as"
| "replay S (HvDisconnect p # as) = replay S as"

lemma replay_append:
  "replay S (as @ bs) = Option.bind (replay S as) (\<lambda>T. replay T bs)"
  by (induction S as rule: replay.induct) auto

text \<open>A node sends messages in its own name only and never reports itself as a neighbor.\<close>

fun action_sender_ok :: "'n \<Rightarrow> 'n hv_action \<Rightarrow> bool" where
  "action_sender_ok me (HvSend d m) = (hv_sender m = me)"
| "action_sender_ok me (HvDisconnect p) = True"
| "action_sender_ok me (HvNotify e) = (e \<noteq> NeighborUp me)"

end
