(* ===== verification/HyParView_Node.thy ===== *)
theory HyParView_Node
  imports HyParView_Types
begin

text \<open>
  The node of the crate \<^verbatim>\<open>hyparview\<close> (\<^verbatim>\<open>node.rs\<close>): its state and every operation.  An
  operation takes the node and returns the updated one; \<^term>\<open>None\<close> is a panic (drawing from
  an empty range, an index out of range).  The generator \<open>R\<close> stands for the crate \<^verbatim>\<open>rand\<close>.
\<close>

record ('n, 'r) hv_node =
  hv_id :: 'n
  hv_actions :: "'n hv_action list"
  active_view :: "'n list"
  passive_view :: "'n list"
  hv_rng :: 'r
  hv_options :: node_options

definition hv_with_options :: "'n \<Rightarrow> 'r \<Rightarrow> node_options \<Rightarrow> ('n, 'r) hv_node" where
  "hv_with_options node_id rng options =
     \<lparr>hv_id = node_id, hv_actions = [], active_view = [], passive_view = [],
      hv_rng = rng, hv_options = options\<rparr>"

definition hv_new :: "'n \<Rightarrow> 'r \<Rightarrow> ('n, 'r) hv_node" where
  "hv_new node_id rng = hv_with_options node_id rng default_node_options"

section \<open>Queueing actions\<close>

definition send :: "'n hv_action list \<Rightarrow> 'n \<Rightarrow> 'n hv_message \<Rightarrow> 'n hv_action list" where
  "send actions destination message = actions @ [HvSend destination message]"

definition push_action :: "'n hv_action \<Rightarrow> ('n, 'r) hv_node \<Rightarrow> ('n, 'r) hv_node" where
  "push_action a n = n\<lparr>hv_actions := hv_actions n @ [a]\<rparr>"

definition send_to :: "'n \<Rightarrow> 'n hv_message \<Rightarrow> ('n, 'r) hv_node \<Rightarrow> ('n, 'r) hv_node" where
  "send_to destination message n = n\<lparr>hv_actions := send (hv_actions n) destination message\<rparr>"

definition hv_poll_action :: "('n, 'r) hv_node \<Rightarrow> 'n hv_action option \<times> ('n, 'r) hv_node" where
  "hv_poll_action n =
     (case hv_actions n of [] \<Rightarrow> (None, n) | a # as \<Rightarrow> (Some a, n\<lparr>hv_actions := as\<rparr>))"

section \<open>Views\<close>

definition is_active_view_full :: "('n, 'r) hv_node \<Rightarrow> bool" where
  "is_active_view_full n \<longleftrightarrow> unat (max_active_view_size (hv_options n)) \<le> length (active_view n)"

definition is_passive_view_full :: "('n, 'r) hv_node \<Rightarrow> bool" where
  "is_passive_view_full n \<longleftrightarrow> unat (max_passive_view_size (hv_options n)) \<le> length (passive_view n)"

definition remove_random_from_passive_view_if_full ::
  "('n, 'r) rng_ops \<Rightarrow> ('n, 'r) hv_node \<Rightarrow> ('n, 'r) hv_node option" where
  "remove_random_from_passive_view_if_full R n =
     (if is_passive_view_full n then do {
        (i, r) \<leftarrow> gen_range R (hv_rng n) (length (passive_view n));
        (_, pv) \<leftarrow> swap_remove i (passive_view n);
        Some (n\<lparr>passive_view := pv, hv_rng := r\<rparr>)
      } else Some n)"

definition add_to_passive_view ::
  "('n, 'r) rng_ops \<Rightarrow> 'n \<Rightarrow> ('n, 'r) hv_node \<Rightarrow> ('n, 'r) hv_node option" where
  "add_to_passive_view R node n =
     (if node \<in> set (active_view n) \<or> node \<in> set (passive_view n) \<or> node = hv_id n then Some n
      else do {
        n \<leftarrow> remove_random_from_passive_view_if_full R n;
        Some (n\<lparr>passive_view := passive_view n @ [node]\<rparr>)
      })"

definition remove_from_passive_view :: "'n \<Rightarrow> ('n, 'r) hv_node \<Rightarrow> ('n, 'r) hv_node option" where
  "remove_from_passive_view node n =
     (case position (\<lambda>p. p = node) (passive_view n) of
        None \<Rightarrow> Some n
      | Some i \<Rightarrow> do {
          (_, pv) \<leftarrow> swap_remove i (passive_view n);
          Some (n\<lparr>passive_view := pv\<rparr>)
        })"

definition remove_from_active_view_by_index ::
  "('n, 'r) rng_ops \<Rightarrow> nat \<Rightarrow> bool \<Rightarrow> ('n, 'r) hv_node \<Rightarrow> ('n, 'r) hv_node option" where
  "remove_from_active_view_by_index R i alive n = do {
     (node, av) \<leftarrow> swap_remove i (active_view n);
     let n = n\<lparr>active_view := av\<rparr>;
     let n = (if alive then send_to node (mk_disconnect (hv_id n) True) n else n);
     let n = push_action (HvDisconnect node) n;
     let n = push_action (notify_down node) n;
     add_to_passive_view R node n
   }"

definition remove_from_active_view ::
  "('n, 'r) rng_ops \<Rightarrow> 'n disconnect_message \<Rightarrow> ('n, 'r) hv_node \<Rightarrow> (bool \<times> ('n, 'r) hv_node) option"
  where
  "remove_from_active_view R m n =
     (case position (\<lambda>p. p = dc_sender m) (active_view n) of
        Some i \<Rightarrow> do {
          n \<leftarrow> remove_from_active_view_by_index R i (dc_alive m) n;
          Some (True, n)
        }
      | None \<Rightarrow> Some (False, n))"

definition remove_random_from_active_view_if_full ::
  "('n, 'r) rng_ops \<Rightarrow> ('n, 'r) hv_node \<Rightarrow> ('n, 'r) hv_node option" where
  "remove_random_from_active_view_if_full R n =
     (if is_active_view_full n then do {
        (i, r) \<leftarrow> gen_range R (hv_rng n) (length (active_view n));
        remove_from_active_view_by_index R i True (n\<lparr>hv_rng := r\<rparr>)
      } else Some n)"

definition add_to_active_view ::
  "('n, 'r) rng_ops \<Rightarrow> 'n \<Rightarrow> bool \<Rightarrow> ('n, 'r) hv_node \<Rightarrow> ('n, 'r) hv_node option" where
  "add_to_active_view R node high_priority n =
     (if node \<in> set (active_view n) \<or> node = hv_id n then Some n
      else do {
        n \<leftarrow> remove_random_from_active_view_if_full R n;
        n \<leftarrow> remove_from_passive_view node n;
        let n = n\<lparr>active_view := active_view n @ [node]\<rparr>;
        let n = send_to node (mk_neighbor (hv_id n) high_priority) n;
        Some (push_action (notify_up node) n)
      })"

fun add_shuffled_nodes_to_passive_view ::
  "('n, 'r) rng_ops \<Rightarrow> 'n list \<Rightarrow> ('n, 'r) hv_node \<Rightarrow> ('n, 'r) hv_node option" where
  "add_shuffled_nodes_to_passive_view R [] n = Some n"
| "add_shuffled_nodes_to_passive_view R (p # ps) n = do {
     n \<leftarrow> add_to_passive_view R p n;
     add_shuffled_nodes_to_passive_view R ps n
   }"

definition disconnect_unless_active_view_node :: "'n \<Rightarrow> ('n, 'r) hv_node \<Rightarrow> ('n, 'r) hv_node" where
  "disconnect_unless_active_view_node node n =
     (if node \<notin> set (active_view n) \<and> hv_id n \<noteq> node then
        push_action (HvDisconnect node) (send_to node (mk_disconnect (hv_id n) True) n)
      else n)"

section \<open>Selecting nodes\<close>

text \<open>
  The loop of \<^verbatim>\<open>select_forwarding_destination\<close>: the excluded nodes are swapped to the end of
  the view, \<open>tail\<close> is the number of candidates left.
\<close>

function forwarding_candidates :: "'n list \<Rightarrow> 'n list \<Rightarrow> nat \<Rightarrow> nat \<Rightarrow> 'n list \<times> nat" where
  "forwarding_candidates excludes view i tail =
     (if i < tail \<and> tail \<noteq> 0 then
        if view ! i \<in> set excludes
        then forwarding_candidates excludes (list_swap i (tail - 1) view) i (tail - 1)
        else forwarding_candidates excludes view (i + 1) tail
      else (view, tail))"
  by pat_completeness auto
termination
  by (relation "measure (\<lambda>(_, _, i, tail). tail - i)") auto

declare forwarding_candidates.simps [simp del]

definition select_forwarding_destination ::
  "('n, 'r) rng_ops \<Rightarrow> 'n list \<Rightarrow> ('n, 'r) hv_node \<Rightarrow> ('n option \<times> ('n, 'r) hv_node) option" where
  "select_forwarding_destination R excludes n = do {
     let (view, tail) = forwarding_candidates excludes (active_view n) 0 (length (active_view n));
     let n = n\<lparr>active_view := view\<rparr>;
     if tail = 0 then Some (None, n)
     else do {
       (i, r) \<leftarrow> gen_range R (hv_rng n) tail;
       p \<leftarrow> vec_get (active_view n) i;
       Some (Some p, n\<lparr>hv_rng := r\<rparr>)
     }
   }"

definition select_random_from_active_view ::
  "('n, 'r) rng_ops \<Rightarrow> ('n, 'r) hv_node \<Rightarrow> ('n option \<times> ('n, 'r) hv_node) option" where
  "select_random_from_active_view R n =
     (if active_view n = [] then Some (None, n)
      else do {
        (i, r) \<leftarrow> gen_range R (hv_rng n) (length (active_view n));
        p \<leftarrow> vec_get (active_view n) i;
        Some (Some p, n\<lparr>hv_rng := r\<rparr>)
      })"

definition select_random_from_passive_view ::
  "('n, 'r) rng_ops \<Rightarrow> ('n, 'r) hv_node \<Rightarrow> ('n option \<times> ('n, 'r) hv_node) option" where
  "select_random_from_passive_view R n =
     (if passive_view n = [] then Some (None, n)
      else do {
        (i, r) \<leftarrow> gen_range R (hv_rng n) (length (passive_view n));
        p \<leftarrow> vec_get (passive_view n) i;
        Some (Some p, n\<lparr>hv_rng := r\<rparr>)
      })"

section \<open>The public operations\<close>

definition hv_join :: "'n \<Rightarrow> ('n, 'r) hv_node \<Rightarrow> ('n, 'r) hv_node" where
  "hv_join contact_node_id n = send_to contact_node_id (mk_join (hv_id n)) n"

definition shuffle_passive_view ::
  "('n, 'r) rng_ops \<Rightarrow> ('n, 'r) hv_node \<Rightarrow> ('n, 'r) hv_node option" where
  "shuffle_passive_view R n = do {
     (sel, n) \<leftarrow> select_random_from_active_view R n;
     case sel of
       None \<Rightarrow> Some n
     | Some node \<Rightarrow>
         let (pv, r) = rng_shuffle R (hv_rng n) (passive_view n);
             (av, r) = rng_shuffle R r (active_view n);
             n = n\<lparr>passive_view := pv, active_view := av, hv_rng := r\<rparr>;
             pv_size = unat (shuffle_passive_view_size (hv_options n));
             av_size = unat (shuffle_active_view_size (hv_options n));
             nodes = take pv_size (passive_view n) @ take av_size (active_view n) @ [hv_id n];
             ttl = TimeToLive (active_random_walk_len (hv_options n))
         in Some (send_to node (mk_shuffle (hv_id n) (hv_id n) nodes ttl) n)
   }"

definition fill_active_view ::
  "('n, 'r) rng_ops \<Rightarrow> ('n, 'r) hv_node \<Rightarrow> ('n, 'r) hv_node option" where
  "fill_active_view R n =
     (if \<not> is_active_view_full n then do {
        (sel, n) \<leftarrow> select_random_from_passive_view R n;
        case sel of
          None \<Rightarrow> Some n
        | Some node \<Rightarrow>
            let high_priority = (active_view n = [])
            in Some (send_to node (mk_neighbor (hv_id n) high_priority) n)
      } else Some n)"

definition sync_active_view :: "('n, 'r) hv_node \<Rightarrow> ('n, 'r) hv_node" where
  "sync_active_view n = fold (\<lambda>node. send_to node (mk_neighbor (hv_id n) False)) (active_view n) n"

section \<open>Message handlers\<close>

definition handle_join ::
  "('n, 'r) rng_ops \<Rightarrow> 'n join_message \<Rightarrow> ('n, 'r) hv_node \<Rightarrow> ('n, 'r) hv_node option" where
  "handle_join R m n = do {
     let new_node = join_sender m;
     n \<leftarrow> add_to_active_view R new_node True n;
     let ttl = TimeToLive (active_random_walk_len (hv_options n));
     Some (fold (\<lambda>p. send_to p (mk_forward_join (hv_id n) new_node ttl))
             (filter (\<lambda>p. p \<noteq> new_node) (active_view n)) n)
   }"

definition handle_forward_join ::
  "('n, 'r) rng_ops \<Rightarrow> 'n forward_join_message \<Rightarrow> ('n, 'r) hv_node \<Rightarrow> ('n, 'r) hv_node option" where
  "handle_forward_join R m n =
     (if is_expired (fj_ttl m) \<or> active_view n = [] then add_to_active_view R (fj_new_node m) True n
      else do {
        n \<leftarrow> (if as_u8 (fj_ttl m) = passive_random_walk_len (hv_options n)
              then add_to_passive_view R (fj_new_node m) n else Some n);
        (sel, n) \<leftarrow> select_forwarding_destination R [fj_sender m] n;
        case sel of
          Some next \<Rightarrow>
            Some (send_to next (mk_forward_join (hv_id n) (fj_new_node m) (decrement (fj_ttl m))) n)
        | None \<Rightarrow> add_to_active_view R (fj_new_node m) True n
      })"

definition handle_neighbor ::
  "('n, 'r) rng_ops \<Rightarrow> 'n neighbor_message \<Rightarrow> ('n, 'r) hv_node \<Rightarrow> ('n, 'r) hv_node option" where
  "handle_neighbor R m n =
     (if nb_high_priority m \<or> \<not> is_active_view_full n
      then add_to_active_view R (nb_sender m) False n else Some n)"

definition handle_shuffle ::
  "('n, 'r) rng_ops \<Rightarrow> 'n shuffle_message \<Rightarrow> ('n, 'r) hv_node \<Rightarrow> ('n, 'r) hv_node option" where
  "handle_shuffle R m n =
     (if is_expired (sh_ttl m) then
        let (pv, r) = rng_shuffle R (hv_rng n) (passive_view n);
            n = n\<lparr>passive_view := pv, hv_rng := r\<rparr>;
            reply_nodes = take (length (sh_nodes m)) (passive_view n);
            n = send_to (sh_origin m) (mk_shuffle_reply (hv_id n) reply_nodes) n
        in add_shuffled_nodes_to_passive_view R (sh_nodes m) n
      else do {
        (sel, n) \<leftarrow> select_forwarding_destination R [sh_origin m, sh_sender m] n;
        case sel of
          Some destination \<Rightarrow>
            Some (send_to destination
                    (mk_shuffle (hv_id n) (sh_origin m) (sh_nodes m) (decrement (sh_ttl m))) n)
        | None \<Rightarrow> Some n
      })"

definition handle_shuffle_reply ::
  "('n, 'r) rng_ops \<Rightarrow> 'n shuffle_reply_message \<Rightarrow> ('n, 'r) hv_node \<Rightarrow> ('n, 'r) hv_node option" where
  "handle_shuffle_reply R m n = add_shuffled_nodes_to_passive_view R (sr_nodes m) n"

definition handle_disconnect ::
  "('n, 'r) rng_ops \<Rightarrow> 'n disconnect_message \<Rightarrow> ('n, 'r) hv_node \<Rightarrow> ('n, 'r) hv_node option" where
  "handle_disconnect R m n = do {
     (removed, n) \<leftarrow> remove_from_active_view R m n;
     n \<leftarrow> (if removed then do {
             n \<leftarrow> remove_from_passive_view (dc_sender m) n;
             fill_active_view R n
           } else Some n);
     if dc_alive m then add_to_passive_view R (dc_sender m) n else Some n
   }"

definition hv_handle_protocol_message ::
  "('n, 'r) rng_ops \<Rightarrow> 'n hv_message \<Rightarrow> ('n, 'r) hv_node \<Rightarrow> ('n, 'r) hv_node option" where
  "hv_handle_protocol_message R message n =
     (let sender = hv_sender message;
          finish = map_option (disconnect_unless_active_view_node sender)
      in case message of
           Join m \<Rightarrow> finish (handle_join R m n)
         | ForwardJoin m \<Rightarrow> finish (handle_forward_join R m n)
         | Neighbor m \<Rightarrow> finish (handle_neighbor R m n)
         | Shuffle m \<Rightarrow> finish (handle_shuffle R m n)
         | ShuffleReply m \<Rightarrow> finish (handle_shuffle_reply R m n)
         | Disconnect m \<Rightarrow> handle_disconnect R m n)"

definition hv_disconnect ::
  "('n, 'r) rng_ops \<Rightarrow> 'n \<Rightarrow> bool \<Rightarrow> ('n, 'r) hv_node \<Rightarrow> ('n, 'r) hv_node option" where
  "hv_disconnect R node alive n = hv_handle_protocol_message R (mk_disconnect node alive) n"

end
