(* ===== verification/HyParView_Inv.thy ===== *)
theory HyParView_Inv
  imports HyParView_Node
begin

text \<open>
  The invariant of the HyParView node and the contract every operation keeps: the views stay
  distinct, disjoint and without the node itself, within their bounds, and the notifications
  an operation queues replay the change it makes to the active view.
\<close>

section \<open>Invariant and contract\<close>

definition hv_wf :: "('n, 'r) hv_node \<Rightarrow> bool" where
  "hv_wf n \<longleftrightarrow> distinct (active_view n) \<and> distinct (passive_view n) \<and>
     set (active_view n) \<inter> set (passive_view n) = {} \<and>
     hv_id n \<notin> set (active_view n) \<and> hv_id n \<notin> set (passive_view n)"

abbreviation max_active :: "('n, 'r) hv_node \<Rightarrow> nat" where
  "max_active n \<equiv> unat (max_active_view_size (hv_options n))"

abbreviation max_passive :: "('n, 'r) hv_node \<Rightarrow> nat" where
  "max_passive n \<equiv> unat (max_passive_view_size (hv_options n))"

definition hv_bounded :: "('n, 'r) hv_node \<Rightarrow> bool" where
  "hv_bounded n \<longleftrightarrow> length (active_view n) \<le> max_active n \<and> length (passive_view n) \<le> max_passive n"

definition hv_ext :: "('n, 'r) hv_node \<Rightarrow> ('n, 'r) hv_node \<Rightarrow> bool" where
  "hv_ext n n' \<longleftrightarrow> hv_id n' = hv_id n \<and> hv_options n' = hv_options n \<and>
     length (active_view n') \<le> max (length (active_view n)) (max_active n) \<and>
     length (passive_view n') \<le> max (length (passive_view n)) (max_passive n) \<and>
     (\<exists>new. hv_actions n' = hv_actions n @ new \<and>
        replay (set (active_view n)) new = Some (set (active_view n')) \<and>
        (\<forall>a \<in> set new. action_sender_ok (hv_id n) a))"

definition hv_ok :: "('n, 'r) hv_node \<Rightarrow> ('n, 'r) hv_node \<Rightarrow> bool" where
  "hv_ok n n' \<longleftrightarrow> (hv_wf n \<longrightarrow> hv_wf n' \<and> hv_ext n n')"

lemma hv_ext_refl [simp]: "hv_ext n n"
  by (auto simp: hv_ext_def)

lemma hv_ext_trans:
  assumes "hv_ext a b" and "hv_ext b c"
  shows "hv_ext a c"
proof -
  from assms(1) obtain x where x: "hv_actions b = hv_actions a @ x"
    "replay (set (active_view a)) x = Some (set (active_view b))"
    "\<forall>y \<in> set x. action_sender_ok (hv_id a) y"
    by (auto simp: hv_ext_def)
  from assms(2) obtain y where y: "hv_actions c = hv_actions b @ y"
    "replay (set (active_view b)) y = Some (set (active_view c))"
    "\<forall>z \<in> set y. action_sender_ok (hv_id b) z"
    by (auto simp: hv_ext_def)
  have "hv_actions c = hv_actions a @ (x @ y)"
    "replay (set (active_view a)) (x @ y) = Some (set (active_view c))"
    using x y by (simp_all add: replay_append)
  moreover have "\<forall>z \<in> set (x @ y). action_sender_ok (hv_id a) z"
    using x(3) y(3) assms(1) by (auto simp: hv_ext_def)
  moreover have "hv_id c = hv_id a" "hv_options c = hv_options a"
    "length (active_view c) \<le> max (length (active_view a)) (max_active a)"
    "length (passive_view c) \<le> max (length (passive_view a)) (max_passive a)"
    using assms by (auto simp: hv_ext_def)
  ultimately show ?thesis unfolding hv_ext_def by blast
qed

lemma hv_ok_refl [simp, intro]: "hv_ok n n"
  by (simp add: hv_ok_def)

lemma hv_ok_trans [trans]: "hv_ok a b \<Longrightarrow> hv_ok b c \<Longrightarrow> hv_ok a c"
  unfolding hv_ok_def by (blast intro: hv_ext_trans)

lemma hv_ok_frame:
  "hv_ok n n' \<Longrightarrow> hv_wf n \<Longrightarrow> hv_id n' = hv_id n \<and> hv_options n' = hv_options n"
  by (auto simp: hv_ok_def hv_ext_def)

lemma hv_ok_bounded: "hv_ok n n' \<Longrightarrow> hv_wf n \<Longrightarrow> hv_bounded n \<Longrightarrow> hv_bounded n'"
  by (auto simp: hv_ok_def hv_ext_def hv_bounded_def max_def split: if_splits)

section \<open>The building blocks keep the contract\<close>

text \<open>A change that keeps the active view as a set and queues no notification.\<close>

lemma hv_ok_quiet:
  assumes "hv_id n' = hv_id n" "hv_options n' = hv_options n"
    and "set (active_view n') = set (active_view n)"
    and "length (active_view n') = length (active_view n)"
    and "set (passive_view n') \<subseteq> set (passive_view n)"
    and "length (passive_view n') \<le> length (passive_view n)"
    and "distinct (passive_view n) \<Longrightarrow> distinct (passive_view n')"
    and "hv_actions n' = hv_actions n"
  shows "hv_ok n n'"
proof -
  have "distinct (active_view n) \<Longrightarrow> distinct (active_view n')"
    using assms(3,4) by (metis card_distinct distinct_card)
  with assms show ?thesis by (auto simp: hv_ok_def hv_wf_def hv_ext_def)
qed

lemma hv_ok_rng [simp, intro]: "hv_ok n (n\<lparr>hv_rng := r\<rparr>)"
  by (rule hv_ok_quiet) simp_all

lemma hv_ok_send_to: "hv_sender m = hv_id n \<Longrightarrow> hv_ok n (send_to d m n)"
  by (auto simp: hv_ok_def hv_wf_def hv_ext_def send_to_def send_def)

lemma hv_ok_then_send: "hv_ok a n \<Longrightarrow> hv_sender m = hv_id n \<Longrightarrow> hv_ok a (send_to d m n)"
  by (rule hv_ok_trans [OF _ hv_ok_send_to])

lemma hv_ok_push_disconnect: "hv_ok n (push_action (HvDisconnect p) n)"
  by (auto simp: hv_ok_def hv_wf_def hv_ext_def push_action_def)

lemma send_to_frame [simp]:
  "hv_id (send_to d m n) = hv_id n" "hv_options (send_to d m n) = hv_options n"
  "active_view (send_to d m n) = active_view n" "passive_view (send_to d m n) = passive_view n"
  "hv_rng (send_to d m n) = hv_rng n" "hv_actions (send_to d m n) = hv_actions n @ [HvSend d m]"
  by (simp_all add: send_to_def send_def)

lemma push_action_frame [simp]:
  "hv_id (push_action a n) = hv_id n" "hv_options (push_action a n) = hv_options n"
  "active_view (push_action a n) = active_view n" "passive_view (push_action a n) = passive_view n"
  "hv_rng (push_action a n) = hv_rng n" "hv_actions (push_action a n) = hv_actions n @ [a]"
  by (simp_all add: push_action_def)

lemma hv_ok_fold_send_to:
  "(\<And>p. hv_sender (f p) = hv_id n) \<Longrightarrow> hv_ok n (fold (\<lambda>p. send_to p (f p)) ps n)"
proof (induction ps arbitrary: n)
  case (Cons p ps)
  then have "hv_ok n (send_to p (f p) n)" by (simp add: hv_ok_send_to)
  also have "hv_ok \<dots> (fold (\<lambda>p. send_to p (f p)) ps (send_to p (f p) n))"
    using Cons by simp
  finally show ?case by simp
qed simp

lemma fold_send_to_frame [simp]:
  "hv_id (fold (\<lambda>p. send_to p (f p)) ps n) = hv_id n"
  "hv_options (fold (\<lambda>p. send_to p (f p)) ps n) = hv_options n"
  "active_view (fold (\<lambda>p. send_to p (f p)) ps n) = active_view n"
  "passive_view (fold (\<lambda>p. send_to p (f p)) ps n) = passive_view n"
  "hv_actions (fold (\<lambda>p. send_to p (f p)) ps n) = hv_actions n @ map (\<lambda>p. HvSend p (f p)) ps"
  by (induction ps arbitrary: n) auto

lemma remove_random_passive_ok:
  "remove_random_from_passive_view_if_full R n = Some n' \<Longrightarrow> hv_ok n n'"
  unfolding remove_random_from_passive_view_if_full_def
  by (auto split: if_splits simp: bind_eq_Some_conv dest: swap_remove_facts intro!: hv_ok_quiet)

text \<open>After making room there is space for one more node.\<close>

lemma remove_random_passive_room:
  assumes "remove_random_from_passive_view_if_full R n = Some n'"
  shows "Suc (length (passive_view n')) \<le> max (length (passive_view n)) (max_passive n)"
    and "active_view n' = active_view n" and "hv_actions n' = hv_actions n"
    and "set (passive_view n') \<subseteq> set (passive_view n)"
    and "hv_id n' = hv_id n" and "hv_options n' = hv_options n"
  using assms unfolding remove_random_from_passive_view_if_full_def is_passive_view_full_def
  by (auto split: if_splits simp: bind_eq_Some_conv dest: swap_remove_facts)

lemma add_to_passive_view_frame:
  assumes "add_to_passive_view R p n = Some n'"
  shows "active_view n' = active_view n" and "hv_actions n' = hv_actions n"
    and "hv_id n' = hv_id n" and "hv_options n' = hv_options n"
    and "set (passive_view n') \<subseteq> insert p (set (passive_view n))"
  using assms unfolding add_to_passive_view_def
  by (auto split: if_splits simp: bind_eq_Some_conv
      dest: remove_random_passive_room remove_random_passive_room(4) [THEN subsetD])

lemma add_to_passive_view_ok:
  assumes "add_to_passive_view R p n = Some n'"
  shows "hv_ok n n'"
proof (cases "p \<in> set (active_view n) \<or> p \<in> set (passive_view n) \<or> p = hv_id n")
  case True
  with assms show ?thesis by (auto simp: add_to_passive_view_def)
next
  case False
  with assms obtain m where m: "remove_random_from_passive_view_if_full R n = Some m"
    and n': "n' = m\<lparr>passive_view := passive_view m @ [p]\<rparr>"
    by (auto simp: add_to_passive_view_def bind_eq_Some_conv)
  note room = remove_random_passive_room [OF m]
  from remove_random_passive_ok [OF m] False room show ?thesis
    by (auto simp: hv_ok_def hv_wf_def hv_ext_def n')
qed

lemma remove_from_passive_view_frame:
  assumes "remove_from_passive_view p n = Some n'"
  shows "active_view n' = active_view n" and "hv_actions n' = hv_actions n"
    and "hv_id n' = hv_id n" and "hv_options n' = hv_options n"
    and "length (passive_view n') \<le> length (passive_view n)"
  using assms unfolding remove_from_passive_view_def
  by (auto split: option.splits simp: bind_eq_Some_conv dest: swap_remove_facts)

lemma remove_from_passive_view_ok: "remove_from_passive_view p n = Some n' \<Longrightarrow> hv_ok n n'"
  unfolding remove_from_passive_view_def
  by (auto split: option.splits simp: bind_eq_Some_conv dest: swap_remove_facts intro!: hv_ok_quiet)

lemma remove_from_passive_view_set:
  assumes "remove_from_passive_view p n = Some n'" and "distinct (passive_view n)"
  shows "set (passive_view n') = set (passive_view n) - {p}"
proof (cases "position (\<lambda>q. q = p) (passive_view n)")
  case None
  with assms(1) show ?thesis
    by (auto simp: remove_from_passive_view_def position_None)
next
  case (Some i)
  with assms(1) obtain x pv where sr: "swap_remove i (passive_view n) = Some (x, pv)"
    and n': "n' = n\<lparr>passive_view := pv\<rparr>"
    by (auto simp: remove_from_passive_view_def bind_eq_Some_conv)
  from Some sr have "x = p" by (auto dest: position_SomeD swap_remove_nth)
  with swap_remove_facts [OF sr] assms(2) show ?thesis by (auto simp: n')
qed

text \<open>Removing an active node queues the disconnect and the down notification.\<close>

lemma remove_by_index_spec:
  assumes "remove_from_active_view_by_index R i alive n = Some n'"
  obtains p av where "swap_remove i (active_view n) = Some (p, av)"
    and "active_view n' = av" "hv_id n' = hv_id n" "hv_options n' = hv_options n"
    and "hv_actions n' = hv_actions n @
           (if alive then [HvSend p (mk_disconnect (hv_id n) True)] else []) @
           [HvDisconnect p, notify_down p]"
    and "set (passive_view n') \<subseteq> insert p (set (passive_view n))"
    and "length (passive_view n') \<le> max (length (passive_view n)) (max_passive n)"
    and "hv_wf n \<Longrightarrow> hv_wf n'"
proof -
  from assms obtain p av where sr: "swap_remove i (active_view n) = Some (p, av)"
    by (auto simp: remove_from_active_view_by_index_def bind_eq_Some_conv)
  define m where "m = push_action (notify_down p) (push_action (HvDisconnect p)
    (if alive then send_to p (mk_disconnect (hv_id n) True) (n\<lparr>active_view := av\<rparr>)
     else n\<lparr>active_view := av\<rparr>))"
  have add: "add_to_passive_view R p m = Some n'"
    using assms sr by (auto simp: remove_from_active_view_by_index_def m_def Let_def split: if_splits)
  have mwf: "hv_wf n \<Longrightarrow> hv_wf m"
    using swap_remove_facts [OF sr] by (auto simp: hv_wf_def m_def)
  have mp: "passive_view m = passive_view n" "hv_options m = hv_options n" by (simp_all add: m_def)
  show thesis
  proof (rule that [OF sr])
    show "active_view n' = av" "hv_id n' = hv_id n" "hv_options n' = hv_options n"
      and "hv_actions n' = hv_actions n @
           (if alive then [HvSend p (mk_disconnect (hv_id n) True)] else []) @
           [HvDisconnect p, notify_down p]"
      and "set (passive_view n') \<subseteq> insert p (set (passive_view n))"
      using add_to_passive_view_frame [OF add] by (auto simp: m_def split: if_splits)
    show "hv_wf n \<Longrightarrow> hv_wf n'"
      using add_to_passive_view_ok [OF add] mwf by (simp add: hv_ok_def)
    show "length (passive_view n') \<le> max (length (passive_view n)) (max_passive n)"
      using add mp by (auto simp: add_to_passive_view_def bind_eq_Some_conv split: if_splits
          dest: remove_random_passive_room)
  qed
qed

lemma remove_by_index_length:
  assumes "remove_from_active_view_by_index R i alive n = Some n'"
  shows "length (active_view n) = Suc (length (active_view n'))"
  by (rule remove_by_index_spec [OF assms]) (auto dest: swap_remove_length)

lemma remove_by_index_ok:
  assumes "remove_from_active_view_by_index R i alive n = Some n'"
  shows "hv_ok n n'"
proof (rule remove_by_index_spec [OF assms])
  fix p av
  assume sr: "swap_remove i (active_view n) = Some (p, av)" and av: "active_view n' = av"
    and r: "hv_id n' = hv_id n" "hv_options n' = hv_options n"
    "hv_actions n' = hv_actions n @
       (if alive then [HvSend p (mk_disconnect (hv_id n) True)] else []) @
       [HvDisconnect p, notify_down p]"
    "length (passive_view n') \<le> max (length (passive_view n)) (max_passive n)"
    "hv_wf n \<Longrightarrow> hv_wf n'"
  note f = swap_remove_facts [OF sr]
  from f have "distinct (active_view n) \<Longrightarrow> set (active_view n) - {p} = set av" by auto
  with f av r show "hv_ok n n'"
    by (auto simp: hv_ok_def hv_ext_def hv_wf_def notify_down_def)
qed

lemma remove_from_active_view_ok:
  "remove_from_active_view R m n = Some (b, n') \<Longrightarrow> hv_ok n n'"
  unfolding remove_from_active_view_def
  by (auto split: option.splits simp: bind_eq_Some_conv dest: remove_by_index_ok)

lemma remove_random_active_ok:
  assumes "remove_random_from_active_view_if_full R n = Some n'"
  shows "hv_ok n n'"
  using assms unfolding remove_random_from_active_view_if_full_def
  by (auto split: if_splits simp: bind_eq_Some_conv
      intro: hv_ok_trans [OF hv_ok_rng] dest: remove_by_index_ok)

lemma remove_random_active_room:
  assumes "remove_random_from_active_view_if_full R n = Some n'"
  shows "Suc (length (active_view n')) \<le> max (length (active_view n)) (max_active n)"
    and "set (active_view n') \<subseteq> set (active_view n)"
    and "p \<notin> set (active_view n) \<Longrightarrow> p \<notin> set (active_view n')"
proof -
  show "Suc (length (active_view n')) \<le> max (length (active_view n)) (max_active n)"
    using assms unfolding remove_random_from_active_view_if_full_def is_active_view_full_def
    by (auto split: if_splits simp: bind_eq_Some_conv dest: remove_by_index_length)
  show sub: "set (active_view n') \<subseteq> set (active_view n)"
    using assms unfolding remove_random_from_active_view_if_full_def
    by (auto split: if_splits simp: bind_eq_Some_conv elim!: remove_by_index_spec
        dest: swap_remove_set)
  then show "p \<notin> set (active_view n) \<Longrightarrow> p \<notin> set (active_view n')" by blast
qed

lemma add_to_active_view_cases:
  assumes "add_to_active_view R p hp n = Some n'"
  obtains (known) "p \<in> set (active_view n) \<or> p = hv_id n" "n' = n"
  | (added) a b where "p \<notin> set (active_view n)" "p \<noteq> hv_id n"
      "remove_random_from_active_view_if_full R n = Some a"
      "remove_from_passive_view p a = Some b"
      "n' = push_action (notify_up p) (send_to p (mk_neighbor (hv_id b) hp)
              (b\<lparr>active_view := active_view b @ [p]\<rparr>))"
  using assms unfolding add_to_active_view_def
  by (auto split: if_splits simp: bind_eq_Some_conv Let_def)

lemma add_to_active_view_ok:
  assumes "add_to_active_view R p hp n = Some n'"
  shows "hv_ok n n'"
  using assms
proof (cases rule: add_to_active_view_cases)
  case (added a b)
  have ab: "hv_ok n a" "hv_ok a b"
    using added(3,4) by (auto dest: remove_random_active_ok remove_from_passive_view_ok)
  then have nb: "hv_ok n b" by (rule hv_ok_trans)
  note room = remove_random_active_room [OF added(3)] and fr = remove_from_passive_view_frame [OF added(4)]
  show ?thesis unfolding hv_ok_def
  proof
    assume wf: "hv_wf n"
    with ab have "hv_wf a" by (simp add: hv_ok_def)
    then have pv: "set (passive_view b) = set (passive_view a) - {p}"
      using remove_from_passive_view_set [OF added(4)] by (simp add: hv_wf_def)
    from wf nb have b: "hv_wf b" "hv_ext n b" by (auto simp: hv_ok_def)
    have notin: "p \<notin> set (active_view b)" using room(3) added(1) fr(1) by simp
    from b(2) obtain new where new: "hv_actions b = hv_actions n @ new"
      "replay (set (active_view n)) new = Some (set (active_view b))"
      "\<forall>x \<in> set new. action_sender_ok (hv_id n) x" by (auto simp: hv_ext_def)
    have "hv_wf n'" using b notin pv added(2) by (auto simp: hv_wf_def hv_ext_def added(5))
    moreover have "hv_ext n n'"
      using b(2) new notin room(1) fr(1) added(2)
      by (auto simp: hv_ext_def added(5) replay_append notify_up_def)
    ultimately show "hv_wf n' \<and> hv_ext n n'" by simp
  qed
qed simp

section \<open>Selecting a destination\<close>

text \<open>
  The loop invariant: everything before \<open>i\<close> is a candidate, everything from \<open>tail\<close> on is
  excluded.
\<close>

definition fwd_inv :: "'n list \<Rightarrow> 'n list \<Rightarrow> nat \<Rightarrow> nat \<Rightarrow> bool" where
  "fwd_inv ex view i tail \<longleftrightarrow> i \<le> tail \<and> tail \<le> length view \<and>
     (\<forall>k < i. view ! k \<notin> set ex) \<and> (\<forall>k < length view. tail \<le> k \<longrightarrow> view ! k \<in> set ex)"

lemma fwd_inv_swap:
  assumes "fwd_inv ex view i tail" and "i < tail" and "view ! i \<in> set ex"
  shows "fwd_inv ex (list_swap i (tail - 1) view) i (tail - 1)"
proof -
  obtain t where t: "tail = Suc t" using assms(2) by (cases tail) auto
  have "list_swap i t view ! k = (if k = i then view ! t else if k = t then view ! i else view ! k)"
    if "k < length view" for k
    using that assms(1,2) by (simp add: nth_list_swap fwd_inv_def t)
  with assms show ?thesis by (auto simp: fwd_inv_def t le_Suc_eq)
qed

lemma forwarding_candidates_inv:
  assumes "forwarding_candidates ex view i tail = (view', tail')" and "fwd_inv ex view i tail"
  shows "mset view' = mset view \<and> fwd_inv ex view' tail' tail'"
  using assms
proof (induction ex view i tail rule: forwarding_candidates.induct)
  case (1 ex view i tail)
  note step = forwarding_candidates.simps [of ex view i tail]
  consider (stop) "\<not> (i < tail \<and> tail \<noteq> 0)"
    | (swap) "i < tail \<and> tail \<noteq> 0" "view ! i \<in> set ex"
    | (skip) "i < tail \<and> tail \<noteq> 0" "view ! i \<notin> set ex" by blast
  then show ?case
  proof cases
    case stop
    with "1.prems" step show ?thesis by (auto simp: fwd_inv_def not_less)
  next
    case swap
    then have "fwd_inv ex (list_swap i (tail - 1) view) i (tail - 1)"
      using fwd_inv_swap [OF "1.prems"(2)] by blast
    moreover have "forwarding_candidates ex (list_swap i (tail - 1) view) i (tail - 1) = (view', tail')"
      using "1.prems"(1) step swap by simp
    moreover have "mset (list_swap i (tail - 1) view) = mset view"
      using swap "1.prems"(2) by (auto simp: fwd_inv_def intro!: mset_list_swap)
    ultimately show ?thesis using "1.IH"(1) [OF swap] by simp
  next
    case skip
    then have "fwd_inv ex view (i + 1) tail"
      using "1.prems"(2) by (auto simp: fwd_inv_def less_Suc_eq)
    with skip "1.prems"(1) step "1.IH"(2) [OF skip] show ?thesis by simp
  qed
qed

lemma forwarding_candidates_spec:
  assumes "forwarding_candidates ex view 0 (length view) = (view', tail)"
  shows "mset view' = mset view" and "tail \<le> length view'"
    and "set (take tail view') = set view - set ex"
proof -
  have inv: "mset view' = mset view \<and> fwd_inv ex view' tail tail"
    by (rule forwarding_candidates_inv [OF assms]) (simp add: fwd_inv_def)
  then show m: "mset view' = mset view" and t: "tail \<le> length view'"
    by (simp_all add: fwd_inv_def)
  have "set (take tail view') = {view' ! k | k. k < tail}"
    using t by (auto simp: nth_image [symmetric] image_def)
  also have "\<dots> = set view' - set ex"
  proof
    show "{view' ! k | k. k < tail} \<subseteq> set view' - set ex" using inv by (auto simp: fwd_inv_def)
    show "set view' - set ex \<subseteq> {view' ! k | k. k < tail}"
    proof
      fix x assume x: "x \<in> set view' - set ex"
      then obtain k where "k < length view'" "x = view' ! k" by (auto simp: in_set_conv_nth)
      with x inv show "x \<in> {view' ! k | k. k < tail}"
        by (auto simp: fwd_inv_def) (metis not_less)
    qed
  qed
  also have "set view' = set view" using m by (rule mset_eq_setD)
  finally show "set (take tail view') = set view - set ex" .
qed

lemma select_forwarding_destination_spec:
  assumes "rng_ok R" and "select_forwarding_destination R ex n = Some (sel, n')"
  shows "hv_ok n n'" and "set (active_view n') = set (active_view n)"
    and "case sel of None \<Rightarrow> set (active_view n) \<subseteq> set ex
         | Some p \<Rightarrow> p \<in> set (active_view n) - set ex"
proof -
  obtain v t where vt: "forwarding_candidates ex (active_view n) 0 (length (active_view n)) = (v, t)"
    by fastforce
  note spec = forwarding_candidates_spec [OF vt]
  have vs: "set v = set (active_view n)" "length v = length (active_view n)"
    using spec(1) by (metis set_mset_mset, metis size_mset)
  from assms(2) have n': "\<exists>r. n' = n\<lparr>active_view := v, hv_rng := r\<rparr> \<or> n' = n\<lparr>active_view := v\<rparr>"
    by (auto simp: select_forwarding_destination_def vt Let_def bind_eq_Some_conv split: if_splits)
  then show "set (active_view n') = set (active_view n)" using vs(1) by (elim exE disjE) simp_all
  from n' show "hv_ok n n'" by (elim exE disjE) (simp_all add: vs hv_ok_quiet)
  show "case sel of None \<Rightarrow> set (active_view n) \<subseteq> set ex
         | Some p \<Rightarrow> p \<in> set (active_view n) - set ex"
  proof (cases "t = 0")
    case True
    with assms(2) spec(3) show ?thesis
      by (auto simp: select_forwarding_destination_def vt Let_def split: if_splits)
  next
    case False
    with assms(2) obtain i r where i: "gen_range R (hv_rng n) t = Some (i, r)"
      and sel: "sel = Some (v ! i)" "i < length v"
      by (auto simp: select_forwarding_destination_def vt Let_def bind_eq_Some_conv vec_get_def
          split: if_splits)
    have "i < t" using gen_range_in_range [OF assms(1) i] .
    then have "v ! i \<in> set (take t v)" using sel(2) by (auto simp: in_set_conv_nth)
    with spec(3) sel(1) show ?thesis by simp
  qed
qed

lemma select_random_spec:
  assumes "select_random_from_active_view R n = Some (sel, n')"
  shows "hv_ok n n'" and "sel = None \<longleftrightarrow> active_view n = []"
    and "sel = Some p \<Longrightarrow> p \<in> set (active_view n)" and "\<exists>r. n' = n\<lparr>hv_rng := r\<rparr>"
  using assms unfolding select_random_from_active_view_def vec_get_def
  by (auto split: if_splits simp: bind_eq_Some_conv intro: exI [of _ "hv_rng n"])

lemma select_random_passive_spec:
  assumes "select_random_from_passive_view R n = Some (sel, n')"
  shows "hv_ok n n'" and "sel = None \<longleftrightarrow> passive_view n = []"
    and "sel = Some p \<Longrightarrow> p \<in> set (passive_view n)" and "\<exists>r. n' = n\<lparr>hv_rng := r\<rparr>"
  using assms unfolding select_random_from_passive_view_def vec_get_def
  by (auto split: if_splits simp: bind_eq_Some_conv intro: exI [of _ "hv_rng n"])

section \<open>The operations keep the contract\<close>

lemma add_shuffled_ok: "add_shuffled_nodes_to_passive_view R ps n = Some n' \<Longrightarrow> hv_ok n n'"
  by (induction ps arbitrary: n)
    (auto simp: bind_eq_Some_conv intro: hv_ok_trans dest: add_to_passive_view_ok)

lemma disconnect_unless_ok: "hv_ok n (disconnect_unless_active_view_node p n)"
  unfolding disconnect_unless_active_view_node_def
  by (auto intro: hv_ok_trans [OF hv_ok_send_to hv_ok_push_disconnect])

lemma fill_active_view_ok: "fill_active_view R n = Some n' \<Longrightarrow> hv_ok n n'"
  unfolding fill_active_view_def
  by (auto split: if_splits option.splits simp: bind_eq_Some_conv Let_def
      intro!: hv_ok_then_send dest: select_random_passive_spec(1))

lemma sync_active_view_ok: "hv_ok n (sync_active_view n)"
  unfolding sync_active_view_def by (rule hv_ok_fold_send_to) simp

lemma hv_join_ok: "hv_ok n (hv_join c n)"
  by (simp add: hv_join_def hv_ok_send_to)

lemma hv_ok_shuffled:
  assumes "rng_ok R" "rng_shuffle R a (passive_view n) = (pv, b)" "rng_shuffle R c (active_view n) = (av, d)"
  shows "hv_ok n (n\<lparr>passive_view := pv, active_view := av, hv_rng := r\<rparr>)"
    and "hv_ok n (n\<lparr>passive_view := pv, hv_rng := r\<rparr>)"
  using rng_shuffle_facts [OF assms(1,2)] rng_shuffle_facts [OF assms(1,3)]
  by (auto intro!: hv_ok_quiet)

lemma shuffle_passive_view_ok:
  assumes "rng_ok R" and "shuffle_passive_view R n = Some n'"
  shows "hv_ok n n'"
proof -
  from assms(2) obtain sel m where m: "select_random_from_active_view R n = Some (sel, m)"
    by (auto simp: shuffle_passive_view_def bind_eq_Some_conv)
  then have nm: "hv_ok n m" by (rule select_random_spec)
  obtain pv r where pv: "rng_shuffle R (hv_rng m) (passive_view m) = (pv, r)" by fastforce
  obtain av r' where av: "rng_shuffle R r (active_view m) = (av, r')" by fastforce
  have "hv_ok m n'"
    using assms(2) hv_ok_shuffled(1) [OF assms(1) pv av, of r']
    by (auto simp: shuffle_passive_view_def m pv av Let_def split: option.splits
        intro!: hv_ok_then_send)
  with nm show ?thesis by (rule hv_ok_trans)
qed

lemma handle_join_ok: "handle_join R m n = Some n' \<Longrightarrow> hv_ok n n'"
  unfolding handle_join_def
  by (auto simp: bind_eq_Some_conv Let_def
      intro!: hv_ok_trans [OF _ hv_ok_fold_send_to] dest: add_to_active_view_ok)

lemma handle_forward_join_ok:
  assumes "rng_ok R" and "handle_forward_join R m n = Some n'"
  shows "hv_ok n n'"
proof (cases "is_expired (fj_ttl m) \<or> active_view n = []")
  case True
  with assms(2) show ?thesis by (simp add: handle_forward_join_def add_to_active_view_ok)
next
  case False
  with assms(2) obtain a sel b where
    a: "(if as_u8 (fj_ttl m) = passive_random_walk_len (hv_options n)
         then add_to_passive_view R (fj_new_node m) n else Some n) = Some a"
    and sel: "select_forwarding_destination R [fj_sender m] a = Some (sel, b)"
    and rest: "(case sel of Some next \<Rightarrow>
        Some (send_to next (mk_forward_join (hv_id b) (fj_new_node m) (decrement (fj_ttl m))) b)
      | None \<Rightarrow> add_to_active_view R (fj_new_node m) True b) = Some n'"
    by (auto simp: handle_forward_join_def bind_eq_Some_conv)
  have "hv_ok n a" using a by (auto split: if_splits dest: add_to_passive_view_ok)
  also have "hv_ok a b" by (rule select_forwarding_destination_spec(1) [OF assms(1) sel])
  also have "hv_ok b n'"
    using rest by (auto split: option.splits intro: hv_ok_send_to add_to_active_view_ok)
  finally show ?thesis .
qed

lemma handle_neighbor_ok: "handle_neighbor R m n = Some n' \<Longrightarrow> hv_ok n n'"
  unfolding handle_neighbor_def by (auto split: if_splits dest: add_to_active_view_ok)

lemma handle_shuffle_ok:
  assumes "rng_ok R" and "handle_shuffle R m n = Some n'"
  shows "hv_ok n n'"
proof (cases "is_expired (sh_ttl m)")
  case True
  obtain pv r where pv: "rng_shuffle R (hv_rng n) (passive_view n) = (pv, r)" by fastforce
  obtain av r' where av: "rng_shuffle R r (active_view n) = (av, r')" by fastforce
  let ?n1 = "n\<lparr>passive_view := pv, hv_rng := r\<rparr>"
  have "hv_ok n ?n1" by (rule hv_ok_shuffled(2) [OF assms(1) pv av])
  also have "hv_ok ?n1 (send_to (sh_origin m) (mk_shuffle_reply (hv_id n) (take (length (sh_nodes m)) pv)) ?n1)"
    by (rule hv_ok_send_to) simp
  also have "hv_ok \<dots> n'"
    using assms(2) True by (simp add: handle_shuffle_def pv Let_def add_shuffled_ok)
  finally show ?thesis .
next
  case False
  with assms(2) show ?thesis
    by (auto simp: handle_shuffle_def bind_eq_Some_conv split: option.splits
        intro!: hv_ok_then_send dest!: select_forwarding_destination_spec(1) [OF assms(1)])
qed

lemma handle_disconnect_cases:
  assumes "handle_disconnect R m n = Some n'"
  obtains rem a b where "remove_from_active_view R m n = Some (rem, a)"
    and "rem \<Longrightarrow> \<exists>c. remove_from_passive_view (dc_sender m) a = Some c \<and> fill_active_view R c = Some b"
    and "\<not> rem \<Longrightarrow> b = a"
    and "(if dc_alive m then add_to_passive_view R (dc_sender m) b else Some b) = Some n'"
  using assms unfolding handle_disconnect_def
  by (auto simp: bind_eq_Some_conv split: if_splits)

lemma handle_disconnect_ok:
  assumes "handle_disconnect R m n = Some n'"
  shows "hv_ok n n'"
  using assms
proof (cases rule: handle_disconnect_cases)
  case (1 rem a b)
  have "hv_ok n a" using 1(1) by (rule remove_from_active_view_ok)
  also have "hv_ok a b"
    using 1(2,3) by (cases rem) (auto intro: hv_ok_trans dest: remove_from_passive_view_ok fill_active_view_ok)
  also have "hv_ok b n'" using 1(4) by (auto split: if_splits dest: add_to_passive_view_ok)
  finally show ?thesis .
qed

lemma hv_handle_protocol_message_ok:
  assumes "rng_ok R" and "hv_handle_protocol_message R m n = Some n'"
  shows "hv_ok n n'"
  using assms unfolding hv_handle_protocol_message_def handle_shuffle_reply_def
  by (auto split: hv_message.splits simp: Let_def
      intro!: hv_ok_trans [OF _ disconnect_unless_ok]
      dest: handle_join_ok handle_forward_join_ok handle_neighbor_ok handle_shuffle_ok
        add_shuffled_ok handle_disconnect_ok)

end
