(* ===== verification/HyParView_Total.thy ===== *)
theory HyParView_Total
  imports HyParView_Inv
begin

text \<open>
  The operations of the HyParView node do not panic when both view sizes are positive.
\<close>

section \<open>No operation panics\<close>

definition hv_sized :: "('n, 'r) hv_node \<Rightarrow> bool" where
  "hv_sized n \<longleftrightarrow> 0 < max_active n \<and> 0 < max_passive n"

lemma hv_ok_sized: "hv_ok n n' \<Longrightarrow> hv_wf n \<Longrightarrow> hv_sized n' \<longleftrightarrow> hv_sized n"
  by (auto simp: hv_sized_def hv_ok_def hv_ext_def)

lemma gen_range_pick:
  assumes "rng_ok R" and "0 < k"
  obtains i r where "gen_range R s k = Some (i, r)" and "i < k"
proof -
  obtain i r where g: "gen_range R s k = Some (i, r)"
    using gen_range_total [THEN iffD2, OF assms(2), of R s] by (elim exE)
  with gen_range_in_range [OF assms(1) g] show thesis using that by blast
qed

lemma remove_random_passive_total:
  assumes "rng_ok R" and "0 < max_passive n"
  shows "\<exists>n'. remove_random_from_passive_view_if_full R n = Some n'"
proof (cases "is_passive_view_full n")
  case True
  with assms(2) have "0 < length (passive_view n)" unfolding is_passive_view_full_def by linarith
  then obtain i r where "gen_range R (hv_rng n) (length (passive_view n)) = Some (i, r)"
    and "i < length (passive_view n)" by (rule gen_range_pick [OF assms(1)])
  with True show ?thesis
    by (auto simp: remove_random_from_passive_view_if_full_def swap_remove_def)
qed (simp add: remove_random_from_passive_view_if_full_def)

lemma add_to_passive_view_total:
  assumes "rng_ok R" and "0 < max_passive n"
  shows "\<exists>n'. add_to_passive_view R p n = Some n'"
  using remove_random_passive_total [OF assms]
  by (auto simp: add_to_passive_view_def)

lemma add_shuffled_total:
  assumes "rng_ok R" and "0 < max_passive n"
  shows "\<exists>n'. add_shuffled_nodes_to_passive_view R ps n = Some n'"
  using assms(2)
proof (induction ps arbitrary: n)
  case (Cons p ps)
  from add_to_passive_view_total [OF assms(1) Cons.prems] obtain m
    where m: "add_to_passive_view R p n = Some m" by blast
  with Cons.prems have "0 < max_passive m" by (simp add: add_to_passive_view_frame)
  with Cons.IH m show ?case by simp
qed simp

lemma remove_from_passive_view_total: "\<exists>n'. remove_from_passive_view p n = Some n'"
  by (auto simp: remove_from_passive_view_def swap_remove_def split: option.splits
      dest: position_SomeD)

lemma remove_by_index_total:
  assumes "rng_ok R" and "0 < max_passive n" and "i < length (active_view n)"
  shows "\<exists>n'. remove_from_active_view_by_index R i alive n = Some n'"
proof -
  obtain p av where sr: "swap_remove i (active_view n) = Some (p, av)"
    using swap_remove_total [THEN iffD2, OF assms(3)] by (elim exE)
  have "max_passive (n\<lparr>active_view := av\<rparr>) = max_passive n" by simp
  then show ?thesis
    using assms(2) by (auto simp: remove_from_active_view_by_index_def sr Let_def
        intro!: add_to_passive_view_total [OF assms(1)])
qed

lemma remove_from_active_view_total:
  assumes "rng_ok R" and "0 < max_passive n"
  shows "\<exists>b n'. remove_from_active_view R m n = Some (b, n')"
proof (cases "position (\<lambda>p. p = dc_sender m) (active_view n)")
  case (Some i)
  then have "i < length (active_view n)" by (auto dest: position_SomeD)
  from remove_by_index_total [OF assms this, of "dc_alive m"] Some show ?thesis
    by (auto simp: remove_from_active_view_def)
qed (auto simp: remove_from_active_view_def)

lemma remove_random_active_total:
  assumes "rng_ok R" and "hv_sized n"
  shows "\<exists>n'. remove_random_from_active_view_if_full R n = Some n'"
proof (cases "is_active_view_full n")
  case True
  with assms(2) have "0 < length (active_view n)"
    unfolding is_active_view_full_def hv_sized_def by linarith
  then obtain i r where g: "gen_range R (hv_rng n) (length (active_view n)) = Some (i, r)"
    and i: "i < length (active_view n)" by (rule gen_range_pick [OF assms(1)])
  have "\<exists>n'. remove_from_active_view_by_index R i True (n\<lparr>hv_rng := r\<rparr>) = Some n'"
    using assms i by (intro remove_by_index_total) (auto simp: hv_sized_def)
  with True g show ?thesis by (simp add: remove_random_from_active_view_if_full_def)
qed (simp add: remove_random_from_active_view_if_full_def)

lemma add_to_active_view_total:
  assumes "rng_ok R" and "hv_sized n"
  shows "\<exists>n'. add_to_active_view R p hp n = Some n'"
proof (cases "p \<in> set (active_view n) \<or> p = hv_id n")
  case False
  from remove_random_active_total [OF assms] obtain a
    where a: "remove_random_from_active_view_if_full R n = Some a" by blast
  obtain b where b: "remove_from_passive_view p a = Some b"
    using remove_from_passive_view_total [of p a] by blast
  from False a b show ?thesis by (simp add: add_to_active_view_def Let_def)
qed (simp add: add_to_active_view_def)

lemma select_forwarding_total:
  assumes "rng_ok R"
  shows "\<exists>sel n'. select_forwarding_destination R ex n = Some (sel, n')"
proof -
  obtain v t where vt: "forwarding_candidates ex (active_view n) 0 (length (active_view n)) = (v, t)"
    by fastforce
  show ?thesis
  proof (cases "t = 0")
    case False
    then obtain i r where g: "gen_range R (hv_rng n) t = Some (i, r)" and "i < t"
      using gen_range_pick [OF assms] by blast
    with forwarding_candidates_spec(2) [OF vt] have "i < length v" by simp
    with g False show ?thesis
      by (simp add: select_forwarding_destination_def vt Let_def vec_get_def)
  qed (simp add: select_forwarding_destination_def vt Let_def)
qed

lemma select_random_active_total:
  assumes "rng_ok R"
  shows "\<exists>sel n'. select_random_from_active_view R n = Some (sel, n')"
proof (cases "active_view n = []")
  case False
  then obtain i r where "gen_range R (hv_rng n) (length (active_view n)) = Some (i, r)"
    and "i < length (active_view n)" using gen_range_pick [OF assms] by blast
  with False show ?thesis by (simp add: select_random_from_active_view_def vec_get_def)
qed (simp add: select_random_from_active_view_def)

lemma select_random_passive_total:
  assumes "rng_ok R"
  shows "\<exists>sel n'. select_random_from_passive_view R n = Some (sel, n')"
proof (cases "passive_view n = []")
  case False
  then obtain i r where "gen_range R (hv_rng n) (length (passive_view n)) = Some (i, r)"
    and "i < length (passive_view n)" using gen_range_pick [OF assms] by blast
  with False show ?thesis by (simp add: select_random_from_passive_view_def vec_get_def)
qed (simp add: select_random_from_passive_view_def)

lemma fill_active_view_total:
  assumes "rng_ok R"
  shows "\<exists>n'. fill_active_view R n = Some n'"
  using select_random_passive_total [OF assms, of n]
  by (auto simp: fill_active_view_def Let_def split: option.splits)

lemma shuffle_passive_view_total:
  assumes "rng_ok R"
  shows "\<exists>n'. shuffle_passive_view R n = Some n'"
  using select_random_active_total [OF assms, of n]
  by (auto simp: shuffle_passive_view_def Let_def split: option.splits prod.splits)

lemma handle_join_total:
  assumes "rng_ok R" and "hv_sized n"
  shows "\<exists>n'. handle_join R m n = Some n'"
  using add_to_active_view_total [OF assms, of "join_sender m" True]
  by (auto simp: handle_join_def Let_def)

lemma handle_neighbor_total:
  assumes "rng_ok R" and "hv_sized n"
  shows "\<exists>n'. handle_neighbor R m n = Some n'"
  using add_to_active_view_total [OF assms, of "nb_sender m" False]
  by (auto simp: handle_neighbor_def)

lemma handle_forward_join_total:
  assumes "rng_ok R" and "hv_wf n" and "hv_sized n"
  shows "\<exists>n'. handle_forward_join R m n = Some n'"
proof (cases "is_expired (fj_ttl m) \<or> active_view n = []")
  case True
  then show ?thesis
    using add_to_active_view_total [OF assms(1,3)] by (simp add: handle_forward_join_def)
next
  case False
  have pos: "0 < max_passive n" using assms(3) by (simp add: hv_sized_def)
  obtain a where a: "(if as_u8 (fj_ttl m) = passive_random_walk_len (hv_options n)
      then add_to_passive_view R (fj_new_node m) n else Some n) = Some a"
    using add_to_passive_view_total [OF assms(1) pos, of "fj_new_node m"]
    by (cases "as_u8 (fj_ttl m) = passive_random_walk_len (hv_options n)") auto
  then have na: "hv_ok n a" by (auto split: if_splits dest: add_to_passive_view_ok)
  obtain sel b where b: "select_forwarding_destination R [fj_sender m] a = Some (sel, b)"
    using select_forwarding_total [OF assms(1)] by blast
  have "hv_ok n b"
    using hv_ok_trans [OF na select_forwarding_destination_spec(1) [OF assms(1) b]] .
  then have "hv_sized b" using assms(2,3) by (simp add: hv_ok_sized)
  then have "\<exists>n'. add_to_active_view R (fj_new_node m) True b = Some n'"
    by (rule add_to_active_view_total [OF assms(1)])
  with False a b show ?thesis
    by (auto simp: handle_forward_join_def split: option.splits)
qed

lemma handle_shuffle_total:
  assumes "rng_ok R" and "hv_sized n"
  shows "\<exists>n'. handle_shuffle R m n = Some n'"
proof (cases "is_expired (sh_ttl m)")
  case True
  with assms(2) show ?thesis
    by (auto simp: handle_shuffle_def Let_def hv_sized_def split: prod.splits
        intro!: add_shuffled_total [OF assms(1)])
next
  case False
  with select_forwarding_total [OF assms(1), of "[sh_origin m, sh_sender m]" n] show ?thesis
    by (auto simp: handle_shuffle_def split: option.splits)
qed

lemma handle_disconnect_total:
  assumes "rng_ok R" and "hv_wf n" and "hv_sized n"
  shows "\<exists>n'. handle_disconnect R m n = Some n'"
proof -
  have pos: "0 < max_passive n" using assms(3) by (simp add: hv_sized_def)
  obtain rem a where a: "remove_from_active_view R m n = Some (rem, a)"
    using remove_from_active_view_total [OF assms(1) pos] by blast
  obtain c where c: "remove_from_passive_view (dc_sender m) a = Some c"
    using remove_from_passive_view_total [of "dc_sender m" a] by blast
  obtain d where d: "fill_active_view R c = Some d"
    using fill_active_view_total [OF assms(1)] by blast
  define b where "b = (if rem then d else a)"
  have "hv_ok n a" by (rule remove_from_active_view_ok [OF a])
  moreover have "hv_ok a b"
    using c d by (auto simp: b_def intro: hv_ok_trans dest: remove_from_passive_view_ok fill_active_view_ok)
  ultimately have "hv_ok n b" by (rule hv_ok_trans)
  then have "0 < max_passive b" using assms(2) pos by (simp add: hv_ok_frame)
  then have "\<exists>n'. add_to_passive_view R (dc_sender m) b = Some n'"
    by (rule add_to_passive_view_total [OF assms(1)])
  with a c d show ?thesis by (auto simp: handle_disconnect_def b_def split: if_splits)
qed

lemma hv_handle_protocol_message_total:
  assumes "rng_ok R" and "hv_wf n" and "hv_sized n"
  shows "\<exists>n'. hv_handle_protocol_message R m n = Some n'"
proof (cases m)
  case (ShuffleReply sr)
  with assms(3) add_shuffled_total [OF assms(1), of n "sr_nodes sr"] show ?thesis
    by (auto simp: hv_handle_protocol_message_def handle_shuffle_reply_def hv_sized_def)
qed (use assms in \<open>auto simp: hv_handle_protocol_message_def
    dest: handle_join_total handle_forward_join_total handle_neighbor_total handle_shuffle_total
      handle_disconnect_total\<close>)

end
