(* ===== verification/HyParView_Props.thy ===== *)
theory HyParView_Props
  imports HyParView_Total
begin

text \<open>
  The HyParView node as a state machine: the interface of an operation that keeps the contract,
  and of one that in addition always returns, as locales interpreted for every operation of the
  node; its inputs, its reachable states together with the actions polled so far, and the
  properties the upper layer relies on.
\<close>

section \<open>Operations as the upper layer sees them\<close>

text \<open>An operation that keeps the contract, and what follows for any such operation.\<close>

locale view_operation =
  fixes op :: "('n, 'r) rng_ops \<Rightarrow> 'x \<Rightarrow> ('n, 'r) hv_node \<Rightarrow> ('n, 'r) hv_node option"
  assumes keeps: "rng_ok R \<Longrightarrow> op R x n = Some n' \<Longrightarrow> hv_ok n n'"
begin

lemma keeps_wf: "rng_ok R \<Longrightarrow> op R x n = Some n' \<Longrightarrow> hv_wf n \<Longrightarrow> hv_wf n'"
  using keeps by (auto simp: hv_ok_def)

lemma keeps_bounds:
  "rng_ok R \<Longrightarrow> op R x n = Some n' \<Longrightarrow> hv_wf n \<Longrightarrow> hv_bounded n \<Longrightarrow> hv_bounded n'"
  using keeps hv_ok_bounded by blast

lemma keeps_sized:
  "rng_ok R \<Longrightarrow> op R x n = Some n' \<Longrightarrow> hv_wf n \<Longrightarrow> hv_sized n \<Longrightarrow> hv_sized n'"
  using keeps hv_ok_sized by blast

lemma keeps_id: "rng_ok R \<Longrightarrow> op R x n = Some n' \<Longrightarrow> hv_wf n \<Longrightarrow> hv_id n' = hv_id n"
  using keeps hv_ok_frame by blast

lemma keeps_replay:
  assumes "rng_ok R" "op R x n = Some n'" "hv_wf n"
    and "replay S (pre @ hv_actions n) = Some (set (active_view n))"
  shows "replay S (pre @ hv_actions n') = Some (set (active_view n'))"
proof -
  from keeps [OF assms(1,2)] assms(3) obtain new where "hv_actions n' = hv_actions n @ new"
    and "replay (set (active_view n)) new = Some (set (active_view n'))"
    by (auto simp: hv_ok_def hv_ext_def)
  with assms(4) show ?thesis by (simp add: replay_append flip: append_assoc)
qed

end

text \<open>An operation that in addition returns on every well-formed node.\<close>

locale safe_view_operation = view_operation +
  assumes returns: "rng_ok R \<Longrightarrow> hv_wf n \<Longrightarrow> hv_sized n \<Longrightarrow> \<exists>n'. op R x n = Some n'"
begin

lemma run_returns:
  "rng_ok R \<Longrightarrow> hv_wf n \<Longrightarrow> hv_sized n \<Longrightarrow>
     \<exists>n'. fold (\<lambda>x acc. Option.bind acc (op R x)) xs (Some n) = Some n' \<and> hv_wf n' \<and> hv_sized n'"
proof (induction xs arbitrary: n)
  case (Cons x xs)
  then obtain m where m: "op R x n = Some m" using returns by blast
  with Cons.prems have "hv_wf m" "hv_sized m" using keeps_wf keeps_sized by blast+
  with Cons.IH Cons.prems(1) m show ?case by simp
qed simp

end

interpretation message: safe_view_operation hv_handle_protocol_message
  by unfold_locales (fact hv_handle_protocol_message_ok hv_handle_protocol_message_total)+

interpretation disconnecting: safe_view_operation "\<lambda>R (p, alive). hv_disconnect R p alive"
  by unfold_locales
    (auto simp: hv_disconnect_def dest: message.keeps intro: message.returns)

interpretation joining: safe_view_operation "\<lambda>R c n. Some (hv_join c n)"
  by unfold_locales (auto simp: hv_join_ok)

interpretation shuffling: safe_view_operation "\<lambda>R (_ :: unit). shuffle_passive_view R"
  by unfold_locales (auto simp: shuffle_passive_view_ok shuffle_passive_view_total)

interpretation filling: safe_view_operation "\<lambda>R (_ :: unit). fill_active_view R"
  by unfold_locales (auto simp: fill_active_view_ok fill_active_view_total)

interpretation syncing: safe_view_operation "\<lambda>R (_ :: unit) n. Some (sync_active_view n)"
  by unfold_locales (auto simp: sync_active_view_ok)

section \<open>Reachable nodes\<close>

datatype 'n hv_input =
    InMessage "'n hv_message"
  | InJoin 'n
  | InDisconnect 'n bool
  | InShuffle
  | InFill
  | InSync

fun hv_apply :: "('n, 'r) rng_ops \<Rightarrow> 'n hv_input \<Rightarrow> ('n, 'r) hv_node \<Rightarrow> ('n, 'r) hv_node option" where
  "hv_apply R (InMessage m) n = hv_handle_protocol_message R m n"
| "hv_apply R (InJoin c) n = Some (hv_join c n)"
| "hv_apply R (InDisconnect p alive) n = hv_disconnect R p alive n"
| "hv_apply R InShuffle n = shuffle_passive_view R n"
| "hv_apply R InFill n = fill_active_view R n"
| "hv_apply R InSync n = Some (sync_active_view n)"

interpretation input: safe_view_operation hv_apply
proof
  fix R :: "('n, 'r) rng_ops" and x and n n' :: "('n, 'r) hv_node"
  assume R: "rng_ok R"
  show "hv_apply R x n = Some n' \<Longrightarrow> hv_ok n n'"
    using message.keeps [OF R] disconnecting.keeps [OF R, of "(p, a)" for p a]
      joining.keeps [OF R] shuffling.keeps [OF R] filling.keeps [OF R] syncing.keeps [OF R]
    by (cases x) auto
  show "hv_wf n \<Longrightarrow> hv_sized n \<Longrightarrow> \<exists>n'. hv_apply R x n = Some n'"
    using message.returns [OF R] disconnecting.returns [OF R, of _ "(p, a)" for p a]
      joining.returns [OF R] shuffling.returns [OF R] filling.returns [OF R] syncing.returns [OF R]
    by (cases x) auto
qed

text \<open>
  \<open>hv_reach R out n\<close>: from a new node, some sequence of inputs and polls leads to \<open>n\<close>, and
  \<open>out\<close> is the sequence of actions polled on the way.
\<close>

inductive hv_reach :: "('n, 'r) rng_ops \<Rightarrow> 'n hv_action list \<Rightarrow> ('n, 'r) hv_node \<Rightarrow> bool"
  for R :: "('n, 'r) rng_ops" where
  start: "hv_reach R [] (hv_with_options me rng options)"
| input: "hv_reach R out n \<Longrightarrow> hv_apply R i n = Some n' \<Longrightarrow> hv_reach R out n'"
| poll: "hv_reach R out n \<Longrightarrow> hv_poll_action n = (Some a, n') \<Longrightarrow> hv_reach R (out @ [a]) n'"

lemma hv_poll_action_SomeD:
  "hv_poll_action n = (Some a, n') \<Longrightarrow>
     hv_actions n = a # hv_actions n' \<and> n' = n\<lparr>hv_actions := hv_actions n'\<rparr>"
  by (auto simp: hv_poll_action_def split: list.splits)

lemma hv_reach_inv:
  assumes "rng_ok R" and "hv_reach R out n"
  shows "hv_wf n \<and> hv_bounded n \<and> replay {} (out @ hv_actions n) = Some (set (active_view n))"
  using assms(2)
proof (induction rule: hv_reach.induct)
  case (start me rng options)
  show ?case by (simp add: hv_with_options_def hv_wf_def hv_bounded_def)
next
  case (input out n i n')
  then show ?case
    using input.keeps_wf input.keeps_bounds input.keeps_replay assms(1) by blast
next
  case (poll out n a n')
  then have n: "hv_actions n = a # hv_actions n'" and n': "n' = n\<lparr>hv_actions := hv_actions n'\<rparr>"
    by (auto dest: hv_poll_action_SomeD)
  have "hv_wf n' = hv_wf n" "hv_bounded n' = hv_bounded n" "active_view n' = active_view n"
    by (subst n', simp add: hv_wf_def hv_bounded_def)+
  with poll.IH n show ?case by simp
qed

section \<open>A concrete run\<close>

text \<open>Runs of inputs, and a small node for concrete instances: one active node at most.\<close>

fun hv_run :: "('n, 'r) rng_ops \<Rightarrow> 'n hv_input list \<Rightarrow> ('n, 'r) hv_node \<Rightarrow> ('n, 'r) hv_node option" where
  "hv_run R [] n = Some n"
| "hv_run R (i # is) n = Option.bind (hv_apply R i n) (hv_run R is)"

lemma hv_reach_run: "hv_reach R out n \<Longrightarrow> hv_run R is n = Some n' \<Longrightarrow> hv_reach R out n'"
  by (induction "is" arbitrary: n) (auto simp: bind_eq_Some_conv intro: hv_reach.input)

lemma hv_reach_polls:
  "hv_reach R out n \<Longrightarrow> hv_actions n = as @ bs \<Longrightarrow> hv_reach R (out @ as) (n\<lparr>hv_actions := bs\<rparr>)"
proof (induction as arbitrary: out n)
  case (Cons a as)
  then have "hv_reach R (out @ [a]) (n\<lparr>hv_actions := as @ bs\<rparr>)"
    by (auto intro!: hv_reach.poll simp: hv_poll_action_def)
  from Cons.IH [OF this] show ?case by simp
qed auto

definition example_node :: "(nat, nat) hv_node" where
  "example_node = hv_with_options 0 0 (default_node_options\<lparr>max_active_view_size := 1\<rparr>)"

lemma example_node_reach: "hv_reach R [] example_node"
  unfolding example_node_def by (rule hv_reach.start)

lemmas hv_evaluate =
  example_node_def hv_with_options_def default_node_options_def counting_rng_def
  hv_handle_protocol_message_def handle_join_def add_to_active_view_def
  remove_random_from_active_view_if_full_def is_active_view_full_def gen_range_def
  remove_from_active_view_by_index_def swap_remove_def add_to_passive_view_def
  remove_random_from_passive_view_if_full_def is_passive_view_full_def
  remove_from_passive_view_def send_to_def send_def push_action_def notify_up_def
  notify_down_def mk_message_defs disconnect_unless_active_view_node_def hv_poll_action_def
  handle_disconnect_def remove_from_active_view_def fill_active_view_def
  select_random_from_passive_view_def vec_get_def hv_disconnect_def Let_def

text \<open>Nodes 1 and 2 join in turn: the second evicts the first from the active view.\<close>

definition two_joined :: "(nat, nat) hv_node" where
  "two_joined = the (hv_run counting_rng [InMessage (mk_join 1), InMessage (mk_join 2)] example_node)"

lemma two_joined_run:
  "hv_run counting_rng [InMessage (mk_join 1), InMessage (mk_join 2)] example_node = Some two_joined"
  by (simp add: two_joined_def hv_evaluate)

lemma two_joined_eq:
  "two_joined = example_node\<lparr>active_view := [2], passive_view := [1], hv_rng := 1,
     hv_actions := [HvSend 1 (mk_neighbor 0 True), notify_up 1,
       HvSend 1 (mk_disconnect 0 True), HvDisconnect 1, notify_down 1,
       HvSend 2 (mk_neighbor 0 True), notify_up 2]\<rparr>"
  by (simp add: two_joined_def hv_evaluate)

lemma two_joined_reach: "hv_reach counting_rng [] two_joined"
  by (rule hv_reach_run [OF example_node_reach two_joined_run])

section \<open>Properties of reachable nodes\<close>

text \<open>
  C8. In every reachable HyParView node the two views hold no node twice, share no node, never
  hold the node itself, and are never longer than the configured sizes.
\<close>

theorem hv_views_invariant:
  assumes "rng_ok R" and "hv_reach R out n"
  shows "distinct (active_view n) \<and> distinct (passive_view n) \<and>
    set (active_view n) \<inter> set (passive_view n) = {} \<and>
    hv_id n \<notin> set (active_view n) \<union> set (passive_view n) \<and>
    length (active_view n) \<le> unat (max_active_view_size (hv_options n)) \<and>
    length (passive_view n) \<le> unat (max_passive_view_size (hv_options n))"
  using hv_reach_inv [OF assms] by (simp add: hv_wf_def hv_bounded_def)

theorem hv_views_invariant_witness:
  "active_view two_joined = [2] \<and> passive_view two_joined = [1] \<and> distinct (active_view two_joined) \<and>
   length (active_view two_joined) \<le> unat (max_active_view_size (hv_options two_joined))"
  using hv_views_invariant [OF counting_rng_ok two_joined_reach]
  by (simp add: two_joined_eq)

text \<open>
  C9. The notifications of a HyParView node are an exact log of its active view: replaying, from
  the empty set, the actions polled so far followed by those still queued never meets an up event
  for a known neighbor or a down event for an unknown one, and ends in the active view.
\<close>

theorem hv_notifications_replay_active_view:
  assumes "rng_ok R" and "hv_reach R out n"
  shows "replay {} (out @ hv_actions n) = Some (set (active_view n))"
  using hv_reach_inv [OF assms] by simp

theorem hv_notifications_replay_active_view_witness:
  "let out = [HvSend 1 (mk_neighbor 0 True), notify_up 1];
       n = two_joined\<lparr>hv_actions := drop 2 (hv_actions two_joined)\<rparr>
   in replay {} (out @ hv_actions n) = Some {2} \<and> active_view n = [2]"
proof -
  have "hv_reach counting_rng ([] @ [HvSend 1 (mk_neighbor 0 True), notify_up 1])
      (two_joined\<lparr>hv_actions := drop 2 (hv_actions two_joined)\<rparr>)"
    by (rule hv_reach_polls [OF two_joined_reach]) (simp add: two_joined_eq)
  from hv_notifications_replay_active_view [OF counting_rng_ok this] show ?thesis
    by (simp add: two_joined_eq)
qed

text \<open>
  C14. With positive view sizes no operation of a reachable node panics: every message, join,
  disconnect, shuffle, fill and synchronisation returns.
\<close>

theorem hv_operations_never_panic:
  assumes "rng_ok R" and "hv_reach R out n"
    and "max_active_view_size (hv_options n) \<noteq> 0" and "max_passive_view_size (hv_options n) \<noteq> 0"
  shows "\<exists>n'. hv_apply R i n = Some n'"
  using input.returns [OF assms(1)] hv_reach_inv [OF assms(1,2)] assms(3,4)
  by (simp add: hv_sized_def unat_gt_0)

theorem hv_operations_never_panic_witness:
  "\<exists>n'. hv_apply counting_rng (InMessage (mk_shuffle 7 8 [9, 10] (TimeToLive 3))) two_joined = Some n'"
  using hv_operations_never_panic [OF counting_rng_ok two_joined_reach,
      where i = "InMessage (mk_shuffle 7 8 [9, 10] (TimeToLive 3))"]
  by (simp add: two_joined_eq example_node_def hv_with_options_def default_node_options_def)

text \<open>
  A view size of zero makes the node panic: it draws the node to evict from an empty view.
\<close>

theorem zero_active_view_size_panics:
  assumes "max_active_view_size (hv_options n) = 0" and "active_view n = []"
    and "join_sender m \<noteq> hv_id n"
  shows "hv_handle_protocol_message R (Join m) n = None"
  using assms
  by (simp add: hv_handle_protocol_message_def handle_join_def add_to_active_view_def
      remove_random_from_active_view_if_full_def is_active_view_full_def gen_range_def Let_def)

theorem zero_active_view_size_panics_witness:
  "hv_handle_protocol_message counting_rng (mk_join 1)
     (hv_with_options (0::nat) (0::nat) (default_node_options\<lparr>max_active_view_size := 0\<rparr>)) = None"
  using zero_active_view_size_panics
    [of "hv_with_options (0::nat) (0::nat) (default_node_options\<lparr>max_active_view_size := 0\<rparr>)"
        "\<lparr>join_sender = 1\<rparr>" counting_rng]
  by (simp add: hv_with_options_def mk_join_def)

section \<open>What the handlers do\<close>

lemma add_to_active_view_mem:
  assumes "add_to_active_view R p hp n = Some n'" and "p \<noteq> hv_id n"
  shows "p \<in> set (active_view n')"
    and "p \<notin> set (active_view n) \<Longrightarrow>
      HvSend p (mk_neighbor (hv_id n') hp) \<in> set (hv_actions n') \<and> notify_up p \<in> set (hv_actions n')"
  using assms by (auto elim!: add_to_active_view_cases)

lemma add_to_active_view_evicts:
  assumes "add_to_active_view R p hp n = Some n'"
  shows "set (active_view n') \<subseteq> insert p (set (active_view n))"
  using assms
proof (cases rule: add_to_active_view_cases)
  case (added a b)
  with remove_random_active_room(2) [OF added(3)] remove_from_passive_view_frame(1) [OF added(4)]
  show ?thesis by auto
qed auto

lemma disconnect_unless_frame [simp]:
  "active_view (disconnect_unless_active_view_node p n) = active_view n"
  "passive_view (disconnect_unless_active_view_node p n) = passive_view n"
  "hv_id (disconnect_unless_active_view_node p n) = hv_id n"
  "hv_options (disconnect_unless_active_view_node p n) = hv_options n"
  by (simp_all add: disconnect_unless_active_view_node_def)

lemma disconnect_unless_noop:
  "p \<in> set (active_view n) \<Longrightarrow> disconnect_unless_active_view_node p n = n"
  by (simp add: disconnect_unless_active_view_node_def)

text \<open>
  A contact node that handles a JOIN takes the joining node into its active view, telling it
  with a high-priority NEIGHBOR message if it was not there, and forwards the request with the full
  time to live to every other node of its active view.
\<close>

theorem join_adds_and_forwards:
  assumes "join_sender m \<noteq> hv_id n" and "hv_handle_protocol_message R (Join m) n = Some n'"
  shows "join_sender m \<in> set (active_view n') \<and>
    set (active_view n') \<subseteq> insert (join_sender m) (set (active_view n)) \<and>
    (join_sender m \<notin> set (active_view n) \<longrightarrow>
       HvSend (join_sender m) (mk_neighbor (hv_id n') True) \<in> set (hv_actions n')) \<and>
    (\<forall>p \<in> set (active_view n'). p \<noteq> join_sender m \<longrightarrow>
       HvSend p (mk_forward_join (hv_id n') (join_sender m)
         (TimeToLive (active_random_walk_len (hv_options n')))) \<in> set (hv_actions n'))"
proof -
  let ?s = "join_sender m"
  from assms(2) obtain b where b: "add_to_active_view R ?s True n = Some b"
    and n': "n' = disconnect_unless_active_view_node ?s
      (fold (\<lambda>p. send_to p (mk_forward_join (hv_id b) ?s
         (TimeToLive (active_random_walk_len (hv_options b)))))
       (filter (\<lambda>p. p \<noteq> ?s) (active_view b)) b)"
    by (auto simp: hv_handle_protocol_message_def handle_join_def Let_def bind_eq_Some_conv)
  note mem = add_to_active_view_mem [OF b assms(1)]
  have "disconnect_unless_active_view_node ?s
      (fold (\<lambda>p. send_to p (mk_forward_join (hv_id b) ?s
         (TimeToLive (active_random_walk_len (hv_options b)))))
       (filter (\<lambda>p. p \<noteq> ?s) (active_view b)) b) =
      fold (\<lambda>p. send_to p (mk_forward_join (hv_id b) ?s
         (TimeToLive (active_random_walk_len (hv_options b)))))
       (filter (\<lambda>p. p \<noteq> ?s) (active_view b)) b"
    using mem(1) by (intro disconnect_unless_noop) simp
  then show ?thesis
    using mem add_to_active_view_evicts [OF b] unfolding n' by auto
qed

theorem join_adds_and_forwards_witness:
  "\<exists>n'. hv_handle_protocol_message counting_rng (Join \<lparr>join_sender = 3\<rparr>)
     (two_joined\<lparr>hv_options := default_node_options\<rparr>) = Some n' \<and>
     HvSend 2 (mk_forward_join 0 3 (TimeToLive 5)) \<in> set (hv_actions n')"
proof -
  let ?n = "two_joined\<lparr>hv_options := default_node_options\<rparr>"
  obtain n' where n': "hv_handle_protocol_message counting_rng (Join \<lparr>join_sender = 3\<rparr>) ?n = Some n'"
    and v: "active_view n' = [2, 3]" "hv_id n' = 0" "active_random_walk_len (hv_options n') = 5"
    by (simp add: two_joined_eq hv_evaluate)
  with join_adds_and_forwards [OF _ n'] show ?thesis by (simp add: two_joined_eq example_node_def
        hv_with_options_def)
qed

text \<open>
  The random walk of a FORWARD_JOIN: the receiver either takes the new node into its active view
  or passes the request on, unchanged but for a time to live that is one smaller, to one neighbor
  that is not the one it came from.
\<close>

theorem forward_join_walk:
  assumes "rng_ok R" and "hv_wf n" and "handle_forward_join R m n = Some n'"
    and "fj_new_node m \<noteq> hv_id n"
  shows "fj_new_node m \<in> set (active_view n') \<or>
    (\<exists>next \<in> set (active_view n) - {fj_sender m}.
       hv_actions n' = hv_actions n @
         [HvSend next (mk_forward_join (hv_id n) (fj_new_node m) (decrement (fj_ttl m)))] \<and>
       unat (as_u8 (decrement (fj_ttl m))) < unat (as_u8 (fj_ttl m)) \<and>
       set (active_view n') = set (active_view n))"
proof (cases "is_expired (fj_ttl m) \<or> active_view n = []")
  case True
  with assms(3,4) show ?thesis by (auto simp: handle_forward_join_def dest: add_to_active_view_mem)
next
  case False
  with assms(3) obtain a sel b where
    a: "(if as_u8 (fj_ttl m) = passive_random_walk_len (hv_options n)
         then add_to_passive_view R (fj_new_node m) n else Some n) = Some a"
    and sel: "select_forwarding_destination R [fj_sender m] a = Some (sel, b)"
    and rest: "(case sel of Some next \<Rightarrow>
        Some (send_to next (mk_forward_join (hv_id b) (fj_new_node m) (decrement (fj_ttl m))) b)
      | None \<Rightarrow> add_to_active_view R (fj_new_node m) True b) = Some n'"
    by (auto simp: handle_forward_join_def bind_eq_Some_conv)
  have na: "active_view a = active_view n" "hv_actions a = hv_actions n" "hv_id a = hv_id n"
    using a by (auto split: if_splits dest: add_to_passive_view_frame)
  have "hv_wf a" using a assms(2) by (auto split: if_splits dest: add_to_passive_view_ok simp: hv_ok_def)
  note spec = select_forwarding_destination_spec [OF assms(1) sel]
  have ab: "hv_actions b = hv_actions a" "hv_id b = hv_id a"
    using sel by (auto simp: select_forwarding_destination_def Let_def bind_eq_Some_conv
        split: if_splits prod.splits)
  have ttl: "unat (as_u8 (decrement (fj_ttl m))) < unat (as_u8 (fj_ttl m))"
    using False by (simp add: as_u8_decrement is_expired_iff)
  show ?thesis
  proof (cases sel)
    case None
    with rest assms(4) na ab show ?thesis by (auto dest: add_to_active_view_mem)
  next
    case (Some nxt)
    have n': "n' = send_to nxt (mk_forward_join (hv_id b) (fj_new_node m) (decrement (fj_ttl m))) b"
      using rest Some by simp
    have "nxt \<in> set (active_view n) - {fj_sender m}" using spec(3) Some na by simp
    then show ?thesis
      using spec(2) na ab ttl by (intro disjI2 bexI [of _ nxt]) (simp_all add: n')
  qed
qed

text \<open>The walk ends: with the time to live as its measure it takes at most that many hops.\<close>

lemma forward_join_expired_accepts:
  assumes "is_expired (fj_ttl m)" and "handle_forward_join R m n = Some n'"
    and "fj_new_node m \<noteq> hv_id n"
  shows "fj_new_node m \<in> set (active_view n')"
  using assms by (auto simp: handle_forward_join_def dest: add_to_active_view_mem)

theorem forward_join_walk_witness:
  "\<exists>n'. handle_forward_join counting_rng \<lparr>fj_sender = 5, fj_new_node = 6, fj_ttl = TimeToLive 3\<rparr> two_joined
     = Some n' \<and>
     (6 \<in> set (active_view n') \<or>
      (\<exists>next \<in> {2} - {5}. hv_actions n' = hv_actions two_joined @
         [HvSend next (mk_forward_join 0 6 (decrement (TimeToLive 3)))]))"
proof -
  let ?m = "\<lparr>fj_sender = 5, fj_new_node = 6, fj_ttl = TimeToLive 3\<rparr> :: nat forward_join_message"
  have wf: "hv_wf two_joined" "hv_sized two_joined"
    by (auto simp: hv_wf_def hv_sized_def two_joined_eq example_node_def hv_with_options_def
        default_node_options_def)
  then obtain n' where n': "handle_forward_join counting_rng ?m two_joined = Some n'"
    using handle_forward_join_total [OF counting_rng_ok wf, of ?m] by (elim exE)
  have v: "hv_id two_joined = 0" "active_view two_joined = [2]"
    by (simp_all add: two_joined_eq example_node_def hv_with_options_def)
  from forward_join_walk [OF counting_rng_ok wf(1) n']
  have "6 \<in> set (active_view n') \<or> (\<exists>next \<in> {2} - {5}. hv_actions n' = hv_actions two_joined @
         [HvSend next (mk_forward_join 0 6 (decrement (TimeToLive 3)))])"
    by (auto simp: v)
  with n' show ?thesis by blast
qed

end
