(* ===== verification/HyParView_Handlers.thy ===== *)
theory HyParView_Handlers
  imports HyParView_Props
begin

text \<open>
  What the remaining handlers of the HyParView node do: DISCONNECT, NEIGHBOR and SHUFFLE, and the
  exchange of two nodes that makes a new link symmetric.
\<close>

section \<open>DISCONNECT\<close>

lemma fill_active_view_cases:
  assumes "fill_active_view R n = Some n'"
  obtains (quiet) r where "n' = n\<lparr>hv_rng := r\<rparr>"
  | (asks) r q where "q \<in> set (passive_view n)" and "\<not> is_active_view_full n"
      and "n' = send_to q (mk_neighbor (hv_id n) (active_view n = [])) (n\<lparr>hv_rng := r\<rparr>)"
proof (cases "is_active_view_full n")
  case True
  with assms have "n' = n\<lparr>hv_rng := hv_rng n\<rparr>" by (simp add: fill_active_view_def)
  then show thesis by (rule quiet)
next
  case False
  with assms obtain sel m where m: "select_random_from_passive_view R n = Some (sel, m)"
    and n': "(case sel of None \<Rightarrow> Some m | Some node \<Rightarrow>
       Some (send_to node (mk_neighbor (hv_id m) (active_view m = [])) m)) = Some n'"
    unfolding fill_active_view_def Let_def by (auto simp: bind_eq_Some_conv)
  from select_random_passive_spec(4) [OF m] obtain r where r: "m = n\<lparr>hv_rng := r\<rparr>" ..
  show thesis
  proof (cases sel)
    case None
    with n' r show thesis by (intro quiet [of r]) simp
  next
    case (Some q)
    with n' r select_random_passive_spec(3) [OF m Some] False show thesis
      by (intro asks [of q r]) simp_all
  qed
qed

lemma fill_active_view_frame:
  assumes "fill_active_view R n = Some n'"
  shows "active_view n' = active_view n" and "passive_view n' = passive_view n"
    and "hv_id n' = hv_id n"
  using assms by (cases rule: fill_active_view_cases; simp)+

lemma fill_active_view_actions:
  assumes "fill_active_view R n = Some n'"
  shows "\<exists>extra. hv_actions n' = hv_actions n @ extra \<and>
      (extra = [] \<or> (\<exists>q \<in> set (passive_view n). extra = [HvSend q (mk_neighbor (hv_id n) (active_view n = []))]))"
  using assms by (cases rule: fill_active_view_cases) auto

lemma remove_from_active_view_member:
  assumes "remove_from_active_view R m n = Some (rem, a)" and "hv_wf n"
  shows "rem \<longleftrightarrow> dc_sender m \<in> set (active_view n)"
    and "rem \<Longrightarrow> set (active_view a) = set (active_view n) - {dc_sender m}"
    and "rem \<Longrightarrow> hv_actions a = hv_actions n @
      (if dc_alive m then [HvSend (dc_sender m) (mk_disconnect (hv_id n) True)] else []) @
      [HvDisconnect (dc_sender m), notify_down (dc_sender m)]"
    and "\<not> rem \<Longrightarrow> a = n"
proof -
  show iff: "rem \<longleftrightarrow> dc_sender m \<in> set (active_view n)" and "\<not> rem \<Longrightarrow> a = n"
    using assms(1) by (auto simp: remove_from_active_view_def bind_eq_Some_conv position_eq_None
        split: option.splits dest: position_eq_SomeD)
  assume rem
  with assms(1) obtain i where pos: "position (\<lambda>p. p = dc_sender m) (active_view n) = Some i"
    and rm: "remove_from_active_view_by_index R i (dc_alive m) n = Some a"
    by (auto simp: remove_from_active_view_def bind_eq_Some_conv split: option.splits)
  from rm obtain p av where sr: "swap_remove i (active_view n) = Some (p, av)" and av: "active_view a = av"
    and acts: "hv_actions a = hv_actions n @
      (if dc_alive m then [HvSend p (mk_disconnect (hv_id n) True)] else []) @
      [HvDisconnect p, notify_down p]"
    by (rule remove_by_index_spec)
  have p: "p = dc_sender m" using pos sr by (auto dest: position_SomeD swap_remove_nth)
  show "set (active_view a) = set (active_view n) - {dc_sender m}"
    using swap_remove_facts [OF sr] av p assms(2) by (auto simp: hv_wf_def)
  show "hv_actions a = hv_actions n @
      (if dc_alive m then [HvSend (dc_sender m) (mk_disconnect (hv_id n) True)] else []) @
      [HvDisconnect (dc_sender m), notify_down (dc_sender m)]"
    using acts p by simp
qed

lemma add_to_passive_view_mem:
  assumes "add_to_passive_view R p n = Some n'" and "p \<notin> set (active_view n)" and "p \<noteq> hv_id n"
  shows "p \<in> set (passive_view n')"
  using assms by (auto simp: add_to_passive_view_def bind_eq_Some_conv split: if_splits)

lemma readd_if_alive:
  assumes "(if alive then add_to_passive_view R p n else Some n) = Some n'"
    and "p \<notin> set (passive_view n)" "p \<noteq> hv_id n"
  shows "active_view n' = active_view n" and "hv_actions n' = hv_actions n"
    and "p \<notin> set (active_view n) \<Longrightarrow> p \<in> set (passive_view n') \<longleftrightarrow> alive"
  using assms
  by (cases alive; auto dest: add_to_passive_view_frame add_to_passive_view_mem)+

text \<open>
  Disconnecting a neighbor takes exactly that node out of the active view, closes the connection
  and reports it down; it stays known in the passive view if and only if it is alive, and only then
  it is sent a DISCONNECT message.
\<close>

theorem disconnect_removes_neighbor:
  assumes "hv_wf n" and "p \<in> set (active_view n)" and "hv_disconnect R p alive n = Some n'"
  shows "set (active_view n') = set (active_view n) - {p} \<and>
    (p \<in> set (passive_view n') \<longleftrightarrow> alive) \<and>
    (\<exists>extra. hv_actions n' = hv_actions n @
       (if alive then [HvSend p (mk_disconnect (hv_id n) True)] else []) @
       [HvDisconnect p, notify_down p] @ extra \<and>
       (extra = [] \<or> (\<exists>q. q \<noteq> p \<and> extra = [HvSend q (mk_neighbor (hv_id n) (active_view n' = []))])))"
proof -
  define m where "m = \<lparr>dc_sender = p, dc_alive = alive\<rparr>"
  have "handle_disconnect R m n = Some n'"
    using assms(3) by (simp add: hv_disconnect_def mk_disconnect_def hv_handle_protocol_message_def m_def)
  then show ?thesis
  proof (cases rule: handle_disconnect_cases)
    case (1 rem a b)
    note mem = remove_from_active_view_member [OF 1(1) assms(1)]
    have rem using mem(1) assms(2) by (simp add: m_def)
    from 1(2) [OF this] obtain c where c: "remove_from_passive_view p a = Some c"
      and b: "fill_active_view R c = Some b" by (auto simp: m_def)
    have na: "hv_ok n a" by (rule remove_from_active_view_ok [OF 1(1)])
    then have a: "hv_wf a" "hv_id a = hv_id n" using assms(1) hv_ok_frame by (auto simp: hv_ok_def)
    note fr = remove_from_passive_view_frame [OF c] and fb = fill_active_view_frame [OF b]
    have pc: "p \<notin> set (passive_view c)"
      using remove_from_passive_view_set [OF c] a(1) by (simp add: hv_wf_def)
    have pid: "p \<noteq> hv_id b" using assms(1,2) fr(3) fb(3) a(2) by (auto simp: hv_wf_def)
    have act: "set (active_view b) = set (active_view n) - {p}"
      using mem(2) [OF \<open>rem\<close>] fr(1) fb(1) by (simp add: m_def)
    have n': "(if alive then add_to_passive_view R p b else Some b) = Some n'"
      using 1(4) by (cases alive) (simp_all add: m_def)
    note fin = readd_if_alive [OF n' _ pid, unfolded act fb(2), OF pc]
    from fill_active_view_actions [OF b] obtain extra where ex: "hv_actions b = hv_actions c @ extra" and
      form: "extra = [] \<or> (\<exists>q \<in> set (passive_view c). extra = [HvSend q (mk_neighbor (hv_id c) (active_view c = []))])"
      by blast
    have "hv_actions n' = hv_actions n @
       (if alive then [HvSend p (mk_disconnect (hv_id n) True)] else []) @
       [HvDisconnect p, notify_down p] @ extra"
      using ex fin(2) fr(2) mem(3) [OF \<open>rem\<close>] by (simp add: m_def)
    moreover have "extra = [] \<or> (\<exists>q. q \<noteq> p \<and> extra = [HvSend q (mk_neighbor (hv_id n) (active_view n' = []))])"
      using form pc fr(3) a(2) fb(1) fin(1) by auto
    ultimately show ?thesis using act fin by simp
  qed
qed

theorem disconnect_removes_neighbor_witness:
  "\<exists>n'. hv_disconnect counting_rng 2 False two_joined = Some n' \<and> active_view n' = [] \<and>
     2 \<notin> set (passive_view n')"
proof -
  have wf: "hv_wf two_joined" and mem: "2 \<in> set (active_view two_joined)"
    by (auto simp: hv_wf_def two_joined_eq example_node_def hv_with_options_def)
  obtain n' where n': "hv_disconnect counting_rng 2 False two_joined = Some n'"
    by (simp add: two_joined_eq hv_evaluate)
  from disconnect_removes_neighbor [OF wf mem n'] n' show ?thesis
    by (simp add: two_joined_eq)
qed

text \<open>
  A DISCONNECT from a node that is not an active neighbor and says it is not alive changes
  nothing at all: a passive entry for the dead node stays.
\<close>

theorem dead_passive_node_is_kept:
  assumes "p \<notin> set (active_view n)"
  shows "hv_handle_protocol_message R (Disconnect \<lparr>dc_sender = p, dc_alive = False\<rparr>) n = Some n"
proof -
  have "position (\<lambda>q. q = p) (active_view n) = None" using assms by (simp add: position_eq_None)
  then show ?thesis
    by (simp add: hv_handle_protocol_message_def handle_disconnect_def remove_from_active_view_def)
qed

theorem dead_passive_node_is_kept_witness:
  "1 \<in> set (passive_view two_joined) \<and>
   hv_handle_protocol_message counting_rng (Disconnect \<lparr>dc_sender = 1, dc_alive = False\<rparr>) two_joined
     = Some two_joined"
  using dead_passive_node_is_kept [of 1 two_joined counting_rng] by (simp add: two_joined_eq)

section \<open>NEIGHBOR\<close>

text \<open>
  A NEIGHBOR request is accepted when its priority is high or there is room, and the sender is
  then an active neighbor; otherwise the views stay as they are, and a stranger is answered with a
  DISCONNECT and its connection is closed.
\<close>

theorem neighbor_request:
  assumes "nb_sender m \<noteq> hv_id n" and "hv_handle_protocol_message R (Neighbor m) n = Some n'"
  shows "if nb_high_priority m \<or> length (active_view n) < unat (max_active_view_size (hv_options n))
    then nb_sender m \<in> set (active_view n')
    else active_view n' = active_view n \<and> passive_view n' = passive_view n \<and>
      hv_actions n' = hv_actions n @
        (if nb_sender m \<in> set (active_view n) then []
         else [HvSend (nb_sender m) (mk_disconnect (hv_id n) True), HvDisconnect (nb_sender m)])"
proof (cases "nb_high_priority m \<or> \<not> is_active_view_full n")
  case True
  with assms obtain b where "add_to_active_view R (nb_sender m) False n = Some b"
    and "n' = disconnect_unless_active_view_node (nb_sender m) b"
    by (auto simp: hv_handle_protocol_message_def handle_neighbor_def)
  then have "nb_sender m \<in> set (active_view n')"
    using add_to_active_view_mem(1) assms(1) by auto
  with True show ?thesis by (auto simp: is_active_view_full_def)
next
  case False
  with assms have "n' = disconnect_unless_active_view_node (nb_sender m) n"
    by (auto simp: hv_handle_protocol_message_def handle_neighbor_def)
  with False assms(1) show ?thesis
    by (auto simp: disconnect_unless_active_view_node_def is_active_view_full_def)
qed

theorem neighbor_request_witness:
  "\<exists>n'. hv_handle_protocol_message counting_rng (Neighbor \<lparr>nb_sender = 9, nb_high_priority = False\<rparr>)
      two_joined = Some n' \<and> active_view n' = [2] \<and>
      hv_actions n' = hv_actions two_joined @ [HvSend 9 (mk_disconnect 0 True), HvDisconnect 9]"
proof -
  let ?m = "\<lparr>nb_sender = 9, nb_high_priority = False\<rparr> :: nat neighbor_message"
  obtain n' where n': "hv_handle_protocol_message counting_rng (Neighbor ?m) two_joined = Some n'"
    by (simp add: two_joined_eq hv_evaluate handle_neighbor_def)
  have "nb_sender ?m \<noteq> hv_id two_joined" by (simp add: two_joined_eq hv_evaluate)
  from neighbor_request [OF this n']
  have "active_view n' = [2] \<and>
      hv_actions n' = hv_actions two_joined @ [HvSend 9 (mk_disconnect 0 True), HvDisconnect 9]"
    by (simp add: two_joined_eq example_node_def hv_with_options_def default_node_options_def)
  with n' show ?thesis by blast
qed

section \<open>SHUFFLE\<close>

lemma add_shuffled_frame:
  assumes "add_shuffled_nodes_to_passive_view R ps n = Some n'"
  shows "active_view n' = active_view n" and "hv_actions n' = hv_actions n"
    and "set (passive_view n') \<subseteq> set (passive_view n) \<union> set ps"
proof -
  have "active_view n' = active_view n \<and> hv_actions n' = hv_actions n \<and>
     set (passive_view n') \<subseteq> set (passive_view n) \<union> set ps"
    using assms
  proof (induction ps arbitrary: n)
    case (Cons p ps)
    then obtain m where m: "add_to_passive_view R p n = Some m"
      and rest: "add_shuffled_nodes_to_passive_view R ps m = Some n'"
      by (auto simp: bind_eq_Some_conv)
    from Cons.IH [OF rest] add_to_passive_view_frame [OF m] show ?case by auto
  qed simp
  then show "active_view n' = active_view n" and "hv_actions n' = hv_actions n"
    and "set (passive_view n') \<subseteq> set (passive_view n) \<union> set ps" by auto
qed

text \<open>
  A SHUFFLE request never changes the membership of the active view and never adds a node that
  is not in the request.  Where its time to live has run out, the origin is answered with nodes of
  the passive view, no more than it offered; before that, the unchanged request goes on, with a
  smaller time to live, to an active neighbor other than its origin and its sender, or is dropped
  when there is none.
\<close>

theorem shuffle_exchange:
  assumes "rng_ok R" and "handle_shuffle R m n = Some n'"
  shows "set (active_view n') = set (active_view n) \<and>
    set (passive_view n') \<subseteq> set (passive_view n) \<union> set (sh_nodes m) \<and>
    (if is_expired (sh_ttl m) then
       \<exists>reply. hv_actions n' = hv_actions n @ [HvSend (sh_origin m) (mk_shuffle_reply (hv_id n) reply)] \<and>
         set reply \<subseteq> set (passive_view n) \<and> length reply \<le> length (sh_nodes m)
     else
       (hv_actions n' = hv_actions n \<and> set (active_view n) \<subseteq> {sh_origin m, sh_sender m}) \<or>
       (\<exists>d \<in> set (active_view n) - {sh_origin m, sh_sender m}. hv_actions n' = hv_actions n @
          [HvSend d (mk_shuffle (hv_id n) (sh_origin m) (sh_nodes m) (decrement (sh_ttl m)))]))"
proof (cases "is_expired (sh_ttl m)")
  case True
  obtain pv r where pv: "rng_shuffle R (hv_rng n) (passive_view n) = (pv, r)" by fastforce
  define reply where "reply = take (length (sh_nodes m)) pv"
  let ?n1 = "send_to (sh_origin m) (mk_shuffle_reply (hv_id n) reply) (n\<lparr>passive_view := pv, hv_rng := r\<rparr>)"
  have add: "add_shuffled_nodes_to_passive_view R (sh_nodes m) ?n1 = Some n'"
    using assms(2) True by (simp add: handle_shuffle_def pv Let_def reply_def)
  have "set pv = set (passive_view n)" using rng_shuffle_facts(1) [OF assms(1) pv] .
  moreover from this have "set reply \<subseteq> set (passive_view n)"
    by (metis reply_def set_take_subset)
  moreover have "length reply \<le> length (sh_nodes m)" by (simp add: reply_def)
  ultimately show ?thesis using True add_shuffled_frame [OF add] by auto
next
  case False
  with assms(2) obtain sel b where
    b: "select_forwarding_destination R [sh_origin m, sh_sender m] n = Some (sel, b)"
    and n': "(case sel of Some d \<Rightarrow> Some (send_to d
        (mk_shuffle (hv_id b) (sh_origin m) (sh_nodes m) (decrement (sh_ttl m))) b) | None \<Rightarrow> Some b) = Some n'"
    by (auto simp: handle_shuffle_def bind_eq_Some_conv)
  note spec = select_forwarding_destination_spec [OF assms(1) b]
  have fr: "hv_actions b = hv_actions n" "hv_id b = hv_id n" "passive_view b = passive_view n"
    using b by (auto simp: select_forwarding_destination_def Let_def bind_eq_Some_conv
        split: if_splits prod.splits)
  show ?thesis
  proof (cases sel)
    case None
    with n' spec(2,3) fr False show ?thesis by auto
  next
    case (Some d)
    then have eq: "n' = send_to d (mk_shuffle (hv_id b) (sh_origin m) (sh_nodes m) (decrement (sh_ttl m))) b"
      using n' by simp
    have "d \<in> set (active_view n) - {sh_origin m, sh_sender m}" using spec(3) Some by simp
    with False spec(2) fr show ?thesis unfolding eq by auto
  qed
qed

theorem shuffle_exchange_witness:
  "\<exists>n'. handle_shuffle counting_rng \<lparr>sh_sender = 2, sh_origin = 7, sh_nodes = [8, 7], sh_ttl = TimeToLive 0\<rparr>
      two_joined = Some n' \<and> set (active_view n') = {2} \<and>
      set (passive_view n') \<subseteq> {1, 7, 8}"
proof -
  let ?m = "\<lparr>sh_sender = 2, sh_origin = 7, sh_nodes = [8, 7], sh_ttl = TimeToLive 0\<rparr> :: nat shuffle_message"
  have "hv_sized two_joined"
    by (simp add: hv_sized_def two_joined_eq example_node_def hv_with_options_def default_node_options_def)
  from handle_shuffle_total [OF counting_rng_ok this, of ?m]
  obtain n' where n': "handle_shuffle counting_rng ?m two_joined = Some n'" by (elim exE)
  from shuffle_exchange [OF counting_rng_ok n'] n' show ?thesis by (auto simp: two_joined_eq)
qed

section \<open>A new link is symmetric\<close>

text \<open>
  When the contact handles the JOIN of a node it did not know, it queues a NEIGHBOR message for
  that node which, once handled there, makes the link symmetric: each of the two nodes is in the
  active view of the other.
\<close>

theorem join_makes_symmetric_link:
  assumes "rng_ok R" and "hv_wf b" and "hv_id a \<noteq> hv_id b" and "hv_id a \<notin> set (active_view b)"
    and "hv_handle_protocol_message R (mk_join (hv_id a)) b = Some b'"
    and "hv_handle_protocol_message R' (mk_neighbor (hv_id b) True) a = Some a'"
  shows "HvSend (hv_id a) (mk_neighbor (hv_id b) True) \<in> set (hv_actions b') \<and>
    hv_id a \<in> set (active_view b') \<and> hv_id b \<in> set (active_view a')"
proof -
  have join: "hv_handle_protocol_message R (Join \<lparr>join_sender = hv_id a\<rparr>) b = Some b'"
    using assms(5) by (simp add: mk_join_def)
  have nb: "hv_handle_protocol_message R' (Neighbor \<lparr>nb_sender = hv_id b, nb_high_priority = True\<rparr>) a
      = Some a'"
    using assms(6) by (simp add: mk_neighbor_def)
  have "hv_id b' = hv_id b" by (rule message.keeps_id [OF assms(1,5,2)])
  with join_adds_and_forwards [OF _ join] neighbor_request [OF _ nb] assms(3,4) show ?thesis by simp
qed

theorem join_makes_symmetric_link_witness:
  "let a = hv_new (0::nat) (0::nat); b = hv_new 1 0;
       b' = the (hv_handle_protocol_message counting_rng (mk_join (hv_id a)) b);
       a' = the (hv_handle_protocol_message counting_rng (mk_neighbor (hv_id b) True) a)
   in hv_id a \<in> set (active_view b') \<and> hv_id b \<in> set (active_view a')"
proof -
  let ?a = "hv_new (0::nat) (0::nat)" and ?b = "hv_new (1::nat) (0::nat)"
  obtain b' where b': "hv_handle_protocol_message counting_rng (mk_join (hv_id ?a)) ?b = Some b'"
    by (simp add: hv_new_def hv_evaluate)
  obtain a' where a': "hv_handle_protocol_message counting_rng (mk_neighbor (hv_id ?b) True) ?a = Some a'"
    by (simp add: hv_new_def hv_evaluate handle_neighbor_def)
  have "hv_id ?a \<in> set (active_view b') \<and> hv_id ?b \<in> set (active_view a')"
    using join_makes_symmetric_link [OF counting_rng_ok _ _ _ b' a']
    by (simp add: hv_new_def hv_with_options_def hv_wf_def)
  with a' b' show ?thesis unfolding Let_def by simp
qed

end
