(* ===== verification/Plumtree_Types.thy ===== *)
theory Plumtree_Types
  imports Prelude
begin

text \<open>
  The data of the crate \<^verbatim>\<open>plumtree\<close>: the node-local clock (\<^verbatim>\<open>time.rs\<close>), application and
  protocol messages (\<^verbatim>\<open>message.rs\<close>) and the queue of actions (\<^verbatim>\<open>action.rs\<close>).  The types of
  node identifiers, message identifiers and payloads are the associated types of the trait
  \<^verbatim>\<open>System\<close> (\<^verbatim>\<open>system.rs\<close>).
\<close>

section \<open>Clock\<close>

type_synonym node_time = duration
type_synonym clock = duration

definition clock_new :: clock where
  "clock_new = 0"

definition clock_now :: "clock \<Rightarrow> node_time" where
  "clock_now c = c"

definition clock_tick :: "clock \<Rightarrow> duration \<Rightarrow> clock option" where
  "clock_tick c d = duration_add c d"

definition clock_max :: clock where
  "clock_max = DURATION_MAX"

definition node_time_add :: "node_time \<Rightarrow> duration \<Rightarrow> node_time option" where
  "node_time_add t d = duration_add t d"

section \<open>Messages\<close>

record ('m, 'p) app_message =
  msg_id :: 'm
  msg_payload :: 'p

record ('n, 'm, 'p) gossip_message =
  gossip_sender :: 'n
  gossip_message :: "('m, 'p) app_message"
  gossip_round :: u16

record ('n, 'm) ihave_message =
  ihave_sender :: 'n
  ihave_message_id :: 'm
  ihave_round :: u16
  ihave_realtime :: bool

record ('n, 'm) graft_message =
  graft_sender :: 'n
  graft_message_id :: "'m option"
  graft_round :: u16

record 'n prune_message =
  prune_sender :: 'n

datatype ('n, 'm, 'p) pt_message =
    Gossip "('n, 'm, 'p) gossip_message"
  | Ihave "('n, 'm) ihave_message"
  | Graft "('n, 'm) graft_message"
  | Prune "'n prune_message"

fun pt_sender :: "('n, 'm, 'p) pt_message \<Rightarrow> 'n" where
  "pt_sender (Gossip m) = gossip_sender m"
| "pt_sender (Ihave m) = ihave_sender m"
| "pt_sender (Graft m) = graft_sender m"
| "pt_sender (Prune m) = prune_sender m"

definition gossip_new :: "'n \<Rightarrow> ('m, 'p) app_message \<Rightarrow> u16 \<Rightarrow> ('n, 'm, 'p) gossip_message" where
  "gossip_new s m r = \<lparr>gossip_sender = s, gossip_message = m, gossip_round = r\<rparr>"

definition ihave_new :: "'n \<Rightarrow> 'm \<Rightarrow> u16 \<Rightarrow> bool \<Rightarrow> ('n, 'm) ihave_message" where
  "ihave_new s i r rt =
     \<lparr>ihave_sender = s, ihave_message_id = i, ihave_round = r, ihave_realtime = rt\<rparr>"

definition graft_new :: "'n \<Rightarrow> 'm option \<Rightarrow> u16 \<Rightarrow> ('n, 'm) graft_message" where
  "graft_new s i r = \<lparr>graft_sender = s, graft_message_id = i, graft_round = r\<rparr>"

definition prune_new :: "'n \<Rightarrow> 'n prune_message" where
  "prune_new s = \<lparr>prune_sender = s\<rparr>"

lemmas pt_message_defs = gossip_new_def ihave_new_def graft_new_def prune_new_def

lemma message_new_sel [simp]:
  "gossip_sender (gossip_new s m r) = s" "gossip_message (gossip_new s m r) = m"
  "gossip_round (gossip_new s m r) = r" "ihave_sender (ihave_new s i r rt) = s"
  "ihave_message_id (ihave_new s i r rt) = i" "ihave_round (ihave_new s i r rt) = r"
  "ihave_realtime (ihave_new s i r rt) = rt" "graft_sender (graft_new s j r) = s"
  "graft_message_id (graft_new s j r) = j" "graft_round (graft_new s j r) = r"
  "prune_sender (prune_new s) = s"
  by (simp_all add: pt_message_defs)

section \<open>Actions\<close>

datatype ('n, 'm, 'p) pt_action =
    PtSend 'n "('n, 'm, 'p) pt_message"
  | Deliver "('m, 'p) app_message"

type_synonym ('n, 'm, 'p) action_queue = "('n, 'm, 'p) pt_action list"

definition action_queue_new :: "('n, 'm, 'p) action_queue" where
  "action_queue_new = []"

definition queue_send ::
  "'n \<Rightarrow> ('n, 'm, 'p) pt_message \<Rightarrow> ('n, 'm, 'p) action_queue \<Rightarrow> ('n, 'm, 'p) action_queue" where
  "queue_send destination message q = q @ [PtSend destination message]"

definition queue_deliver ::
  "('m, 'p) app_message \<Rightarrow> ('n, 'm, 'p) action_queue \<Rightarrow> ('n, 'm, 'p) action_queue" where
  "queue_deliver message q = q @ [Deliver message]"

definition queue_pop ::
  "('n, 'm, 'p) action_queue \<Rightarrow> ('n, 'm, 'p) pt_action option \<times> ('n, 'm, 'p) action_queue" where
  "queue_pop q = (case q of [] \<Rightarrow> (None, []) | a # as \<Rightarrow> (Some a, as))"

end
