(* ===== verification/Timeout_Heap.thy ===== *)
theory Timeout_Heap
  imports Prelude
begin

text \<open>
  The priority queue of the standard library (\<^verbatim>\<open>std::collections::BinaryHeap\<close>) as the crate
  \<^verbatim>\<open>plumtree\<close> uses it: a binary heap in a vector, ordered by a key so that the least key is on
  top (the items of the crate reverse their order).  The interface is the locale
  \<open>priority_queue\<close>; the heap keeps its laws for every key.
\<close>

section \<open>The interface\<close>

locale priority_queue =
  fixes key :: "'a \<Rightarrow> 'k::linorder"
    and push :: "'a \<Rightarrow> 'q \<Rightarrow> 'q"
    and peek :: "'q \<Rightarrow> 'a option"
    and pop :: "'q \<Rightarrow> ('a \<times> 'q) option"
    and items :: "'q \<Rightarrow> 'a multiset"
    and invar :: "'q \<Rightarrow> bool"
  assumes items_push: "items (push x q) = add_mset x (items q)"
    and invar_push: "invar q \<Longrightarrow> invar (push x q)"
    and peek_None: "peek q = None \<longleftrightarrow> items q = {#}"
    and peek_least: "invar q \<Longrightarrow> peek q = Some x \<Longrightarrow> y \<in># items q \<Longrightarrow> key x \<le> key y"
    and pop_None: "pop q = None \<longleftrightarrow> items q = {#}"
    and pop_peek: "pop q = Some (x, q') \<Longrightarrow> peek q = Some x"
    and items_pop: "pop q = Some (x, q') \<Longrightarrow> items q = add_mset x (items q')"
    and invar_pop: "invar q \<Longrightarrow> pop q = Some (x, q') \<Longrightarrow> invar q'"
begin

lemma pop_least: "invar q \<Longrightarrow> pop q = Some (x, q') \<Longrightarrow> y \<in># items q' \<Longrightarrow> key x \<le> key y"
  using peek_least pop_peek items_pop by fastforce

lemma peek_member: "peek q = Some x \<Longrightarrow> x \<in># items q"
  using pop_None pop_peek items_pop peek_None
  by (metis not_None_eq option.inject prod.exhaust union_single_eq_member)

lemma peek_late_all_late:
  "invar q \<Longrightarrow> peek q = Some x \<Longrightarrow> t < key x \<Longrightarrow> y \<in># items q \<Longrightarrow> t < key y"
  using peek_least by force

lemma pop_size: "pop q = Some (x, q') \<Longrightarrow> size (items q) = Suc (size (items q'))"
  by (simp add: items_pop)

end

section \<open>The heap\<close>

definition parent :: "nat \<Rightarrow> nat" where
  "parent i = (i - 1) div 2"

lemma parent_less: "0 < i \<Longrightarrow> parent i < i"
  by (auto simp: parent_def)

lemma parent_iff: "0 < i \<Longrightarrow> parent i = p \<longleftrightarrow> i = 2 * p + 1 \<or> i = 2 * p + 2"
  unfolding parent_def by arith

function sift_up :: "('a \<Rightarrow> 'k::linorder) \<Rightarrow> 'a list \<Rightarrow> nat \<Rightarrow> 'a list" where
  "sift_up key xs pos =
     (if pos = 0 then xs
      else if key (xs ! parent pos) \<le> key (xs ! pos) then xs
      else sift_up key (list_swap pos (parent pos) xs) (parent pos))"
  by pat_completeness auto
termination
  by (relation "measure (\<lambda>(_, _, pos). pos)") (auto simp: parent_less)

declare sift_up.simps [simp del]

text \<open>
  The element at \<open>pos\<close> goes down to a leaf, always below the better child, and then up to its
  place.
\<close>

function sift_down_to_bottom :: "('a \<Rightarrow> 'k::linorder) \<Rightarrow> 'a list \<Rightarrow> nat \<Rightarrow> 'a list" where
  "sift_down_to_bottom key xs pos =
     (let child = 2 * pos + 1 in
      if child + 2 \<le> length xs then
        let c = (if key (xs ! (child + 1)) \<le> key (xs ! child) then child + 1 else child)
        in sift_down_to_bottom key (list_swap pos c xs) c
      else if child + 1 = length xs then sift_up key (list_swap pos child xs) child
      else sift_up key xs pos)"
  by pat_completeness auto
termination
  by (relation "measure (\<lambda>(_, xs, pos). length xs - pos)") (auto split: if_splits)

declare sift_down_to_bottom.simps [simp del]

definition heap_push :: "('a \<Rightarrow> 'k::linorder) \<Rightarrow> 'a \<Rightarrow> 'a list \<Rightarrow> 'a list" where
  "heap_push key x xs = sift_up key (xs @ [x]) (length xs)"

definition heap_peek :: "'a list \<Rightarrow> 'a option" where
  "heap_peek xs = (case xs of [] \<Rightarrow> None | x # _ \<Rightarrow> Some x)"

definition heap_pop :: "('a \<Rightarrow> 'k::linorder) \<Rightarrow> 'a list \<Rightarrow> ('a \<times> 'a list) option" where
  "heap_pop key xs =
     (if xs = [] then None
      else let item = last xs; data = butlast xs
           in if data = [] then Some (item, [])
              else Some (data ! 0, sift_down_to_bottom key (data[0 := item]) 0))"

section \<open>Contents\<close>

lemma mset_sift_up: "pos < length xs \<Longrightarrow> mset (sift_up key xs pos) = mset xs"
proof (induction key xs pos rule: sift_up.induct)
  case (1 key xs pos)
  show ?case
  proof (cases "pos = 0 \<or> key (xs ! parent pos) \<le> key (xs ! pos)")
    case True
    then show ?thesis by (subst sift_up.simps) auto
  next
    case False
    then have "parent pos < length xs" using "1.prems" parent_less [of pos] by simp
    with False "1" show ?thesis by (subst sift_up.simps) (simp add: mset_list_swap)
  qed
qed

lemma mset_sift_down: "pos < length xs \<Longrightarrow> mset (sift_down_to_bottom key xs pos) = mset xs"
proof (induction key xs pos rule: sift_down_to_bottom.induct)
  case (1 key xs pos)
  then show ?case
    by (subst sift_down_to_bottom.simps) (simp add: Let_def mset_list_swap mset_sift_up)
qed

lemma mset_heap_push: "mset (heap_push key x xs) = add_mset x (mset xs)"
  by (simp add: heap_push_def mset_sift_up)

lemma mset_heap_pop:
  assumes "heap_pop key xs = Some (x, ys)"
  shows "mset xs = add_mset x (mset ys)"
proof (cases xs rule: rev_cases)
  case (snoc zs z)
  show ?thesis
  proof (cases zs)
    case (Cons w ws)
    then have "x = w" "ys = sift_down_to_bottom key (z # ws) 0"
      using assms snoc by (auto simp: heap_pop_def Let_def)
    then show ?thesis using snoc Cons by (simp add: mset_sift_down)
  qed (use assms snoc in \<open>auto simp: heap_pop_def\<close>)
qed (use assms in \<open>auto simp: heap_pop_def\<close>)

section \<open>Heap order\<close>

definition is_heap :: "('a \<Rightarrow> 'k::linorder) \<Rightarrow> 'a list \<Rightarrow> bool" where
  "is_heap key xs \<longleftrightarrow> (\<forall>i < length xs. 0 < i \<longrightarrow> key (xs ! parent i) \<le> key (xs ! i))"

text \<open>The order may fail at \<open>pos\<close> against its parent (going up), or around \<open>pos\<close> (going down).\<close>

definition up_inv :: "('a \<Rightarrow> 'k::linorder) \<Rightarrow> 'a list \<Rightarrow> nat \<Rightarrow> bool" where
  "up_inv key xs pos \<longleftrightarrow> pos < length xs \<and>
     (\<forall>i < length xs. 0 < i \<longrightarrow> i \<noteq> pos \<longrightarrow> key (xs ! parent i) \<le> key (xs ! i)) \<and>
     (\<forall>i < length xs. 0 < i \<longrightarrow> 0 < pos \<longrightarrow> parent i = pos \<longrightarrow> key (xs ! parent pos) \<le> key (xs ! i))"

definition down_inv :: "('a \<Rightarrow> 'k::linorder) \<Rightarrow> 'a list \<Rightarrow> nat \<Rightarrow> bool" where
  "down_inv key xs pos \<longleftrightarrow> pos < length xs \<and>
     (\<forall>i < length xs. 0 < i \<longrightarrow> i \<noteq> pos \<longrightarrow> parent i \<noteq> pos \<longrightarrow> key (xs ! parent i) \<le> key (xs ! i)) \<and>
     (\<forall>i < length xs. 0 < i \<longrightarrow> 0 < pos \<longrightarrow> parent i = pos \<longrightarrow> key (xs ! parent pos) \<le> key (xs ! i))"

lemma up_inv_swap:
  assumes inv: "up_inv key xs pos" and pos: "0 < pos"
    and lt: "\<not> key (xs ! parent pos) \<le> key (xs ! pos)"
  shows "up_inv key (list_swap pos (parent pos) xs) (parent pos)"
proof -
  let ?p = "parent pos" and ?ys = "list_swap pos (parent pos) xs"
  have p: "?p < pos" "pos < length xs" using pos inv by (auto simp: up_inv_def parent_less)
  have nth: "?ys ! i = (if i = pos then xs ! ?p else if i = ?p then xs ! pos else xs ! i)"
    if "i < length xs" for i using that p by (simp add: nth_list_swap)
  have ord: "key (xs ! parent i) \<le> key (xs ! i)" if "i < length xs" "0 < i" "i \<noteq> pos" for i
    using inv that by (auto simp: up_inv_def)
  have grand: "key (xs ! ?p) \<le> key (xs ! i)" if "i < length xs" "0 < i" "parent i = pos" for i
    using inv that pos by (auto simp: up_inv_def)
  have below: "parent i < length xs" if "i < length xs" "0 < i" for i
    using that parent_less [of i] by simp
  show ?thesis unfolding up_inv_def
  proof (intro conjI allI impI)
    fix i assume i: "i < length ?ys" "0 < i" "i \<noteq> ?p"
    show "key (?ys ! parent i) \<le> key (?ys ! i)"
      using i lt p ord [of i] grand [of i] below [of i] by (auto simp: nth)
  next
    fix i assume i: "i < length ?ys" "0 < i" "0 < ?p" "parent i = ?p"
    have "parent ?p < ?p" using i(3) by (rule parent_less)
    moreover have "key (xs ! parent ?p) \<le> key (xs ! ?p)" using ord [of ?p] i(3) p by auto
    moreover have "i \<noteq> ?p" using i parent_less [of i] by auto
    ultimately show "key (?ys ! parent ?p) \<le> key (?ys ! i)"
      using i p ord [of i] by (auto simp: nth)
  qed (use p in simp)
qed

lemma sift_up_heap: "up_inv key xs pos \<Longrightarrow> is_heap key (sift_up key xs pos)"
proof (induction key xs pos rule: sift_up.induct)
  case (1 key xs pos)
  note step = sift_up.simps [of key xs pos]
  consider "pos = 0" | "0 < pos" "key (xs ! parent pos) \<le> key (xs ! pos)"
    | "0 < pos" "\<not> key (xs ! parent pos) \<le> key (xs ! pos)" by blast
  then show ?case
  proof cases
    case 3
    then show ?thesis using step "1.IH" up_inv_swap [OF "1.prems"] by simp
  qed (use step "1.prems" in \<open>auto simp: up_inv_def is_heap_def\<close>)
qed

text \<open>Below \<open>pos\<close> goes the child \<open>c\<close> that no other child of \<open>pos\<close> is better than.\<close>

lemma down_inv_swap:
  assumes inv: "down_inv key xs pos" and c: "c < length xs" "0 < c" "parent c = pos"
    and best: "\<And>i. i < length xs \<Longrightarrow> 0 < i \<Longrightarrow> parent i = pos \<Longrightarrow> key (xs ! c) \<le> key (xs ! i)"
  shows "down_inv key (list_swap pos c xs) c"
proof -
  let ?ys = "list_swap pos c xs"
  have p: "pos < c" "pos < length xs" using c inv parent_less [of c] by (auto simp: down_inv_def)
  have nth: "?ys ! i = (if i = pos then xs ! c else if i = c then xs ! pos else xs ! i)"
    if "i < length xs" for i using that p c by (simp add: nth_list_swap)
  have ord: "key (xs ! parent i) \<le> key (xs ! i)"
    if "i < length xs" "0 < i" "i \<noteq> pos" "parent i \<noteq> pos" for i
    using inv that by (auto simp: down_inv_def)
  have grand: "key (xs ! parent pos) \<le> key (xs ! i)"
    if "i < length xs" "0 < i" "0 < pos" "parent i = pos" for i
    using inv that by (auto simp: down_inv_def)
  have below: "parent i < length xs \<and> parent i < i" if "i < length xs" "0 < i" for i
    using that parent_less [of i] by simp
  show ?thesis unfolding down_inv_def
  proof (intro conjI allI impI)
    fix i assume i: "i < length ?ys" "0 < i" "i \<noteq> c" "parent i \<noteq> c"
    then show "key (?ys ! parent i) \<le> key (?ys ! i)"
      using c p ord [of i] grand [of c] best [of i] below [of i] by (auto simp: nth)
  next
    fix i assume i: "i < length ?ys" "0 < i" "0 < c" "parent i = c"
    then show "key (?ys ! parent c) \<le> key (?ys ! i)"
      using c p ord [of i] below [of i] by (auto simp: nth)
  qed (use c in simp)
qed

lemma down_inv_leaf: "down_inv key xs pos \<Longrightarrow> length xs \<le> 2 * pos + 1 \<Longrightarrow> up_inv key xs pos"
  unfolding down_inv_def up_inv_def by (auto simp: parent_iff)

lemma sift_down_heap: "down_inv key xs pos \<Longrightarrow> is_heap key (sift_down_to_bottom key xs pos)"
proof (induction key xs pos rule: sift_down_to_bottom.induct)
  case (1 key xs pos)
  let ?l = "2 * pos + 1"
  note step = sift_down_to_bottom.simps [of key xs pos]
  consider (two) "?l + 2 \<le> length xs" | (one) "?l + 1 = length xs" | (leaf) "length xs \<le> ?l"
    by linarith
  then show ?case
  proof cases
    case two
    let ?c = "if key (xs ! (?l + 1)) \<le> key (xs ! ?l) then ?l + 1 else ?l"
    have "down_inv key (list_swap pos ?c xs) ?c"
      by (rule down_inv_swap [OF "1.prems"]) (use two in \<open>auto simp: parent_iff\<close>)
    moreover have "sift_down_to_bottom key xs pos = sift_down_to_bottom key (list_swap pos ?c xs) ?c"
      by (subst step) (simp only: Let_def two if_True)
    ultimately show ?thesis using "1.IH" [OF refl two refl] by (simp only:)
  next
    case one
    have "down_inv key (list_swap pos ?l xs) ?l"
      by (rule down_inv_swap [OF "1.prems"]) (use one in \<open>auto simp: parent_iff\<close>)
    then have "up_inv key (list_swap pos ?l xs) ?l" by (rule down_inv_leaf) (use one in simp)
    then show ?thesis using step one by (simp add: Let_def sift_up_heap)
  next
    case leaf
    then have "up_inv key xs pos" using "1.prems" by (simp add: down_inv_leaf)
    then show ?thesis using step leaf by (simp add: Let_def sift_up_heap)
  qed
qed

lemma heap_push_is_heap: "is_heap key xs \<Longrightarrow> is_heap key (heap_push key x xs)"
  unfolding heap_push_def
  by (rule sift_up_heap) (auto simp: up_inv_def is_heap_def nth_append parent_iff dest: parent_less)

lemma heap_pop_is_heap:
  assumes "is_heap key xs" and "heap_pop key xs = Some (x, ys)"
  shows "is_heap key ys"
proof (cases "butlast xs = []")
  case True
  with assms(2) show ?thesis by (auto simp: heap_pop_def Let_def is_heap_def split: if_splits)
next
  case False
  then have ys: "ys = sift_down_to_bottom key ((butlast xs)[0 := last xs]) 0"
    using assms(2) by (auto simp: heap_pop_def Let_def split: if_splits)
  have "key (butlast xs ! parent i) \<le> key (butlast xs ! i)"
    if "i < length (butlast xs)" "0 < i" for i
    using assms(1) that parent_less [of i] by (simp add: is_heap_def nth_butlast)
  then have "down_inv key ((butlast xs)[0 := last xs]) 0"
    using False by (simp add: down_inv_def flip: length_greater_0_conv)
  then show ?thesis unfolding ys by (rule sift_down_heap)
qed

lemma is_heap_least:
  assumes "is_heap key xs" and "i < length xs"
  shows "key (xs ! 0) \<le> key (xs ! i)"
  using assms(2)
proof (induction i rule: less_induct)
  case (less i)
  show ?case
  proof (cases "i = 0")
    case False
    then have "parent i < i" by (simp add: parent_less)
    with less have "key (xs ! 0) \<le> key (xs ! parent i)" by simp
    also have "\<dots> \<le> key (xs ! i)" using assms(1) less.prems False by (auto simp: is_heap_def)
    finally show ?thesis .
  qed simp
qed

lemma heap_peek_least:
  assumes "is_heap key xs" "heap_peek xs = Some x" "y \<in> set xs"
  shows "key x \<le> key y"
proof -
  from assms(2) have "x = xs ! 0" by (auto simp: heap_peek_def split: list.splits)
  with assms show ?thesis by (auto simp: in_set_conv_nth is_heap_least)
qed

lemma heap_pop_peek: "heap_pop key xs = Some (x, ys) \<Longrightarrow> heap_peek xs = Some x"
  by (cases xs) (auto simp: heap_pop_def heap_peek_def Let_def split: if_splits)

lemma heap_pop_None: "heap_pop key xs = None \<longleftrightarrow> xs = []"
  by (auto simp: heap_pop_def Let_def)

lemma heap_peek_None: "heap_peek xs = None \<longleftrightarrow> xs = []"
  by (auto simp: heap_peek_def split: list.splits)

text \<open>The heap is a priority queue for every key.\<close>

lemma heap_priority_queue:
  "priority_queue key (heap_push key) heap_peek (heap_pop key) mset (is_heap key)"
  by unfold_locales
    (auto simp: mset_heap_push mset_heap_pop heap_push_is_heap heap_pop_is_heap heap_peek_least
      heap_pop_peek heap_pop_None heap_peek_None)

end
