(* ===== verification/Plumtree_Missing.thy ===== *)
theory Plumtree_Missing
  imports Plumtree_Types Timeout_Heap
begin

text \<open>
  The messages a Plumtree node has been told about but has not received (\<^verbatim>\<open>missing.rs\<close>): the
  entries, the queue of timeouts, and the operations on them.  The outer option is a panic.
\<close>

section \<open>State\<close>

record 'n ihave_entry =
  entry_id_seqno :: nat
  head_round :: u16
  head_owner :: 'n
  owners :: nat
  next_expiry :: node_time

datatype ('n, 'm) queue_item =
    MessageItem node_time nat "('n, 'm) ihave_message"
  | EntryItem node_time nat 'm

fun expiry_time :: "('n, 'm) queue_item \<Rightarrow> node_time" where
  "expiry_time (MessageItem t _ _) = t"
| "expiry_time (EntryItem t _ _) = t"

fun item_entry_seqno :: "('n, 'm) queue_item \<Rightarrow> nat" where
  "item_entry_seqno (MessageItem _ s _) = s"
| "item_entry_seqno (EntryItem _ s _) = s"

fun item_message_id :: "('n, 'm) queue_item \<Rightarrow> 'm" where
  "item_message_id (MessageItem _ _ ihave) = ihave_message_id ihave"
| "item_message_id (EntryItem _ _ i) = i"

record ('n, 'm) missing_messages =
  timeout_queue :: "('n, 'm) queue_item list"
  ihaves :: "'m \<rightharpoonup> 'n ihave_entry"
  entry_seqno :: nat

section \<open>Operations\<close>

definition missing_new :: "('n, 'm) missing_messages" where
  "missing_new = \<lparr>timeout_queue = [], ihaves = Map.empty, entry_seqno = 0\<rparr>"

text \<open>The entry of the map, made when the identifier has none (\<^verbatim>\<open>or_insert_with\<close>).\<close>

definition or_insert_entry ::
  "('n, 'm) ihave_message \<Rightarrow> clock \<Rightarrow> duration \<Rightarrow> ('n, 'm) missing_messages \<Rightarrow>
   'n ihave_entry option" where
  "or_insert_entry ihave clock timeout mm =
     (case ihaves mm (ihave_message_id ihave) of
        Some entry \<Rightarrow> Some entry
      | None \<Rightarrow> do {
          t \<leftarrow> (if \<not> ihave_realtime ihave then node_time_add (clock_now clock) timeout
               else Some (clock_now clock));
          Some \<lparr>entry_id_seqno = entry_seqno mm, head_round = ihave_round ihave,
                head_owner = ihave_sender ihave, owners = 0, next_expiry = t\<rparr>
        })"

definition missing_push ::
  "('n, 'm) ihave_message \<Rightarrow> clock \<Rightarrow> duration \<Rightarrow> ('n, 'm) missing_messages \<Rightarrow>
   ('n, 'm) missing_messages option" where
  "missing_push ihave clock timeout mm = do {
     entry \<leftarrow> or_insert_entry ihave clock timeout mm;
     t \<leftarrow> node_time_add (next_expiry entry) timeout;
     k \<leftarrow> u64_add (owners entry) 1;
     s \<leftarrow> (if k = 1 then u64_add (entry_seqno mm) 1 else Some (entry_seqno mm));
     Some \<lparr>timeout_queue = heap_push expiry_time
                             (MessageItem (next_expiry entry) (entry_id_seqno entry) ihave)
                             (timeout_queue mm),
           ihaves = (ihaves mm)(ihave_message_id ihave \<mapsto> entry\<lparr>next_expiry := t, owners := k\<rparr>),
           entry_seqno = s\<rparr>
   }"

lemma heap_pop_length: "heap_pop key xs = Some (x, ys) \<Longrightarrow> length xs = Suc (length ys)"
  by (drule mset_heap_pop) (metis size_add_mset size_mset)

text \<open>
  The body of the loop of \<^verbatim>\<open>pop_expired\<close>, on the item just taken off the queue: a stale item
  and the item of an entry are dropped (no message, the loop continues), a message item is
  returned.  The assertion that an entry with a pending item has an owner is a panic.
\<close>

definition expire_item ::
  "('n, 'm) queue_item \<Rightarrow> ('n, 'm) missing_messages \<Rightarrow>
   (('n, 'm) ihave_message option \<times> ('n, 'm) missing_messages) option" where
  "expire_item item mm =
     (case ihaves mm (item_message_id item) of
        None \<Rightarrow> Some (None, mm)
      | Some entry \<Rightarrow>
          if entry_id_seqno entry \<noteq> item_entry_seqno item then Some (None, mm)
          else (case item of
             MessageItem _ _ ihave \<Rightarrow>
               if owners entry = 0 then None
               else
                 let entry = entry\<lparr>owners := owners entry - 1, head_round := ihave_round ihave,
                               head_owner := ihave_sender ihave\<rparr>;
                     queue = (if owners entry = 0
                              then heap_push expiry_time
                                     (EntryItem (next_expiry entry) (entry_id_seqno entry)
                                        (ihave_message_id ihave)) (timeout_queue mm)
                              else timeout_queue mm)
                 in Some (Some ihave,
                      mm\<lparr>timeout_queue := queue,
                         ihaves := (ihaves mm)(ihave_message_id ihave \<mapsto> entry)\<rparr>)
           | EntryItem _ _ message_id \<Rightarrow>
               Some (None,
                 if owners entry = 0 then mm\<lparr>ihaves := (ihaves mm)(message_id := None)\<rparr> else mm)))"

lemma expire_item_continue_queue:
  "expire_item item mm = Some (None, mm') \<Longrightarrow> timeout_queue mm' = timeout_queue mm"
  by (auto simp: expire_item_def Let_def split: option.splits if_splits queue_item.splits)

function pop_expired ::
  "clock \<Rightarrow> ('n, 'm) missing_messages \<Rightarrow>
   (('n, 'm) ihave_message option \<times> ('n, 'm) missing_messages) option" where
  "pop_expired clock mm =
     (case heap_peek (timeout_queue mm) of
        None \<Rightarrow> Some (None, mm)
      | Some first \<Rightarrow>
          if \<not> expiry_time first \<le> clock_now clock then Some (None, mm)
          else (case heap_pop expiry_time (timeout_queue mm) of
                  None \<Rightarrow> None
                | Some (item, queue) \<Rightarrow>
                    (case expire_item item (mm\<lparr>timeout_queue := queue\<rparr>) of
                       None \<Rightarrow> None
                     | Some (Some ihave, mm') \<Rightarrow> Some (Some ihave, mm')
                     | Some (None, mm') \<Rightarrow> pop_expired clock mm')))"
  by pat_completeness auto
termination
  by (relation "measure (\<lambda>(_, mm). length (timeout_queue mm))")
    (auto dest!: heap_pop_length expire_item_continue_queue)

declare pop_expired.simps [simp del]

definition missing_remove :: "'m \<Rightarrow> ('n, 'm) missing_messages \<Rightarrow> ('n, 'm) missing_messages" where
  "missing_remove i mm = mm\<lparr>ihaves := (ihaves mm)(i := None)\<rparr>"

definition missing_waiting :: "('n, 'm) missing_messages \<Rightarrow> nat" where
  "missing_waiting mm = card (dom (ihaves mm))"

definition missing_next_expiry_time :: "('n, 'm) missing_messages \<Rightarrow> node_time option" where
  "missing_next_expiry_time mm = map_option expiry_time (heap_peek (timeout_queue mm))"

definition get_ihave :: "'m \<Rightarrow> ('n, 'm) missing_messages \<Rightarrow> (u16 \<times> 'n) option" where
  "get_ihave i mm = map_option (\<lambda>e. (head_round e, head_owner e)) (ihaves mm i)"

section \<open>The queue of timeouts is a priority queue\<close>

interpretation timeouts: priority_queue expiry_time "heap_push expiry_time" heap_peek
  "heap_pop expiry_time" mset "is_heap expiry_time"
  by (rule heap_priority_queue)

lemmas timeouts_facts [simp] = timeouts.items_push timeouts.invar_push

section \<open>Well-formedness\<close>

text \<open>
  The timers of an entry are the items with its message identifier and its sequence number:
  one message item for each owner and, once every owner has been asked, the item that removes
  the entry.
\<close>

fun for_message :: "'m \<Rightarrow> nat \<Rightarrow> ('n, 'm) queue_item \<Rightarrow> bool" where
  "for_message i s (MessageItem _ s' ihave) = (s' = s \<and> ihave_message_id ihave = i)"
| "for_message i s (EntryItem _ _ _) = False"

fun for_entry :: "'m \<Rightarrow> nat \<Rightarrow> ('n, 'm) queue_item \<Rightarrow> bool" where
  "for_entry i s (MessageItem _ _ _) = False"
| "for_entry i s (EntryItem _ s' j) = (s' = s \<and> j = i)"

definition timers_ok :: "('n, 'm) queue_item multiset \<Rightarrow> 'm \<Rightarrow> 'n ihave_entry \<Rightarrow> bool" where
  "timers_ok Q i e \<longleftrightarrow>
     size (filter_mset (for_message i (entry_id_seqno e)) Q) = owners e \<and>
     (owners e = 0 \<longrightarrow> filter_mset (for_entry i (entry_id_seqno e)) Q \<noteq> {#})"

definition missing_wf :: "('n, 'm) missing_messages \<Rightarrow> bool" where
  "missing_wf mm \<longleftrightarrow>
     is_heap expiry_time (timeout_queue mm) \<and> finite (dom (ihaves mm)) \<and>
     (\<forall>x \<in> set (timeout_queue mm). item_entry_seqno x < entry_seqno mm) \<and>
     (\<forall>x \<in> set (timeout_queue mm). expiry_time x \<le> DURATION_MAX) \<and>
     (\<forall>i e. ihaves mm i = Some e \<longrightarrow> entry_id_seqno e < entry_seqno mm \<and>
        next_expiry e \<le> DURATION_MAX \<and> timers_ok (mset (timeout_queue mm)) i e)"

lemma missing_new_wf [simp]: "missing_wf missing_new"
  by (simp add: missing_wf_def missing_new_def is_heap_def)

lemma missing_remove_wf: "missing_wf mm \<Longrightarrow> missing_wf (missing_remove i mm)"
  by (auto simp: missing_wf_def missing_remove_def)

lemma set_heap_push [simp]: "set (heap_push key x xs) = insert x (set xs)"
  using mset_heap_push [of key x xs] by (metis set_mset_add_mset_insert set_mset_mset)

lemma for_message_seqno: "for_message i s x \<Longrightarrow> item_entry_seqno x = s"
  by (cases x) auto

lemma no_timers_yet:
  "(\<forall>x \<in> set q. item_entry_seqno x < s) \<Longrightarrow> filter_mset (for_message i s) (mset q) = {#}"
  by (force simp: filter_mset_eq_conv dest: for_message_seqno)

lemma missing_push_cases:
  assumes "missing_push ihave clock timeout mm = Some mm'"
  obtains e where "or_insert_entry ihave clock timeout mm = Some e"
    "mm' = \<lparr>timeout_queue = heap_push expiry_time
                (MessageItem (next_expiry e) (entry_id_seqno e) ihave) (timeout_queue mm),
            ihaves = (ihaves mm)(ihave_message_id ihave \<mapsto>
                e\<lparr>next_expiry := next_expiry e + timeout, owners := Suc (owners e)\<rparr>),
            entry_seqno = (if owners e = 0 then Suc (entry_seqno mm) else entry_seqno mm)\<rparr>"
    "next_expiry e + timeout \<le> DURATION_MAX"
  using assms
  by (auto simp: missing_push_def bind_eq_Some_conv node_time_add_def std_simps split: if_splits)

lemma or_insert_entry_wf:
  assumes "missing_wf mm" "or_insert_entry ihave clock timeout mm = Some e"
  shows "entry_id_seqno e < (if owners e = 0 then Suc (entry_seqno mm) else entry_seqno mm)"
    "size (filter_mset (for_message (ihave_message_id ihave) (entry_id_seqno e))
       (mset (timeout_queue mm))) = owners e"
  using assms
  by (fastforce simp: or_insert_entry_def missing_wf_def timers_ok_def bind_eq_Some_conv
      no_timers_yet split: option.splits)+

lemma missing_push_wf:
  assumes wf: "missing_wf mm" and push: "missing_push ihave clock timeout mm = Some mm'"
  shows "missing_wf mm'"
  using push
proof (cases rule: missing_push_cases)
  case (1 e)
  note e = or_insert_entry_wf [OF wf 1(1)]
  have other: "timers_ok (mset (timeout_queue mm')) i e'"
    if "ihaves mm i = Some e'" "i \<noteq> ihave_message_id ihave" for i e'
    using wf that by (auto simp: 1(2) missing_wf_def timers_ok_def mset_heap_push)
  have seqno: "entry_seqno mm \<le> entry_seqno mm'" "entry_id_seqno e < entry_seqno mm'"
    using e(1) by (simp_all add: 1(2) split: if_splits)
  have old: "\<forall>x \<in> set (timeout_queue mm). item_entry_seqno x < entry_seqno mm"
    "\<forall>i e. ihaves mm i = Some e \<longrightarrow> entry_id_seqno e < entry_seqno mm"
    using wf by (simp_all add: missing_wf_def)
  show ?thesis unfolding missing_wf_def
  proof (intro conjI ballI allI impI)
    fix x assume "x \<in> set (timeout_queue mm')"
    then show "item_entry_seqno x < entry_seqno mm'"
      using old(1) seqno by (fastforce simp: 1(2))
  next
    fix x assume "x \<in> set (timeout_queue mm')"
    then show "expiry_time x \<le> DURATION_MAX" using wf 1(3) by (auto simp: 1(2) missing_wf_def)
  next
    fix i e' assume i: "ihaves mm' i = Some e'"
    show "entry_id_seqno e' < entry_seqno mm'"
      using i old(2) seqno by (cases "i = ihave_message_id ihave") (fastforce simp: 1(2))+
    show "next_expiry e' \<le> DURATION_MAX"
      using i wf 1(3) by (cases "i = ihave_message_id ihave") (auto simp: 1(2) missing_wf_def)
    show "timers_ok (mset (timeout_queue mm')) i e'"
    proof (cases "i = ihave_message_id ihave")
      case True
      then have "e' = e\<lparr>next_expiry := next_expiry e + timeout, owners := Suc (owners e)\<rparr>"
        using i by (simp add: 1(2))
      with True e(2) show ?thesis by (simp add: 1(2) timers_ok_def mset_heap_push)
    qed (use i other [of i e'] in \<open>simp add: 1(2)\<close>)
  qed (use wf in \<open>auto simp: 1(2) missing_wf_def heap_push_is_heap\<close>)
qed

section \<open>Expiry\<close>

text \<open>The work left in the queue: a message item may still become the item of its entry.\<close>

fun item_weight :: "('n, 'm) queue_item \<Rightarrow> nat" where
  "item_weight (MessageItem _ _ _) = 2"
| "item_weight (EntryItem _ _ _) = 1"

definition missing_weight :: "('n, 'm) missing_messages \<Rightarrow> nat" where
  "missing_weight mm = (\<Sum>x \<in># mset (timeout_queue mm). item_weight x)"

lemma timers_ok_stale:
  "\<not> (i = item_message_id item \<and> entry_id_seqno e = item_entry_seqno item) \<Longrightarrow>
     timers_ok (add_mset item Q) i e = timers_ok Q i e"
  by (cases item) (auto simp: timers_ok_def)

lemma timers_ok_entry_item:
  "owners e \<noteq> 0 \<Longrightarrow> timers_ok (add_mset (EntryItem t s j) Q) i e = timers_ok Q i e"
  by (simp add: timers_ok_def)

text \<open>What one item taken off the queue does, for a queue that was well formed with the item.\<close>

definition before_item :: "('n, 'm) queue_item \<Rightarrow> ('n, 'm) missing_messages \<Rightarrow> bool" where
  "before_item item mm \<longleftrightarrow>
     is_heap expiry_time (timeout_queue mm) \<and> finite (dom (ihaves mm)) \<and>
     (\<forall>x \<in> insert item (set (timeout_queue mm)). item_entry_seqno x < entry_seqno mm) \<and>
     (\<forall>x \<in> insert item (set (timeout_queue mm)). expiry_time x \<le> DURATION_MAX) \<and>
     (\<forall>i e. ihaves mm i = Some e \<longrightarrow> entry_id_seqno e < entry_seqno mm \<and>
        next_expiry e \<le> DURATION_MAX \<and> timers_ok (add_mset item (mset (timeout_queue mm))) i e)"

lemma heap_pop_before_item:
  assumes wf: "missing_wf mm" and pop: "heap_pop expiry_time (timeout_queue mm) = Some (item, q)"
  shows "before_item item (mm\<lparr>timeout_queue := q\<rparr>)"
proof -
  have q: "mset (timeout_queue mm) = add_mset item (mset q)" using pop by (rule timeouts.items_pop)
  then have "set (timeout_queue mm) = insert item (set q)"
    by (metis set_mset_add_mset_insert set_mset_mset)
  with wf q timeouts.invar_pop [OF _ pop] show ?thesis
    by (simp add: before_item_def missing_wf_def)
qed

lemma stale_item_wf:
  assumes "before_item item mm"
    and "\<And>e. ihaves mm (item_message_id item) = Some e \<Longrightarrow> entry_id_seqno e \<noteq> item_entry_seqno item"
  shows "missing_wf mm"
  unfolding missing_wf_def using assms
  by (auto simp: before_item_def) (metis timers_ok_stale)

lemma message_item_wf:
  assumes pre: "before_item (MessageItem t s ihave) mm" and i: "i = ihave_message_id ihave"
    and e: "ihaves mm i = Some e" "entry_id_seqno e = s"
    and e': "owners e' = owners e - 1" "entry_id_seqno e' = s"
      "next_expiry e' = next_expiry e" "t' = next_expiry e"
    and q: "q = (if owners e' = 0 then heap_push expiry_time (EntryItem t' s i) (timeout_queue mm)
                 else timeout_queue mm)"
  shows "owners e \<noteq> 0" "missing_wf (mm\<lparr>timeout_queue := q, ihaves := (ihaves mm)(i \<mapsto> e')\<rparr>)"
proof -
  let ?Q = "mset (timeout_queue mm)"
  have "timers_ok (add_mset (MessageItem t s ihave) ?Q) i e" using pre e by (auto simp: before_item_def)
  then have size: "Suc (size (filter_mset (for_message i s) ?Q)) = owners e"
    using e i by (simp add: timers_ok_def)
  then show "owners e \<noteq> 0" by simp
  have "filter_mset (for_message i s) (mset q) = filter_mset (for_message i s) ?Q"
    by (simp add: q mset_heap_push)
  then have "size (filter_mset (for_message i s) (mset q)) = owners e'" using size e'(1) by simp
  then have mine: "timers_ok (mset q) i e'" using e'(2) q by (simp add: timers_ok_def mset_heap_push)
  have other: "timers_ok (mset q) j e''" if "ihaves mm j = Some e''" "j \<noteq> i" for j e''
  proof -
    have "timers_ok (add_mset (MessageItem t s ihave) ?Q) j e''"
      using pre that by (auto simp: before_item_def)
    then have "timers_ok ?Q j e''" using that i by (subst (asm) timers_ok_stale) auto
    then show ?thesis using q that by (auto simp: timers_ok_def mset_heap_push)
  qed
  show "missing_wf (mm\<lparr>timeout_queue := q, ihaves := (ihaves mm)(i \<mapsto> e')\<rparr>)"
    using pre mine other q e(1) e'(2-4) by (auto simp: missing_wf_def before_item_def heap_push_is_heap)
qed

lemma entry_item_wf:
  assumes pre: "before_item (EntryItem t s i) mm" and e: "ihaves mm i = Some e"
  shows "missing_wf (if owners e = 0 then mm\<lparr>ihaves := (ihaves mm)(i := None)\<rparr> else mm)"
proof -
  let ?Q = "mset (timeout_queue mm)"
  have all: "timers_ok (add_mset (EntryItem t s i) ?Q) j e'" if "ihaves mm j = Some e'" for j e'
    using pre that by (auto simp: before_item_def)
  have "timers_ok ?Q j e'" if "ihaves mm j = Some e'" "j \<noteq> i \<or> owners e' \<noteq> 0" for j e'
    using all [OF that(1)] that(2) timers_ok_stale [of j "EntryItem t s i" e']
    by (cases "j = i") (auto simp: timers_ok_entry_item)
  with pre e show ?thesis by (auto simp: missing_wf_def before_item_def) (metis option.inject)
qed

lemma expire_item_total:
  assumes pre: "before_item item mm"
  obtains r mm' where "expire_item item mm = Some (r, mm')" "missing_wf mm'"
proof (cases "ihaves mm (item_message_id item)")
  case None
  with pre have "missing_wf mm" by (intro stale_item_wf) auto
  with None that show ?thesis by (simp add: expire_item_def)
next
  case (Some e)
  show ?thesis
  proof (cases "entry_id_seqno e = item_entry_seqno item")
    case False
    with pre Some have "missing_wf mm" by (intro stale_item_wf) auto
    with Some False that show ?thesis by (simp add: expire_item_def)
  next
    case True
    show ?thesis
    proof (cases item)
      case (MessageItem t s ihave)
      let ?e = "e\<lparr>owners := owners e - 1, head_round := ihave_round ihave,
                   head_owner := ihave_sender ihave\<rparr>"
      note wf = message_item_wf [OF pre [unfolded MessageItem] refl, of e ?e "next_expiry e"]
      show ?thesis
      proof (rule that)
        show "expire_item item mm = Some (Some ihave, mm\<lparr>timeout_queue :=
            (if owners ?e = 0 then heap_push expiry_time (EntryItem (next_expiry e) s
               (ihave_message_id ihave)) (timeout_queue mm) else timeout_queue mm),
            ihaves := (ihaves mm)(ihave_message_id ihave \<mapsto> ?e)\<rparr>)"
          using wf(1) Some True MessageItem by (simp add: expire_item_def Let_def)
      qed (use wf(2) Some True MessageItem in simp)
    next
      case (EntryItem t s i)
      then have "missing_wf (if owners e = 0 then mm\<lparr>ihaves := (ihaves mm)(i := None)\<rparr> else mm)"
        using entry_item_wf [of t s i mm e] pre Some by simp
      with Some True EntryItem that show ?thesis by (simp add: expire_item_def)
    qed
  qed
qed

text \<open>What an item leaves behind, whatever the state of the queue.\<close>

lemma expire_item_effect:
  assumes "expire_item item mm = Some (r, mm')"
  shows "entry_seqno mm' = entry_seqno mm" "dom (ihaves mm') \<subseteq> dom (ihaves mm)"
    "missing_weight mm' + (if r = None then 0 else 1) \<le> item_weight item + missing_weight mm"
    "\<And>ihave. r = Some ihave \<Longrightarrow> \<exists>t e. item = MessageItem t (entry_id_seqno e) ihave \<and>
       ihaves mm (ihave_message_id ihave) = Some e \<and> ihave_message_id ihave \<in> dom (ihaves mm')"
  using assms
  by (auto simp: expire_item_def Let_def missing_weight_def mset_heap_push
      split: option.splits if_splits queue_item.splits)

text \<open>
  The contract of the loop, in one relation: it never panics, keeps the state well formed,
  removes work whenever it returns a message, returns only an IHAVE that is due and whose
  message is still awaited, and returns nothing only when no timer is due.
\<close>

definition pop_ok ::
  "clock \<Rightarrow> ('n, 'm) missing_messages \<Rightarrow> ('n, 'm) ihave_message option \<Rightarrow>
   ('n, 'm) missing_messages \<Rightarrow> bool" where
  "pop_ok clock mm r mm' \<longleftrightarrow>
     missing_wf mm' \<and> entry_seqno mm' = entry_seqno mm \<and> dom (ihaves mm') \<subseteq> dom (ihaves mm) \<and>
     missing_weight mm' + (if r = None then 0 else 1) \<le> missing_weight mm \<and>
     (\<forall>ihave. r = Some ihave \<longrightarrow> ihave_message_id ihave \<in> dom (ihaves mm') \<and>
        (\<exists>t s. MessageItem t s ihave \<in> set (timeout_queue mm) \<and> t \<le> clock_now clock)) \<and>
     (r = None \<longrightarrow> (\<forall>x \<in> set (timeout_queue mm'). clock_now clock < expiry_time x))"

lemma pop_ok_idle:
  assumes wf: "missing_wf mm"
    and late: "\<And>x. heap_peek (timeout_queue mm) = Some x \<Longrightarrow> \<not> expiry_time x \<le> clock_now clock"
  shows "pop_ok clock mm None mm"
proof -
  have "clock_now clock < expiry_time x" if x: "x \<in> set (timeout_queue mm)" for x
  proof -
    obtain y where y: "heap_peek (timeout_queue mm) = Some y"
      using x timeouts.peek_None [of "timeout_queue mm"] by fastforce
    with late have "clock_now clock < expiry_time y" by (simp add: not_le)
    then show ?thesis
      using timeouts.peek_late_all_late [OF _ y, of "clock_now clock" x] wf x
      by (simp add: missing_wf_def)
  qed
  with wf show ?thesis by (simp add: pop_ok_def)
qed

lemma heap_pop_weight:
  "heap_pop expiry_time (timeout_queue mm) = Some (item, q) \<Longrightarrow>
     missing_weight mm = item_weight item + missing_weight (mm\<lparr>timeout_queue := q\<rparr>)"
  by (drule timeouts.items_pop) (simp add: missing_weight_def)

lemma pop_ok_step:
  assumes pop: "heap_pop expiry_time (timeout_queue mm) = Some (item, q)"
    and due: "expiry_time item \<le> clock_now clock"
    and item: "expire_item item (mm\<lparr>timeout_queue := q\<rparr>) = Some (Some ihave, mm')"
    and wf': "missing_wf mm'"
  shows "pop_ok clock mm (Some ihave) mm'"
proof -
  have q: "mset (timeout_queue mm) = add_mset item (mset q)" using pop by (rule timeouts.items_pop)
  then have "item \<in> set (timeout_queue mm)" by (metis set_mset_mset union_single_eq_member)
  moreover note heap_pop_weight [OF pop]
  ultimately show ?thesis
    using expire_item_effect [OF item] wf' due by (fastforce simp: pop_ok_def)
qed

lemma pop_ok_continue:
  assumes pop: "heap_pop expiry_time (timeout_queue mm) = Some (item, q)"
    and item: "expire_item item (mm\<lparr>timeout_queue := q\<rparr>) = Some (None, mm1)"
    and rest: "pop_ok clock mm1 r mm'"
  shows "pop_ok clock mm r mm'"
proof -
  have q: "mset (timeout_queue mm) = add_mset item (mset q)" using pop by (rule timeouts.items_pop)
  have sub: "set (timeout_queue mm1) \<subseteq> set (timeout_queue mm)"
    using expire_item_continue_queue [OF item] arg_cong [OF q, of set_mset] by auto
  moreover note heap_pop_weight [OF pop]
  moreover have "missing_weight mm1 \<le> missing_weight mm"
    using expire_item_effect(3) [OF item] calculation(2) by simp
  moreover have "entry_seqno mm1 = entry_seqno mm" "dom (ihaves mm1) \<subseteq> dom (ihaves mm)"
    using expire_item_effect(1,2) [OF item] by simp_all
  ultimately show ?thesis
    using rest unfolding pop_ok_def
    by (intro conjI) (simp, simp, blast, simp, blast, blast)
qed

lemma pop_expired_ok:
  "missing_wf mm \<Longrightarrow> \<exists>r mm'. pop_expired clock mm = Some (r, mm') \<and> pop_ok clock mm r mm'"
proof (induction clock mm rule: pop_expired.induct)
  case (1 clock mm)
  note step = pop_expired.simps [of clock mm]
  show ?case
  proof (cases "\<exists>x. heap_peek (timeout_queue mm) = Some x \<and> expiry_time x \<le> clock_now clock")
    case False
    then have "pop_expired clock mm = Some (None, mm)" by (subst step) (auto split: option.split)
    moreover have "pop_ok clock mm None mm" using "1.prems" False by (intro pop_ok_idle) auto
    ultimately show ?thesis by blast
  next
    case True
    then obtain x where x: "heap_peek (timeout_queue mm) = Some x" "expiry_time x \<le> clock_now clock"
      by blast
    then obtain q where pop: "heap_pop expiry_time (timeout_queue mm) = Some (x, q)"
      by (metis option.exhaust option.inject prod.exhaust timeouts.peek_None timeouts.pop_None
          timeouts.pop_peek option.distinct(1))
    obtain r mm1 where item: "expire_item x (mm\<lparr>timeout_queue := q\<rparr>) = Some (r, mm1)"
      and wf1: "missing_wf mm1"
      using heap_pop_before_item [OF "1.prems" pop] by (rule expire_item_total)
    have run: "pop_expired clock mm =
        (case r of None \<Rightarrow> pop_expired clock mm1 | Some ihave \<Rightarrow> Some (Some ihave, mm1))"
      using x pop item by (subst step) (simp split: option.split)
    show ?thesis
    proof (cases r)
      case None
      then obtain r' mm' where "pop_expired clock mm1 = Some (r', mm')" "pop_ok clock mm1 r' mm'"
        using "1.IH" [OF x(1) _ pop refl item] wf1 x(2) by auto
      then show ?thesis using run None pop_ok_continue [OF pop, of mm1] item by auto
    next
      case (Some ihave)
      then show ?thesis using run pop_ok_step [OF pop x(2)] item wf1 by auto
    qed
  qed
qed

text \<open>Every awaited message has a timer in the queue.\<close>

lemma waiting_has_timer:
  assumes "missing_wf mm" and "i \<in> dom (ihaves mm)"
  shows "\<exists>x \<in> set (timeout_queue mm). item_message_id x = i"
proof -
  from assms(2) obtain e where e: "ihaves mm i = Some e" by auto
  have ok: "timers_ok (mset (timeout_queue mm)) i e" using assms(1) e by (simp add: missing_wf_def)
  have "\<exists>x \<in> set (timeout_queue mm). for_message i (entry_id_seqno e) x \<or> for_entry i (entry_id_seqno e) x"
  proof (cases "owners e = 0")
    case True
    with ok have "filter_mset (for_entry i (entry_id_seqno e)) (mset (timeout_queue mm)) \<noteq> {#}"
      by (simp add: timers_ok_def)
    then show ?thesis by (auto simp: filter_mset_eq_conv)
  next
    case False
    with ok have "filter_mset (for_message i (entry_id_seqno e)) (mset (timeout_queue mm)) \<noteq> {#}"
      by (metis size_empty timers_ok_def)
    then show ?thesis by (auto simp: filter_mset_eq_conv)
  qed
  moreover have "item_message_id x = i" if "for_message i k x \<or> for_entry i k x" for k and x :: "('a, 'b) queue_item"
    using that by (cases x) auto
  ultimately show ?thesis by blast
qed

end
