(* ===== verification/Plumtree_Node.thy ===== *)
theory Plumtree_Node
  imports Plumtree_Missing
begin

text \<open>
  The Plumtree node (\<^verbatim>\<open>plumtree/src/node.rs\<close>): its state and its operations in the order of
  the source.  Peer sets are hash sets and the stored messages a hash map; the loops over them
  take the iteration order as an argument.  The outer option is a panic.
\<close>

section \<open>State\<close>

record pt_options =
  ihave_timeout :: duration
  optimization_threshold :: u16

definition default_pt_options :: pt_options where
  "default_pt_options = \<lparr>ihave_timeout = from_millis 500, optimization_threshold = 2\<rparr>"

record ('n, 'm, 'p) pt_node =
  pt_id :: 'n
  pt_opts :: pt_options
  eager_push_peers :: "'n set"
  lazy_push_peers :: "'n set"
  messages :: "'m \<rightharpoonup> 'p"
  missings :: "('n, 'm) missing_messages"
  pt_actions :: "('n, 'm, 'p) action_queue"
  pt_clock :: clock

definition pt_with_options :: "'n \<Rightarrow> pt_options \<Rightarrow> ('n, 'm, 'p) pt_node" where
  "pt_with_options node_id options =
     \<lparr>pt_id = node_id, pt_opts = options, eager_push_peers = {}, lazy_push_peers = {},
      messages = Map.empty, missings = missing_new, pt_actions = action_queue_new,
      pt_clock = clock_new\<rparr>"

definition pt_new :: "'n \<Rightarrow> ('n, 'm, 'p) pt_node" where
  "pt_new node_id = pt_with_options node_id default_pt_options"

text \<open>The iteration orders of the two hashed collections.\<close>

record ('n, 'm) iter_ops =
  peer_iter :: "'n set \<Rightarrow> 'n list"
  key_iter :: "'m set \<Rightarrow> 'm list"

definition iter_ops_ok :: "('n, 'm) iter_ops \<Rightarrow> bool" where
  "iter_ops_ok I \<longleftrightarrow> iter_ok (peer_iter I) \<and> iter_ok (key_iter I)"

definition sorted_iter :: "('n::linorder, 'm::linorder) iter_ops" where
  "sorted_iter = \<lparr>peer_iter = sorted_list_of_set, key_iter = sorted_list_of_set\<rparr>"

lemma sorted_iter_ok [simp]: "iter_ops_ok sorted_iter"
  by (simp add: iter_ops_ok_def sorted_iter_def)

section \<open>Internal operations\<close>

definition is_known_node :: "'n \<Rightarrow> ('n, 'm, 'p) pt_node \<Rightarrow> bool" where
  "is_known_node node_id n \<longleftrightarrow> node_id \<in> eager_push_peers n \<or> node_id \<in> lazy_push_peers n"

definition pt_send ::
  "'n \<Rightarrow> ('n, 'm, 'p) pt_message \<Rightarrow> ('n, 'm, 'p) pt_node \<Rightarrow> ('n, 'm, 'p) pt_node" where
  "pt_send destination m n = n\<lparr>pt_actions := queue_send destination m (pt_actions n)\<rparr>"

definition pt_deliver :: "('m, 'p) app_message \<Rightarrow> ('n, 'm, 'p) pt_node \<Rightarrow> ('n, 'm, 'p) pt_node" where
  "pt_deliver m n = n\<lparr>pt_actions := queue_deliver m (pt_actions n)\<rparr>"

text \<open>Putting a peer into one of the two sets and out of the other.\<close>

definition make_eager :: "'n \<Rightarrow> ('n, 'm, 'p) pt_node \<Rightarrow> ('n, 'm, 'p) pt_node" where
  "make_eager p n = n\<lparr>eager_push_peers := insert p (eager_push_peers n),
                     lazy_push_peers := lazy_push_peers n - {p}\<rparr>"

definition make_lazy :: "'n \<Rightarrow> ('n, 'm, 'p) pt_node \<Rightarrow> ('n, 'm, 'p) pt_node" where
  "make_lazy p n = n\<lparr>eager_push_peers := eager_push_peers n - {p},
                    lazy_push_peers := insert p (lazy_push_peers n)\<rparr>"

definition eager_push ::
  "('n, 'm) iter_ops \<Rightarrow> ('n, 'm, 'p) gossip_message \<Rightarrow> ('n, 'm, 'p) pt_node \<Rightarrow> ('n, 'm, 'p) pt_node" where
  "eager_push I gossip n =
     (let round = saturating_add (gossip_round gossip) 1 in
      fold (\<lambda>peer. pt_send peer (Gossip (gossip_new (pt_id n) (gossip_message gossip) round)))
        (filter (\<lambda>p. p \<noteq> gossip_sender gossip) (peer_iter I (eager_push_peers n))) n)"

definition lazy_push ::
  "('n, 'm) iter_ops \<Rightarrow> ('n, 'm, 'p) gossip_message \<Rightarrow> ('n, 'm, 'p) pt_node \<Rightarrow> ('n, 'm, 'p) pt_node" where
  "lazy_push I gossip n =
     (let round = saturating_add (gossip_round gossip) 1;
          ihave = ihave_new (pt_id n) (msg_id (gossip_message gossip)) round True in
      fold (\<lambda>peer. pt_send peer (Ihave ihave))
        (filter (\<lambda>p. p \<noteq> gossip_sender gossip) (peer_iter I (lazy_push_peers n))) n)"

definition optimize :: "('n, 'm, 'p) gossip_message \<Rightarrow> ('n, 'm, 'p) pt_node \<Rightarrow> ('n, 'm, 'p) pt_node" where
  "optimize gossip n =
     (case get_ihave (msg_id (gossip_message gossip)) (missings n) of
        None \<Rightarrow> n
      | Some (round, owner) \<Rightarrow>
          (case checked_sub (gossip_round gossip) round of
             None \<Rightarrow> n
           | Some d \<Rightarrow>
               if optimization_threshold (pt_opts n) \<le> d
               then pt_send (gossip_sender gossip) (Prune (prune_new (pt_id n)))
                      (pt_send owner (Graft (graft_new (pt_id n) None round)) n)
               else n))"

definition send_graft ::
  "('n, 'm) ihave_message \<Rightarrow> ('n, 'm, 'p) pt_node \<Rightarrow> bool \<times> ('n, 'm, 'p) pt_node" where
  "send_graft ihave n =
     (if \<not> is_known_node (ihave_sender ihave) n then (False, n)
      else (True, pt_send (ihave_sender ihave)
                    (Graft (graft_new (pt_id n) (Some (ihave_message_id ihave)) (ihave_round ihave)))
                    (make_eager (ihave_sender ihave) n)))"

lemma send_graft_missings [simp]: "missings (snd (send_graft ihave n)) = missings n"
  by (simp add: send_graft_def pt_send_def make_eager_def)

section \<open>Expiration loops\<close>

lemma pop_expired_returns:
  assumes "pop_expired clock mm = Some (Some ihave, mm')"
  obtains x item q r mm1 where "heap_peek (timeout_queue mm) = Some x"
    "expiry_time x \<le> clock_now clock"
    "heap_pop expiry_time (timeout_queue mm) = Some (item, q)"
    "expire_item item (mm\<lparr>timeout_queue := q\<rparr>) = Some (r, mm1)"
    "case r of None \<Rightarrow> pop_expired clock mm1 = Some (Some ihave, mm') | Some _ \<Rightarrow> mm1 = mm'"
  using assms pop_expired.simps [of clock mm]
  by (simp split: option.splits if_splits prod.splits)

lemma pop_expired_weight:
  "pop_expired clock mm = Some (Some ihave, mm') \<Longrightarrow> missing_weight mm' < missing_weight mm"
proof (induction clock mm rule: pop_expired.induct)
  case (1 clock mm)
  from "1.prems" show ?case
  proof (cases rule: pop_expired_returns)
    case (1 x item q r mm1)
    then have "missing_weight mm1 + (if r = None then 0 else 1) \<le> missing_weight mm"
      using expire_item_effect(3) [of item "mm\<lparr>timeout_queue := q\<rparr>" r mm1]
      by (simp add: heap_pop_weight)
    then show ?thesis using "1.IH" [OF 1(1) _ 1(3) refl 1(4)] 1 by (cases r) auto
  qed
qed

function handle_expiration :: "('n, 'm, 'p) pt_node \<Rightarrow> ('n, 'm, 'p) pt_node option" where
  "handle_expiration n =
     (case pop_expired (pt_clock n) (missings n) of
        None \<Rightarrow> None
      | Some (None, mm) \<Rightarrow> Some (n\<lparr>missings := mm\<rparr>)
      | Some (Some ihave, mm) \<Rightarrow> handle_expiration (snd (send_graft ihave (n\<lparr>missings := mm\<rparr>))))"
  by pat_completeness auto
termination
  by (relation "measure (\<lambda>n. missing_weight (missings n))") (auto dest: pop_expired_weight)

function drain_until_graft :: "('n, 'm, 'p) pt_node \<Rightarrow> ('n, 'm, 'p) pt_node option" where
  "drain_until_graft n =
     (case pop_expired clock_max (missings n) of
        None \<Rightarrow> None
      | Some (None, mm) \<Rightarrow> Some (n\<lparr>missings := mm\<rparr>)
      | Some (Some ihave, mm) \<Rightarrow>
          (case send_graft ihave (n\<lparr>missings := mm\<rparr>) of
             (True, n') \<Rightarrow> Some n'
           | (False, n') \<Rightarrow> drain_until_graft n'))"
  by pat_completeness auto
termination
  by (relation "measure (\<lambda>n. missing_weight (missings n))")
    (auto dest!: pop_expired_weight simp: send_graft_def split: if_splits)

declare handle_expiration.simps [simp del] drain_until_graft.simps [simp del]

section \<open>Handlers\<close>

definition handle_gossip ::
  "('n, 'm) iter_ops \<Rightarrow> ('n, 'm, 'p) gossip_message \<Rightarrow> ('n, 'm, 'p) pt_node \<Rightarrow> ('n, 'm, 'p) pt_node" where
  "handle_gossip I gossip n =
     (if msg_id (gossip_message gossip) \<in> dom (messages n)
      then pt_send (gossip_sender gossip) (Prune (prune_new (pt_id n)))
             (make_lazy (gossip_sender gossip) n)
      else
        let n = pt_deliver (gossip_message gossip) n;
            n = eager_push I gossip n;
            n = lazy_push I gossip n;
            n = make_eager (gossip_sender gossip) n;
            n = optimize gossip n;
            n = n\<lparr>missings := missing_remove (msg_id (gossip_message gossip)) (missings n)\<rparr>
        in n\<lparr>messages := (messages n)(msg_id (gossip_message gossip) \<mapsto>
                            msg_payload (gossip_message gossip))\<rparr>)"

definition handle_ihave ::
  "('n, 'm) ihave_message \<Rightarrow> ('n, 'm, 'p) pt_node \<Rightarrow> ('n, 'm, 'p) pt_node option" where
  "handle_ihave ihave n =
     (if ihave_message_id ihave \<in> dom (messages n) then Some n
      else
        let ihave = (if eager_push_peers n = {} then ihave\<lparr>ihave_realtime := True\<rparr> else ihave)
        in map_option (\<lambda>mm. n\<lparr>missings := mm\<rparr>)
             (missing_push ihave (pt_clock n) (ihave_timeout (pt_opts n)) (missings n)))"

definition handle_graft ::
  "('n, 'm) graft_message \<Rightarrow> ('n, 'm, 'p) pt_node \<Rightarrow> ('n, 'm, 'p) pt_node" where
  "handle_graft graft n =
     (let n = make_eager (graft_sender graft) n in
      case graft_message_id graft of
        None \<Rightarrow> n
      | Some message_id \<Rightarrow>
          (case messages n message_id of
             None \<Rightarrow> n
           | Some payload \<Rightarrow>
               pt_send (graft_sender graft)
                 (Gossip (gossip_new (pt_id n) \<lparr>msg_id = message_id, msg_payload = payload\<rparr>
                            (graft_round graft))) n))"

definition handle_prune :: "'n prune_message \<Rightarrow> ('n, 'm, 'p) pt_node \<Rightarrow> ('n, 'm, 'p) pt_node" where
  "handle_prune prune n = make_lazy (prune_sender prune) n"

section \<open>Public operations\<close>

definition broadcast_message ::
  "('n, 'm) iter_ops \<Rightarrow> ('m, 'p) app_message \<Rightarrow> ('n, 'm, 'p) pt_node \<Rightarrow> ('n, 'm, 'p) pt_node" where
  "broadcast_message I message n =
     (let n = pt_deliver message n;
          gossip = gossip_new (pt_id n) message 0;
          n = eager_push I gossip n;
          n = lazy_push I gossip n
      in n\<lparr>messages := (messages n)(msg_id message \<mapsto> msg_payload message)\<rparr>)"

definition pt_waiting_messages :: "('n, 'm, 'p) pt_node \<Rightarrow> nat" where
  "pt_waiting_messages n = missing_waiting (missings n)"

definition forget_message :: "'m \<Rightarrow> ('n, 'm, 'p) pt_node \<Rightarrow> bool \<times> ('n, 'm, 'p) pt_node" where
  "forget_message i n = (i \<in> dom (messages n), n\<lparr>messages := (messages n)(i := None)\<rparr>)"

definition pt_poll_action ::
  "('n, 'm, 'p) pt_node \<Rightarrow> (('n, 'm, 'p) pt_action option \<times> ('n, 'm, 'p) pt_node) option" where
  "pt_poll_action n = do {
     n \<leftarrow> handle_expiration n;
     let (action, q) = queue_pop (pt_actions n);
     Some (action, n\<lparr>pt_actions := q\<rparr>)
   }"

definition pt_handle_protocol_message ::
  "('n, 'm) iter_ops \<Rightarrow> ('n, 'm, 'p) pt_message \<Rightarrow> ('n, 'm, 'p) pt_node \<Rightarrow>
   (bool \<times> ('n, 'm, 'p) pt_node) option" where
  "pt_handle_protocol_message I m n =
     (if \<not> is_known_node (pt_sender m) n then Some (False, n)
      else map_option (Pair True)
        (case m of
           Gossip g \<Rightarrow> Some (handle_gossip I g n)
         | Ihave i \<Rightarrow> handle_ihave i n
         | Graft g \<Rightarrow> Some (handle_graft g n)
         | Prune p \<Rightarrow> Some (handle_prune p n)))"

definition handle_neighbor_up ::
  "('n, 'm) iter_ops \<Rightarrow> 'n \<Rightarrow> ('n, 'm, 'p) pt_node \<Rightarrow> ('n, 'm, 'p) pt_node" where
  "handle_neighbor_up I p n =
     (if is_known_node p n \<or> pt_id n = p then n
      else
        let n = fold (\<lambda>i. pt_send p (Ihave (ihave_new (pt_id n) i 0 False)))
                  (key_iter I (dom (messages n))) n
        in n\<lparr>eager_push_peers := insert p (eager_push_peers n)\<rparr>)"

definition handle_neighbor_down :: "'n \<Rightarrow> ('n, 'm, 'p) pt_node \<Rightarrow> ('n, 'm, 'p) pt_node option" where
  "handle_neighbor_down p n =
     (if \<not> is_known_node p n then Some n
      else
        let n = n\<lparr>eager_push_peers := eager_push_peers n - {p},
                  lazy_push_peers := lazy_push_peers n - {p}\<rparr>
        in if eager_push_peers n = {} then drain_until_graft n else Some n)"

text \<open>\<^verbatim>\<open>clock_mut().tick(d)\<close>, the way a driver advances the node's time.\<close>

definition pt_tick :: "duration \<Rightarrow> ('n, 'm, 'p) pt_node \<Rightarrow> ('n, 'm, 'p) pt_node option" where
  "pt_tick d n = map_option (\<lambda>c. n\<lparr>pt_clock := c\<rparr>) (clock_tick (pt_clock n) d)"

definition pt_next_expiry_time :: "('n, 'm, 'p) pt_node \<Rightarrow> node_time option" where
  "pt_next_expiry_time n = missing_next_expiry_time (missings n)"

end
