(* ===== verification/Plumtree_Inv.thy ===== *)
theory Plumtree_Inv
  imports Plumtree_Node
begin

text \<open>
  The invariant of a Plumtree node and what every operation keeps of it: the two peer sets are
  disjoint and leave the node itself out, the timers are well formed, and the actions of an
  operation are added at the end of the queue.
\<close>

section \<open>Invariant\<close>

definition known_peers :: "('n, 'm, 'p) pt_node \<Rightarrow> 'n set" where
  "known_peers n = eager_push_peers n \<union> lazy_push_peers n"

definition pt_wf :: "('n, 'm, 'p) pt_node \<Rightarrow> bool" where
  "pt_wf n \<longleftrightarrow> finite (known_peers n) \<and> eager_push_peers n \<inter> lazy_push_peers n = {} \<and>
     pt_id n \<notin> known_peers n \<and> finite (dom (messages n)) \<and> missing_wf (missings n)"

lemma is_known_node_iff: "is_known_node p n \<longleftrightarrow> p \<in> known_peers n"
  by (simp add: is_known_node_def known_peers_def)

lemma pt_actions_update [simp]:
  "known_peers (n\<lparr>pt_actions := as\<rparr>) = known_peers n" "pt_wf (n\<lparr>pt_actions := as\<rparr>) = pt_wf n"
  by (simp_all add: known_peers_def pt_wf_def)

lemma pt_with_options_wf [simp]: "pt_wf (pt_with_options p opts)"
  by (simp add: pt_wf_def pt_with_options_def known_peers_def)

lemma pt_wf_finite: "pt_wf n \<Longrightarrow> finite (eager_push_peers n) \<and> finite (lazy_push_peers n)"
  by (simp add: pt_wf_def known_peers_def)

section \<open>What the queue operations do\<close>

lemmas queue_defs = pt_send_def pt_deliver_def queue_send_def queue_deliver_def

lemma fold_pt_send:
  "fold (\<lambda>x. pt_send (d x) (m x)) xs n =
     n\<lparr>pt_actions := pt_actions n @ map (\<lambda>x. PtSend (d x) (m x)) xs\<rparr>"
  by (induction xs arbitrary: n) (simp_all add: queue_defs)

definition gossips :: "('n, 'm) iter_ops \<Rightarrow> ('n, 'm, 'p) gossip_message \<Rightarrow> 'n \<Rightarrow> 'n set \<Rightarrow>
    ('n, 'm, 'p) pt_action list" where
  "gossips I g self peers =
     map (\<lambda>p. PtSend p (Gossip (gossip_new self (gossip_message g) (saturating_add (gossip_round g) 1))))
       (filter (\<lambda>p. p \<noteq> gossip_sender g) (peer_iter I peers))"

definition announcements :: "('n, 'm) iter_ops \<Rightarrow> ('n, 'm, 'p) gossip_message \<Rightarrow> 'n \<Rightarrow> 'n set \<Rightarrow>
    ('n, 'm, 'p) pt_action list" where
  "announcements I g self peers =
     map (\<lambda>p. PtSend p (Ihave (ihave_new self (msg_id (gossip_message g))
                                 (saturating_add (gossip_round g) 1) True)))
       (filter (\<lambda>p. p \<noteq> gossip_sender g) (peer_iter I peers))"

definition optimizations :: "('n, 'm, 'p) gossip_message \<Rightarrow> ('n, 'm, 'p) pt_node \<Rightarrow>
    ('n, 'm, 'p) pt_action list" where
  "optimizations g n =
     (case get_ihave (msg_id (gossip_message g)) (missings n) of
        None \<Rightarrow> []
      | Some (round, owner) \<Rightarrow>
          if round \<le> gossip_round g \<and> optimization_threshold (pt_opts n) \<le> gossip_round g - round
          then [PtSend owner (Graft (graft_new (pt_id n) None round)),
                PtSend (gossip_sender g) (Prune (prune_new (pt_id n)))]
          else [])"

lemma optimizations_update [simp]:
  "optimizations g (n\<lparr>pt_actions := as\<rparr>) = optimizations g n"
  "optimizations g (n\<lparr>eager_push_peers := E\<rparr>) = optimizations g n"
  "optimizations g (n\<lparr>lazy_push_peers := L\<rparr>) = optimizations g n"
  by (auto simp: optimizations_def split: option.split)

lemma eager_push_eq:
  "eager_push I g n = n\<lparr>pt_actions := pt_actions n @ gossips I g (pt_id n) (eager_push_peers n)\<rparr>"
  by (simp add: eager_push_def fold_pt_send gossips_def)

lemma lazy_push_eq:
  "lazy_push I g n = n\<lparr>pt_actions := pt_actions n @ announcements I g (pt_id n) (lazy_push_peers n)\<rparr>"
  by (simp add: lazy_push_def fold_pt_send announcements_def Let_def)

lemma optimize_eq: "optimize g n = n\<lparr>pt_actions := pt_actions n @ optimizations g n\<rparr>"
  by (auto simp: optimize_def optimizations_def queue_defs checked_sub_def split: option.splits)

text \<open>The two branches of a received gossip and a broadcast, with every field spelt out.\<close>

lemma handle_gossip_duplicate:
  "msg_id (gossip_message g) \<in> dom (messages n) \<Longrightarrow>
   handle_gossip I g n =
     n\<lparr>eager_push_peers := eager_push_peers n - {gossip_sender g},
       lazy_push_peers := insert (gossip_sender g) (lazy_push_peers n),
       pt_actions := pt_actions n @ [PtSend (gossip_sender g) (Prune (prune_new (pt_id n)))]\<rparr>"
  by (simp add: handle_gossip_def make_lazy_def queue_defs)

lemma handle_gossip_fresh:
  "msg_id (gossip_message g) \<notin> dom (messages n) \<Longrightarrow>
   handle_gossip I g n =
     n\<lparr>eager_push_peers := insert (gossip_sender g) (eager_push_peers n),
       lazy_push_peers := lazy_push_peers n - {gossip_sender g},
       missings := missing_remove (msg_id (gossip_message g)) (missings n),
       messages := (messages n)(msg_id (gossip_message g) \<mapsto> msg_payload (gossip_message g)),
       pt_actions := pt_actions n @ Deliver (gossip_message g) #
         gossips I g (pt_id n) (eager_push_peers n) @
         announcements I g (pt_id n) (lazy_push_peers n) @ optimizations g n\<rparr>"
  by (simp add: handle_gossip_def eager_push_eq lazy_push_eq optimize_eq queue_defs make_eager_def
      Let_def)

lemma broadcast_message_eq:
  "broadcast_message I m n =
     n\<lparr>messages := (messages n)(msg_id m \<mapsto> msg_payload m),
       pt_actions := pt_actions n @ Deliver m #
         gossips I (gossip_new (pt_id n) m 0) (pt_id n) (eager_push_peers n) @
         announcements I (gossip_new (pt_id n) m 0) (pt_id n) (lazy_push_peers n)\<rparr>"
  by (simp add: broadcast_message_def eager_push_eq lazy_push_eq queue_defs Let_def)

section \<open>Contract of an operation\<close>

text \<open>
  The identifier, the options and the clock stay; the stored messages stay but for those the
  operation names; the actions grow at the end.
\<close>

definition pt_ext :: "('n, 'm, 'p) pt_node \<Rightarrow> ('n, 'm, 'p) pt_node \<Rightarrow> bool" where
  "pt_ext n n' \<longleftrightarrow> pt_id n' = pt_id n \<and> pt_opts n' = pt_opts n \<and> pt_clock n' = pt_clock n \<and>
     (\<exists>as. pt_actions n' = pt_actions n @ as)"

lemma pt_ext_refl [simp]: "pt_ext n n"
  by (simp add: pt_ext_def)

lemma pt_ext_trans: "pt_ext a b \<Longrightarrow> pt_ext b c \<Longrightarrow> pt_ext a c"
  by (auto simp: pt_ext_def)

lemma make_eager_known: "p \<in> known_peers n \<Longrightarrow> known_peers (make_eager p n) = known_peers n"
  by (auto simp: make_eager_def known_peers_def)

lemma send_graft_ok:
  assumes "pt_wf n" "send_graft ihave n = (b, n')"
  shows "pt_wf n'" "pt_ext n n'" "known_peers n' = known_peers n" "messages n' = messages n"
    "missings n' = missings n" "b \<longleftrightarrow> ihave_sender ihave \<in> known_peers n"
    "eager_push_peers n' = (if b then insert (ihave_sender ihave) (eager_push_peers n)
                            else eager_push_peers n)"
  using assms
  by (auto simp: send_graft_def is_known_node_iff pt_wf_def pt_ext_def make_eager_def queue_defs
      known_peers_def split: if_splits)

section \<open>Expiration\<close>

text \<open>
  What the two expiration loops may do: ask known peers for messages that are still awaited,
  and make the peers they ask eager.
\<close>

definition graft_request :: "('n, 'm, 'p) pt_node \<Rightarrow> ('n, 'm, 'p) pt_action \<Rightarrow> bool" where
  "graft_request n a \<longleftrightarrow> (\<exists>p i r. a = PtSend p (Graft (graft_new (pt_id n) (Some i) r)) \<and>
     p \<in> known_peers n \<and> i \<in> dom (ihaves (missings n)))"

definition graft_actions :: "('n, 'm, 'p) pt_node \<Rightarrow> ('n, 'm, 'p) pt_node \<Rightarrow> bool" where
  "graft_actions n n' \<longleftrightarrow>
     (\<exists>as. pt_actions n' = pt_actions n @ as \<and> (\<forall>a \<in> set as. graft_request n a))"

definition grafting :: "('n, 'm, 'p) pt_node \<Rightarrow> ('n, 'm, 'p) pt_node \<Rightarrow> bool" where
  "grafting n n' \<longleftrightarrow> pt_wf n' \<and> pt_id n' = pt_id n \<and> pt_opts n' = pt_opts n \<and>
     pt_clock n' = pt_clock n \<and> known_peers n' = known_peers n \<and> messages n' = messages n \<and>
     eager_push_peers n \<subseteq> eager_push_peers n' \<and>
     dom (ihaves (missings n')) \<subseteq> dom (ihaves (missings n)) \<and> graft_actions n n'"

lemma grafting_ext: "grafting n n' \<Longrightarrow> pt_ext n n'"
  by (auto simp: grafting_def pt_ext_def graft_actions_def)

lemma grafting_trans:
  assumes "grafting a b" "grafting b c"
  shows "grafting a c"
proof -
  have "graft_request a x" if "graft_request b x" for x
    using assms(1) that unfolding grafting_def graft_request_def by (metis subsetD)
  moreover obtain as bs where "pt_actions b = pt_actions a @ as" "\<forall>x \<in> set as. graft_request a x"
    "pt_actions c = pt_actions b @ bs" "\<forall>x \<in> set bs. graft_request b x"
    using assms by (auto simp: grafting_def graft_actions_def)
  ultimately have "graft_actions a c"
    unfolding graft_actions_def by (intro exI [of _ "as @ bs"]) auto
  with assms show ?thesis unfolding grafting_def by (elim conjE) (intro conjI; simp; blast)
qed

lemma grafting_missings:
  "pt_wf n \<Longrightarrow> missing_wf mm \<Longrightarrow> dom (ihaves mm) \<subseteq> dom (ihaves (missings n)) \<Longrightarrow>
     grafting n (n\<lparr>missings := mm\<rparr>)"
  by (simp add: grafting_def graft_actions_def pt_wf_def known_peers_def)

lemma grafting_send_graft:
  assumes "pt_wf n" "ihave_message_id ihave \<in> dom (ihaves (missings n))"
  shows "grafting n (snd (send_graft ihave n))"
  using assms
  by (auto simp: send_graft_def grafting_def graft_actions_def is_known_node_iff pt_wf_def make_eager_def queue_defs
      known_peers_def graft_request_def)

lemma grafting_step:
  assumes wf: "pt_wf n" and pop: "pop_ok clock (missings n) (Some ihave) mm"
  shows "grafting n (snd (send_graft ihave (n\<lparr>missings := mm\<rparr>)))"
proof (rule grafting_trans)
  show "grafting n (n\<lparr>missings := mm\<rparr>)" using wf pop by (simp add: grafting_missings pop_ok_def)
  then have "pt_wf (n\<lparr>missings := mm\<rparr>)" by (simp add: grafting_def)
  then show "grafting (n\<lparr>missings := mm\<rparr>) (snd (send_graft ihave (n\<lparr>missings := mm\<rparr>)))"
    using pop by (intro grafting_send_graft) (auto simp: pop_ok_def)
qed

definition no_timer_due :: "node_time \<Rightarrow> ('n, 'm, 'p) pt_node \<Rightarrow> bool" where
  "no_timer_due t n \<longleftrightarrow> (\<forall>x \<in> set (timeout_queue (missings n)). t < expiry_time x)"

lemma handle_expiration_ok:
  "pt_wf n \<Longrightarrow> \<exists>n'. handle_expiration n = Some n' \<and> grafting n n' \<and> no_timer_due (pt_clock n') n'"
proof (induction n rule: handle_expiration.induct)
  case (1 n)
  have "missing_wf (missings n)" using "1.prems" by (simp add: pt_wf_def)
  then obtain r mm where pop: "pop_expired (pt_clock n) (missings n) = Some (r, mm)"
    and ok: "pop_ok (pt_clock n) (missings n) r mm" using pop_expired_ok by blast
  note step = handle_expiration.simps [of n]
  show ?case
  proof (cases r)
    case None
    then have "handle_expiration n = Some (n\<lparr>missings := mm\<rparr>)" using pop by (subst step) simp
    moreover have "grafting n (n\<lparr>missings := mm\<rparr>)"
      using "1.prems" ok by (simp add: grafting_missings pop_ok_def)
    moreover have "no_timer_due (pt_clock n) (n\<lparr>missings := mm\<rparr>)"
      using ok None by (simp add: pop_ok_def no_timer_due_def clock_now_def)
    ultimately show ?thesis by simp
  next
    case (Some ihave)
    let ?n = "snd (send_graft ihave (n\<lparr>missings := mm\<rparr>))"
    have graft: "grafting n ?n" using grafting_step "1.prems" ok Some by simp
    then have "pt_wf ?n" by (simp add: grafting_def)
    then obtain n' where "handle_expiration ?n = Some n'" "grafting ?n n'"
      "no_timer_due (pt_clock n') n'"
      using "1.IH" [OF pop refl] Some by auto
    moreover have "handle_expiration n = handle_expiration ?n" using pop Some by (subst step) simp
    ultimately show ?thesis using grafting_trans [OF graft] by auto
  qed
qed

text \<open>
  The loop run when the last eager peer went down ends with a peer asked and made eager, or
  with nothing awaited any more.
\<close>

lemma nothing_awaited:
  assumes "missing_wf mm" "\<forall>x \<in> set (timeout_queue mm). clock_now clock_max < expiry_time x"
  shows "ihaves mm = Map.empty"
proof -
  have "x \<notin> set (timeout_queue mm)" for x
    using assms by (metis missing_wf_def clock_now_def clock_max_def not_le)
  then have "dom (ihaves mm) = {}" using waiting_has_timer [OF assms(1)] by fastforce
  then show ?thesis by simp
qed

lemma drain_until_graft_ok:
  "pt_wf n \<Longrightarrow> \<exists>n'. drain_until_graft n = Some n' \<and> grafting n n' \<and>
     (eager_push_peers n' \<noteq> {} \<or> ihaves (missings n') = Map.empty)"
proof (induction n rule: drain_until_graft.induct)
  case (1 n)
  have "missing_wf (missings n)" using "1.prems" by (simp add: pt_wf_def)
  then obtain r mm where pop: "pop_expired clock_max (missings n) = Some (r, mm)"
    and ok: "pop_ok clock_max (missings n) r mm" using pop_expired_ok by blast
  note step = drain_until_graft.simps [of n]
  show ?case
  proof (cases r)
    case None
    then have "drain_until_graft n = Some (n\<lparr>missings := mm\<rparr>)" using pop by (subst step) simp
    moreover have "grafting n (n\<lparr>missings := mm\<rparr>)"
      using "1.prems" ok by (simp add: grafting_missings pop_ok_def)
    moreover have "ihaves mm = Map.empty" using ok None by (intro nothing_awaited) (simp_all add: pop_ok_def)
    ultimately show ?thesis by simp
  next
    case (Some ihave)
    obtain b n1 where n1: "send_graft ihave (n\<lparr>missings := mm\<rparr>) = (b, n1)" by fastforce
    have graft: "grafting n n1" using grafting_step [of n clock_max ihave mm] "1.prems" ok Some n1 by simp
    then have wf1: "pt_wf n1" by (simp add: grafting_def)
    show ?thesis
    proof (cases b)
      case True
      have "pt_wf (n\<lparr>missings := mm\<rparr>)"
        using "1.prems" ok by (simp add: pt_wf_def pop_ok_def known_peers_def)
      with n1 True have "eager_push_peers n1 \<noteq> {}" by (simp add: send_graft_ok(7))
      then show ?thesis using pop Some n1 True graft by (subst step) simp
    next
      case False
      then obtain n' where n': "drain_until_graft n1 = Some n'" "grafting n1 n'"
        "eager_push_peers n' \<noteq> {} \<or> ihaves (missings n') = Map.empty"
        using "1.IH" [OF pop refl Some n1 [symmetric]] False wf1 by blast
      moreover have "drain_until_graft n = drain_until_graft n1"
        using pop Some n1 False by (subst step) simp
      ultimately show ?thesis using grafting_trans [OF graft] by auto
    qed
  qed
qed

end
