(* ===== verification/Plumtree_Props.thy ===== *)
theory Plumtree_Props
  imports Plumtree_Inv
begin

text \<open>
  The Plumtree node as a state machine driven by its user: broadcasts, incoming messages,
  neighbour notifications, clock ticks and polls; and the properties of that machine.
\<close>

section \<open>Operations on the peer sets\<close>

text \<open>
  An operation that keeps the invariant and the identifier and changes the set of known peers
  by \<open>peers\<close>, a function of the node's identifier.
\<close>

locale peer_operation =
  fixes op :: "('n, 'm, 'p) pt_node \<Rightarrow> ('n, 'm, 'p) pt_node option"
    and peers :: "'n \<Rightarrow> 'n set \<Rightarrow> 'n set"
  assumes peers_wf: "pt_wf n \<Longrightarrow> op n = Some n' \<Longrightarrow> pt_wf n'"
    and peers_known: "pt_wf n \<Longrightarrow> op n = Some n' \<Longrightarrow> known_peers n' = peers (pt_id n) (known_peers n)"
    and peers_id: "pt_wf n \<Longrightarrow> op n = Some n' \<Longrightarrow> pt_id n' = pt_id n"
begin

lemma keeps_out_self: "pt_wf n \<Longrightarrow> op n = Some n' \<Longrightarrow> pt_id n \<notin> known_peers n'"
  using peers_wf peers_id unfolding pt_wf_def by metis

lemma keeps_partition:
  "pt_wf n \<Longrightarrow> op n = Some n' \<Longrightarrow> p \<in> peers (pt_id n) (known_peers n) \<Longrightarrow>
     (p \<in> eager_push_peers n') \<noteq> (p \<in> lazy_push_peers n')"
  using peers_wf [of n n'] peers_known [of n n'] unfolding pt_wf_def known_peers_def by blast

end

text \<open>An operation that also returns on every well-formed node.\<close>

locale safe_peer_operation = peer_operation +
  assumes peers_returns: "pt_wf n \<Longrightarrow> \<exists>n'. op n = Some n'"

lemmas pt_wf_defs = pt_wf_def known_peers_def

lemma handle_gossip_wf:
  assumes "pt_wf n" "gossip_sender g \<in> known_peers n"
  shows "pt_wf (handle_gossip I g n) \<and> known_peers (handle_gossip I g n) = known_peers n"
  using assms
  by (cases "msg_id (gossip_message g) \<in> dom (messages n)")
    (auto simp: handle_gossip_duplicate handle_gossip_fresh pt_wf_defs missing_remove_wf)

lemma handle_graft_wf:
  assumes "pt_wf n" "graft_sender g \<in> known_peers n"
  shows "pt_wf (handle_graft g n) \<and> known_peers (handle_graft g n) = known_peers n"
  using assms
  by (auto simp: handle_graft_def Let_def make_eager_def queue_defs pt_wf_defs
      split: option.splits)

lemma handle_prune_wf:
  assumes "pt_wf n" "prune_sender p \<in> known_peers n"
  shows "pt_wf (handle_prune p n) \<and> known_peers (handle_prune p n) = known_peers n"
  using assms by (auto simp: handle_prune_def make_lazy_def pt_wf_defs)

lemma handle_ihave_wf:
  assumes "pt_wf n" "handle_ihave ihave n = Some n'"
  shows "pt_wf n' \<and> known_peers n' = known_peers n"
  using assms
  by (auto simp: handle_ihave_def Let_def pt_wf_defs dest: missing_push_wf split: if_splits)

lemma pt_handle_protocol_message_id:
  "pt_handle_protocol_message I m n = Some (b, n') \<Longrightarrow> pt_id n' = pt_id n"
  by (auto simp: pt_handle_protocol_message_def handle_gossip_def eager_push_eq lazy_push_eq
      optimize_eq queue_defs make_eager_def make_lazy_def Let_def handle_ihave_def handle_graft_def
      handle_prune_def split: if_splits pt_message.splits option.splits)

interpretation receiving: peer_operation
  "\<lambda>n. map_option snd (pt_handle_protocol_message I m n)" "\<lambda>_ P. P" for I m
proof
  fix n n' :: "('n, 'm, 'p) pt_node" and I :: "('n, 'm) iter_ops" and m
  assume wf: "pt_wf n" and "map_option snd (pt_handle_protocol_message I m n) = Some n'"
  then obtain b where run: "pt_handle_protocol_message I m n = Some (b, n')" by auto
  then have "pt_wf n' \<and> known_peers n' = known_peers n"
    using wf handle_gossip_wf [OF wf] handle_graft_wf [OF wf] handle_prune_wf [OF wf]
      handle_ihave_wf [OF wf]
    by (auto simp: pt_handle_protocol_message_def is_known_node_iff
        split: if_splits pt_message.splits)
  with run show "pt_wf n'" "known_peers n' = known_peers n" "pt_id n' = pt_id n"
    by (simp_all add: pt_handle_protocol_message_id)
qed

interpretation broadcasting: safe_peer_operation "\<lambda>n. Some (broadcast_message I m n)" "\<lambda>_ P. P"
  for I m
  by unfold_locales (auto simp: broadcast_message_eq pt_wf_defs)

interpretation forgetting: safe_peer_operation "\<lambda>n. Some (snd (forget_message i n))" "\<lambda>_ P. P"
  for i
  by unfold_locales (auto simp: forget_message_def pt_wf_defs)

interpretation ticking: peer_operation "pt_tick d" "\<lambda>_ P. P" for d
  by unfold_locales (auto simp: pt_tick_def pt_wf_defs)

lemma pt_poll_action_expiration:
  "pt_poll_action n = Some (a, n') \<longleftrightarrow>
     (\<exists>n1. handle_expiration n = Some n1 \<and> n' = n1\<lparr>pt_actions := tl (pt_actions n1)\<rparr> \<and>
       a = (case pt_actions n1 of [] \<Rightarrow> None | x # _ \<Rightarrow> Some x))"
  by (auto simp: pt_poll_action_def queue_pop_def bind_eq_Some_conv Let_def split: list.splits)

interpretation polling: safe_peer_operation "\<lambda>n. map_option snd (pt_poll_action n)" "\<lambda>_ P. P"
proof
  fix n :: "('n, 'm, 'p) pt_node"
  assume wf: "pt_wf n"
  then obtain n1 where n1: "handle_expiration n = Some n1" "grafting n n1"
    using handle_expiration_ok by blast
  then show "\<exists>n'. map_option snd (pt_poll_action n) = Some n'"
    by (simp add: pt_poll_action_def split: prod.split)
  fix n' assume "map_option snd (pt_poll_action n) = Some n'"
  with n1 have "n' = n1\<lparr>pt_actions := tl (pt_actions n1)\<rparr>" by (auto simp: pt_poll_action_expiration)
  with n1(2) show "pt_wf n'" "known_peers n' = known_peers n" "pt_id n' = pt_id n"
    by (simp_all add: grafting_def)
qed

lemma handle_neighbor_up_eq:
  "handle_neighbor_up I p n =
     (if p \<in> known_peers n \<or> p = pt_id n then n
      else n\<lparr>eager_push_peers := insert p (eager_push_peers n),
             pt_actions := pt_actions n @
               map (\<lambda>i. PtSend p (Ihave (ihave_new (pt_id n) i 0 False))) (key_iter I (dom (messages n)))\<rparr>)"
  by (auto simp: handle_neighbor_up_def is_known_node_iff fold_pt_send Let_def)

interpretation coming_up: safe_peer_operation "\<lambda>n. Some (handle_neighbor_up I p n)"
  "\<lambda>self P. if p = self then P else insert p P" for I p
  by unfold_locales (auto simp: handle_neighbor_up_eq pt_wf_defs split: if_splits)

lemma handle_neighbor_down_ok:
  assumes "pt_wf n"
  shows "\<exists>n'. handle_neighbor_down p n = Some n' \<and>
    grafting (n\<lparr>eager_push_peers := eager_push_peers n - {p},
                lazy_push_peers := lazy_push_peers n - {p}\<rparr>) n' \<and>
    (p \<in> known_peers n \<longrightarrow> eager_push_peers n' \<noteq> {} \<or> ihaves (missings n') = Map.empty)"
proof -
  let ?n = "n\<lparr>eager_push_peers := eager_push_peers n - {p}, lazy_push_peers := lazy_push_peers n - {p}\<rparr>"
  have wf: "pt_wf ?n" using assms by (auto simp: pt_wf_defs)
  then have refl: "grafting ?n ?n" by (simp add: grafting_def graft_actions_def)
  show ?thesis
  proof (cases "p \<in> known_peers n")
    case False
    then have "?n = n" by (simp add: known_peers_def)
    with False refl show ?thesis by (simp add: handle_neighbor_down_def is_known_node_iff)
  next
    case True
    then show ?thesis using drain_until_graft_ok [OF wf] refl
      by (auto simp: handle_neighbor_down_def is_known_node_iff Let_def)
  qed
qed

interpretation going_down: safe_peer_operation "handle_neighbor_down p" "\<lambda>_ P. P - {p}" for p
proof
  fix n :: "('n, 'm, 'p) pt_node" and p
  assume wf: "pt_wf n"
  note ok = handle_neighbor_down_ok [OF wf, of p]
  then show "\<exists>n'. handle_neighbor_down p n = Some n'" by blast
  fix n' assume "handle_neighbor_down p n = Some n'"
  with ok show "pt_wf n'" "known_peers n' = known_peers n - {p}" "pt_id n' = pt_id n"
    by (auto simp: grafting_def) (auto simp: known_peers_def)
qed

section \<open>Runs\<close>

datatype ('n, 'm, 'p) pt_input =
    PtBroadcast "('m, 'p) app_message"
  | PtForget 'm
  | PtPoll
  | PtReceive "('n, 'm, 'p) pt_message"
  | PtUp 'n
  | PtDown 'n
  | PtTick duration

text \<open>One input: the actions it polls (at most one) and the node after it.\<close>

fun pt_apply ::
  "('n, 'm) iter_ops \<Rightarrow> ('n, 'm, 'p) pt_input \<Rightarrow> ('n, 'm, 'p) pt_node \<Rightarrow>
   (('n, 'm, 'p) pt_action list \<times> ('n, 'm, 'p) pt_node) option" where
  "pt_apply I (PtBroadcast m) n = Some ([], broadcast_message I m n)"
| "pt_apply I (PtForget i) n = Some ([], snd (forget_message i n))"
| "pt_apply I PtPoll n =
     map_option (\<lambda>(a, n'). (case a of None \<Rightarrow> [] | Some x \<Rightarrow> [x], n')) (pt_poll_action n)"
| "pt_apply I (PtReceive m) n = map_option (\<lambda>(b, n'). ([], n')) (pt_handle_protocol_message I m n)"
| "pt_apply I (PtUp p) n = Some ([], handle_neighbor_up I p n)"
| "pt_apply I (PtDown p) n = map_option (Pair []) (handle_neighbor_down p n)"
| "pt_apply I (PtTick d) n = map_option (Pair []) (pt_tick d n)"

fun pt_run ::
  "('n, 'm) iter_ops \<Rightarrow> ('n, 'm, 'p) pt_input list \<Rightarrow> ('n, 'm, 'p) pt_node \<Rightarrow>
   (('n, 'm, 'p) pt_action list \<times> ('n, 'm, 'p) pt_node) option" where
  "pt_run I [] n = Some ([], n)"
| "pt_run I (x # xs) n = do {
     (out, n) \<leftarrow> pt_apply I x n;
     (out', n) \<leftarrow> pt_run I xs n;
     Some (out @ out', n)
   }"

text \<open>The set of known peers, as the neighbour notifications alone determine it.\<close>

fun peers_after :: "('n, 'm, 'p) pt_input \<Rightarrow> 'n \<Rightarrow> 'n set \<Rightarrow> 'n set" where
  "peers_after (PtUp p) self P = (if p = self then P else insert p P)"
| "peers_after (PtDown p) self P = P - {p}"
| "peers_after _ self P = P"

interpretation pt_input: peer_operation "\<lambda>n. map_option snd (pt_apply I x n)" "peers_after x"
  for I x
proof
  fix n n' :: "('n, 'm, 'p) pt_node" and I :: "('n, 'm) iter_ops" and x
  assume wf: "pt_wf n" and "map_option snd (pt_apply I x n) = Some n'"
  then obtain out where run: "pt_apply I x n = Some (out, n')" by auto
  have "pt_wf n' \<and> known_peers n' = peers_after x (pt_id n) (known_peers n) \<and> pt_id n' = pt_id n"
  proof (cases x)
    case (PtBroadcast m)
    with run wf show ?thesis
      using broadcasting.peers_wf [OF wf refl] broadcasting.peers_known [OF wf refl]
        broadcasting.peers_id [OF wf refl] by auto
  next
    case (PtForget i)
    with run wf show ?thesis
      using forgetting.peers_wf [OF wf refl] forgetting.peers_known [OF wf refl]
        forgetting.peers_id [OF wf refl] by auto
  next
    case PtPoll
    with run have step: "map_option snd (pt_poll_action n) = Some n'" by auto
    show ?thesis using polling.peers_wf [OF wf step] polling.peers_known [OF wf step]
        polling.peers_id [OF wf step] PtPoll by simp
  next
    case (PtReceive m)
    with run have step: "map_option snd (pt_handle_protocol_message I m n) = Some n'" by auto
    show ?thesis using receiving.peers_wf [OF wf step] receiving.peers_known [OF wf step]
        receiving.peers_id [OF wf step] PtReceive by simp
  next
    case (PtUp p)
    with run wf show ?thesis
      using coming_up.peers_wf [OF wf refl] coming_up.peers_known [OF wf refl]
        coming_up.peers_id [OF wf refl] by auto
  next
    case (PtDown p)
    with run have step: "handle_neighbor_down p n = Some n'" by auto
    show ?thesis using going_down.peers_wf [OF wf step] going_down.peers_known [OF wf step]
        going_down.peers_id [OF wf step] PtDown by simp
  next
    case (PtTick d)
    with run have step: "pt_tick d n = Some n'" by auto
    show ?thesis using ticking.peers_wf [OF wf step] ticking.peers_known [OF wf step]
        ticking.peers_id [OF wf step] PtTick by simp
  qed
  then show "pt_wf n'" "known_peers n' = peers_after x (pt_id n) (known_peers n)" "pt_id n' = pt_id n"
    by blast+
qed

lemma pt_apply_step:
  assumes "pt_wf n" "pt_apply I x n = Some (out, n')"
  shows "pt_wf n'" "pt_id n' = pt_id n" "known_peers n' = peers_after x (pt_id n) (known_peers n)"
proof -
  from assms(2) have run: "map_option snd (pt_apply I x n) = Some n'" by simp
  show "pt_wf n'" by (rule pt_input.peers_wf [OF assms(1) run])
  show "pt_id n' = pt_id n" by (rule pt_input.peers_id [OF assms(1) run])
  show "known_peers n' = peers_after x (pt_id n) (known_peers n)"
    by (rule pt_input.peers_known [OF assms(1) run])
qed

lemma pt_run_inv:
  "pt_wf n \<Longrightarrow> pt_run I xs n = Some (out, n') \<Longrightarrow>
     pt_wf n' \<and> pt_id n' = pt_id n \<and>
     known_peers n' = fold (\<lambda>x. peers_after x (pt_id n)) xs (known_peers n)"
proof (induction xs arbitrary: n out)
  case (Cons x xs)
  then obtain o1 n1 o2 where "pt_apply I x n = Some (o1, n1)" "pt_run I xs n1 = Some (o2, n')"
    by (auto simp: bind_eq_Some_conv)
  with Cons.IH [of n1 o2] pt_apply_step [OF Cons.prems(1), of I x o1 n1] show ?case by simp
qed simp

lemma pt_with_options_peers:
  "pt_id (pt_with_options me opts) = me" "known_peers (pt_with_options me opts) = {}"
  "pt_actions (pt_with_options me opts) = []" "messages (pt_with_options me opts) = Map.empty"
  by (simp_all add: pt_with_options_def known_peers_def action_queue_new_def)

section \<open>Peer sets\<close>

text \<open>
  C12. Whatever a user does with a Plumtree node, its eager and lazy peers stay disjoint, the
  node is never its own peer, and the peers it knows are those that the neighbour
  notifications alone determine: messages, timeouts and broadcasts move a peer between the
  two sets and never add or remove one.
\<close>

theorem pt_peer_sets:
  assumes "pt_run I xs (pt_with_options me opts) = Some (out, n)"
  shows "eager_push_peers n \<inter> lazy_push_peers n = {} \<and> me \<notin> eager_push_peers n \<union> lazy_push_peers n \<and>
    eager_push_peers n \<union> lazy_push_peers n = fold (\<lambda>x. peers_after x me) xs {}"
proof -
  note inv = pt_run_inv [OF pt_with_options_wf assms, unfolded pt_with_options_peers]
  then show ?thesis unfolding pt_wf_def known_peers_def by blast
qed

definition pt_example_run :: "(nat, nat, string) pt_input list" where
  "pt_example_run =
     [PtUp 1, PtUp 2, PtUp 0, PtReceive (Gossip (gossip_new 1 \<lparr>msg_id = 7, msg_payload = ''a''\<rparr> 0)),
      PtPoll, PtReceive (Gossip (gossip_new 2 \<lparr>msg_id = 7, msg_payload = ''a''\<rparr> 1)),
      PtReceive (Ihave (ihave_new 2 8 0 True)), PtTick 5, PtPoll, PtDown 1]"

lemmas pt_evaluate =
  pt_with_options_def default_pt_options_def missing_new_def action_queue_new_def clock_new_def
  handle_neighbor_up_def is_known_node_def pt_handle_protocol_message_def handle_gossip_def
  eager_push_def lazy_push_def optimize_def get_ihave_def queue_defs queue_pop_def make_eager_def
  make_lazy_def pt_message_defs saturating_add_def sorted_iter_def missing_remove_def Let_def
  pt_poll_action_def handle_expiration.simps pop_expired.simps heap_peek_def heap_pop_def
  heap_push_def sift_up.simps handle_ihave_def missing_push_def or_insert_entry_def u64_add_def
  node_time_add_def duration_add_def clock_now_def clock_tick_def pt_tick_def DURATION_MAX_def
  expire_item_def send_graft_def handle_neighbor_down_def

lemma pt_example_runs:
  "\<exists>out n. pt_run sorted_iter pt_example_run (pt_with_options 0 default_pt_options) = Some (out, n)"
  by (simp add: pt_example_run_def pt_evaluate from_millis_def)

theorem pt_peer_sets_witness:
  "\<exists>out n. pt_run sorted_iter pt_example_run (pt_with_options 0 default_pt_options) = Some (out, n) \<and>
     eager_push_peers n \<inter> lazy_push_peers n = {} \<and> eager_push_peers n \<union> lazy_push_peers n = {2}"
proof -
  obtain out n where run:
    "pt_run sorted_iter pt_example_run (pt_with_options 0 default_pt_options) = Some (out, n)"
    using pt_example_runs by blast
  have "fold (\<lambda>x. peers_after x 0) pt_example_run {} = {2}" by (auto simp: pt_example_run_def)
  with pt_peer_sets [OF run] run show ?thesis by simp
qed

end
