(* ===== verification/Plumtree_Delivery.thy ===== *)
theory Plumtree_Delivery
  imports Plumtree_Props
begin

text \<open>
  What a Plumtree node delivers and forwards: at most one delivery for a message the node
  stores, the two branches of a received gossip, and the panics a well-formed node can reach.
\<close>

section \<open>Deliveries\<close>

definition deliveries :: "'m \<Rightarrow> ('n, 'm, 'p) pt_action list \<Rightarrow> nat" where
  "deliveries i as = length (filter (\<lambda>a. case a of Deliver m \<Rightarrow> msg_id m = i | _ \<Rightarrow> False) as)"

lemma deliveries_simps [simp]:
  "deliveries i [] = 0" "deliveries i (as @ bs) = deliveries i as + deliveries i bs"
  "deliveries i (Deliver m # as) = (if msg_id m = i then 1 else 0) + deliveries i as"
  "deliveries i (PtSend p x # as) = deliveries i as"
  by (simp_all add: deliveries_def)

lemma deliveries_sends:
  "(\<And>a. a \<in> set as \<Longrightarrow> \<exists>p x. a = PtSend p x) \<Longrightarrow> deliveries i as = 0"
  by (induction as) (auto, force)

lemma deliveries_forwarding [simp]:
  "deliveries i (gossips I g self P) = 0" "deliveries i (announcements I g self P) = 0"
  "deliveries i (optimizations g n) = 0" "deliveries i (map (\<lambda>x. PtSend p (f x)) ys) = 0"
  by (rule deliveries_sends, auto simp: gossips_def announcements_def optimizations_def
      split: option.splits if_splits)+

lemma deliveries_grafting: "grafting n n' \<Longrightarrow> deliveries i (pt_actions n') = deliveries i (pt_actions n)"
  by (auto simp: grafting_def graft_actions_def graft_request_def intro!: deliveries_sends) blast

text \<open>One more delivery is allowed by each broadcast and by each message forgotten.\<close>

fun allowance :: "'m \<Rightarrow> ('n, 'm, 'p) pt_input \<Rightarrow> nat" where
  "allowance i (PtBroadcast m) = (if msg_id m = i then 1 else 0)"
| "allowance i (PtForget j) = (if j = i then 1 else 0)"
| "allowance i _ = 0"

definition stored :: "'m \<Rightarrow> ('n, 'm, 'p) pt_node \<Rightarrow> nat" where
  "stored i n = (if messages n i = None then 0 else 1)"

lemma deliver_receive:
  assumes "pt_handle_protocol_message I m n = Some (b, n')"
  shows "deliveries i (pt_actions n') + stored i n = deliveries i (pt_actions n) + stored i n'"
proof (cases m)
  case (Gossip g)
  with assms show ?thesis
    by (cases "msg_id (gossip_message g) \<in> dom (messages n)")
      (auto simp: pt_handle_protocol_message_def stored_def handle_gossip_duplicate
        handle_gossip_fresh split: if_splits)
qed (use assms in \<open>auto simp: pt_handle_protocol_message_def stored_def handle_ihave_def
      handle_graft_def handle_prune_def make_eager_def make_lazy_def queue_defs Let_def
      split: if_splits option.splits\<close>)

lemma deliver_step:
  assumes wf: "pt_wf n" and run: "pt_apply I x n = Some (out, n')"
  shows "deliveries i (out @ pt_actions n') + stored i n \<le>
    deliveries i (pt_actions n) + stored i n' + allowance i x"
proof (cases x)
  case PtPoll
  obtain n1 where n1: "handle_expiration n = Some n1" "grafting n n1"
    using handle_expiration_ok [OF wf] by blast
  have "out @ pt_actions n' = pt_actions n1" "messages n' = messages n1"
    using run n1(1) PtPoll by (auto simp: pt_poll_action_expiration split: list.splits)
  moreover have "messages n1 = messages n" using n1(2) by (simp add: grafting_def)
  ultimately show ?thesis using deliveries_grafting [OF n1(2), of i] PtPoll by (simp add: stored_def)
next
  case (PtReceive m)
  then obtain b where "pt_handle_protocol_message I m n = Some (b, n')" "out = []"
    using run by auto
  then show ?thesis using deliver_receive [of I m n b n' i] by simp
next
  case (PtDown p)
  let ?n = "n\<lparr>eager_push_peers := eager_push_peers n - {p}, lazy_push_peers := lazy_push_peers n - {p}\<rparr>"
  have graft: "grafting ?n n'" using handle_neighbor_down_ok [OF wf, of p] run PtDown by auto
  then have "messages n' = messages n" by (simp add: grafting_def)
  then show ?thesis using deliveries_grafting [OF graft, of i] run PtDown by (auto simp: stored_def)
qed (use run in \<open>auto simp: stored_def broadcast_message_eq forget_message_def handle_neighbor_up_eq
      pt_tick_def split: if_splits\<close>)

lemma deliver_run:
  "pt_wf n \<Longrightarrow> pt_run I xs n = Some (out, n') \<Longrightarrow>
     deliveries i (out @ pt_actions n') + stored i n \<le>
       deliveries i (pt_actions n) + stored i n' + sum_list (map (allowance i) xs)"
proof (induction xs arbitrary: n out)
  case (Cons x xs)
  then obtain o1 n1 o2 where step: "pt_apply I x n = Some (o1, n1)" "pt_run I xs n1 = Some (o2, n')"
    and out: "out = o1 @ o2" by (auto simp: bind_eq_Some_conv)
  with Cons.IH [of n1 o2] pt_apply_step(1) [OF Cons.prems(1)] deliver_step [OF Cons.prems(1), of I x o1 n1 i]
  show ?case by fastforce
qed simp

text \<open>
  C10. At-most-once delivery.  Along any use of a node, the number of times it delivers a message
  identifier, counting the deliveries still queued, is at most one plus the number of times the
  user broadcast that identifier or made the node forget it: gossip that arrives again, over
  any link and in any order, is never delivered again.
\<close>

theorem pt_at_most_once:
  assumes "pt_run I xs (pt_with_options me opts) = Some (out, n)"
  shows "deliveries i (out @ pt_actions n) \<le> 1 + sum_list (map (allowance i) xs)"
  using deliver_run [OF pt_with_options_wf assms, of i]
  by (simp add: pt_with_options_peers stored_def split: if_splits)

theorem pt_at_most_once_witness:
  "\<exists>out n. pt_run sorted_iter pt_example_run (pt_with_options 0 default_pt_options) = Some (out, n) \<and>
     deliveries 7 (out @ pt_actions n) \<le> 1"
proof -
  obtain out n where run:
    "pt_run sorted_iter pt_example_run (pt_with_options 0 default_pt_options) = Some (out, n)"
    using pt_example_runs by blast
  with pt_at_most_once [OF run, of 7] show ?thesis by (simp add: pt_example_run_def)
qed

section \<open>Panics\<close>

lemma pt_only_overflow:
  assumes wf: "pt_wf n" and panic: "pt_apply I x n = None"
  shows "(\<exists>d. x = PtTick d \<and> DURATION_MAX < pt_clock n + d) \<or>
    (\<exists>ihave. x = PtReceive (Ihave ihave) \<and> messages n (ihave_message_id ihave) = None \<and>
       (DURATION_MAX < pt_clock n + 2 * ihave_timeout (pt_opts n) \<or>
        (\<exists>e. ihaves (missings n) (ihave_message_id ihave) = Some e \<and>
           (DURATION_MAX < next_expiry e + ihave_timeout (pt_opts n) \<or> 2 ^ 64 \<le> Suc (owners e))) \<or>
        2 ^ 64 \<le> Suc (entry_seqno (missings n))))"
proof (cases x)
  case PtPoll
  with panic polling.peers_returns [OF wf] show ?thesis by auto
next
  case (PtDown p)
  with panic going_down.peers_returns [OF wf, of p] show ?thesis by auto
next
  case (PtTick d)
  with panic show ?thesis by (auto simp: pt_tick_def clock_tick_def duration_add_def split: if_splits)
next
  case (PtReceive m)
  then have none: "pt_handle_protocol_message I m n = None" using panic by simp
  then obtain ihave where m: "m = Ihave ihave" "handle_ihave ihave n = None"
    by (auto simp: pt_handle_protocol_message_def split: if_splits pt_message.splits)
  define ihave' where
    "ihave' = (if eager_push_peers n = {} then ihave\<lparr>ihave_realtime := True\<rparr> else ihave)"
  have i: "ihave_message_id ihave' = ihave_message_id ihave" by (simp add: ihave'_def)
  have push: "missing_push ihave' (pt_clock n) (ihave_timeout (pt_opts n)) (missings n) = None"
    and fresh: "messages n (ihave_message_id ihave) = None"
    using m(2) by (auto simp: handle_ihave_def Let_def domIff ihave'_def split: if_splits)
  show ?thesis using PtReceive m i push fresh
    by (auto simp: missing_push_def or_insert_entry_def bind_eq_None_conv node_time_add_def
        duration_add_def u64_add_def clock_now_def split: if_splits option.splits)
qed (use panic in auto)

text \<open>
  C26. The only panics of a Plumtree node in a well-formed state are arithmetic: the clock or
  the expiry time of an IHAVE leaves the range of durations, or a 64-bit counter overflows.
  In particular the assertion in the expiration loop never fires, and neither loop that pops
  expired timers runs forever.
\<close>

theorem pt_only_overflow_panics:
  assumes wf: "pt_wf n" and panic: "pt_apply I x n = None"
  shows "(\<exists>d. x = PtTick d \<and> DURATION_MAX < pt_clock n + d) \<or>
    (\<exists>ihave. x = PtReceive (Ihave ihave) \<and> messages n (ihave_message_id ihave) = None \<and>
       (DURATION_MAX < pt_clock n + 2 * ihave_timeout (pt_opts n) \<or>
        (\<exists>e. ihaves (missings n) (ihave_message_id ihave) = Some e \<and>
           (DURATION_MAX < next_expiry e + ihave_timeout (pt_opts n) \<or> 2 ^ 64 \<le> Suc (owners e))) \<or>
        2 ^ 64 \<le> Suc (entry_seqno (missings n))))"
  by (rule pt_only_overflow [OF assms])

theorem pt_only_overflow_panics_witness:
  "pt_apply sorted_iter (PtTick (Suc DURATION_MAX)) (pt_new 0 :: (nat, nat, string) pt_node) = None \<and>
   DURATION_MAX < pt_clock (pt_new 0 :: (nat, nat, string) pt_node) + Suc DURATION_MAX"
proof -
  let ?n = "pt_new 0 :: (nat, nat, string) pt_node"
  have none: "pt_apply sorted_iter (PtTick (Suc DURATION_MAX)) ?n = None"
    by (simp add: pt_new_def pt_evaluate)
  have "pt_wf ?n" by (simp add: pt_new_def)
  from pt_only_overflow_panics [OF this none] none show ?thesis by simp
qed

section \<open>Gossip\<close>

text \<open>
  C15. A gossip received for the first time from a neighbour is delivered once, stored and no
  longer awaited; it is forwarded once, with the round one higher (and no wrap-around), to
  every eager peer but its sender and announced to every lazy peer but its sender; the sender
  becomes eager.  No other eager peer or lazy peer hears of it.
\<close>

theorem gossip_first_reception:
  assumes wf: "pt_wf n" and I: "iter_ops_ok I" and known: "gossip_sender g \<in> known_peers n"
    and fresh: "messages n (msg_id (gossip_message g)) = None"
    and run: "pt_handle_protocol_message I (Gossip g) n = Some (b, n')"
  shows "b \<and> messages n' = (messages n)(msg_id (gossip_message g) \<mapsto> msg_payload (gossip_message g)) \<and>
    ihaves (missings n') (msg_id (gossip_message g)) = None \<and>
    eager_push_peers n' = insert (gossip_sender g) (eager_push_peers n) \<and>
    lazy_push_peers n' = lazy_push_peers n - {gossip_sender g} \<and>
    (\<exists>new. pt_actions n' = pt_actions n @ Deliver (gossip_message g) # new @ optimizations g n \<and>
      distinct new \<and>
      set new =
        {PtSend p (Gossip \<lparr>gossip_sender = pt_id n, gossip_message = gossip_message g,
             gossip_round = saturating_add (gossip_round g) 1\<rparr>) | p.
           p \<in> eager_push_peers n \<and> p \<noteq> gossip_sender g} \<union>
        {PtSend p (Ihave \<lparr>ihave_sender = pt_id n, ihave_message_id = msg_id (gossip_message g),
             ihave_round = saturating_add (gossip_round g) 1, ihave_realtime = True\<rparr>) | p.
           p \<in> lazy_push_peers n \<and> p \<noteq> gossip_sender g})"
proof -
  let ?new = "gossips I g (pt_id n) (eager_push_peers n) @ announcements I g (pt_id n) (lazy_push_peers n)"
  have n': "b" "n' = handle_gossip I g n"
    using run known by (auto simp: pt_handle_protocol_message_def is_known_node_iff)
  have "iter_ok (peer_iter I)" using I by (simp add: iter_ops_ok_def)
  note iter = iter_ok_set [OF this] iter_ok_distinct [OF this]
  have "distinct ?new"
    using pt_wf_finite [OF wf] iter
    by (auto simp: gossips_def announcements_def distinct_map inj_on_def)
  moreover have "set ?new =
        {PtSend p (Gossip \<lparr>gossip_sender = pt_id n, gossip_message = gossip_message g,
             gossip_round = saturating_add (gossip_round g) 1\<rparr>) | p.
           p \<in> eager_push_peers n \<and> p \<noteq> gossip_sender g} \<union>
        {PtSend p (Ihave \<lparr>ihave_sender = pt_id n, ihave_message_id = msg_id (gossip_message g),
             ihave_round = saturating_add (gossip_round g) 1, ihave_realtime = True\<rparr>) | p.
           p \<in> lazy_push_peers n \<and> p \<noteq> gossip_sender g}"
    using pt_wf_finite [OF wf] iter
    by (auto simp: gossips_def announcements_def pt_message_defs)
  moreover have "msg_id (gossip_message g) \<notin> dom (messages n)" using fresh by auto
  ultimately show ?thesis using n'
    by (simp add: handle_gossip_fresh missing_remove_def)
qed

definition two_peers :: "(nat, nat, string) pt_node" where
  "two_peers = (pt_new 0)\<lparr>eager_push_peers := {1, 2}, lazy_push_peers := {3}\<rparr>"

lemma two_peers_wf [simp]: "pt_wf two_peers" and two_peers_known [simp]: "known_peers two_peers = {1, 2, 3}"
  by (auto simp: two_peers_def pt_new_def pt_evaluate pt_wf_defs missing_wf_def is_heap_def)

definition hello :: "(nat, string) app_message" where
  "hello = \<lparr>msg_id = 7, msg_payload = ''hello''\<rparr>"

theorem gossip_first_reception_witness:
  "\<exists>n'. pt_handle_protocol_message sorted_iter (Gossip (gossip_new 1 hello 65535)) two_peers = Some (True, n') \<and>
     messages n' 7 = Some ''hello'' \<and> eager_push_peers n' = {1, 2} \<and>
     (\<exists>new. pt_actions n' = Deliver hello # new \<and>
        PtSend 2 (Gossip (gossip_new 0 hello 65535)) \<in> set new)"
proof -
  let ?g = "gossip_new 1 hello 65535" let ?n = "handle_gossip sorted_iter ?g two_peers"
  have run: "pt_handle_protocol_message sorted_iter (Gossip ?g) two_peers = Some (True, ?n)"
    by (simp add: pt_handle_protocol_message_def is_known_node_iff)
  have "messages two_peers (msg_id (gossip_message ?g)) = None"
    by (simp add: two_peers_def pt_new_def pt_with_options_peers)
  note first = gossip_first_reception [OF two_peers_wf sorted_iter_ok _ this run]
  have fields: "pt_actions two_peers = []" "pt_id two_peers = 0" "eager_push_peers two_peers = {1, 2}"
    by (simp_all add: two_peers_def pt_new_def pt_with_options_def action_queue_new_def)
  have "messages ?n 7 = Some ''hello''" "eager_push_peers ?n = {1, 2}"
    using first fields by (simp_all add: hello_def)
  moreover have "\<exists>new. pt_actions ?n = Deliver hello # new \<and>
      PtSend 2 (Gossip (gossip_new 0 hello 65535)) \<in> set new"
    using first fields by (fastforce simp: saturating_add_def gossip_new_def)
  ultimately show ?thesis using run by blast
qed

text \<open>
  A gossip for a message the node already has is not delivered and not forwarded: the
  sender is told to prune the link and becomes a lazy peer; nothing else changes.
\<close>

theorem gossip_duplicate_prunes:
  assumes "pt_wf n" and "gossip_sender g \<in> known_peers n"
    and "messages n (msg_id (gossip_message g)) = Some payload"
  shows "pt_handle_protocol_message I (Gossip g) n = Some (True, n') \<longleftrightarrow>
    n' = n\<lparr>eager_push_peers := eager_push_peers n - {gossip_sender g},
           lazy_push_peers := insert (gossip_sender g) (lazy_push_peers n),
           pt_actions := pt_actions n @ [PtSend (gossip_sender g) (Prune \<lparr>prune_sender = pt_id n\<rparr>)]\<rparr>"
proof -
  have "msg_id (gossip_message g) \<in> dom (messages n)" using assms(3) by auto
  then show ?thesis using assms(2)
    by (auto simp: pt_handle_protocol_message_def is_known_node_iff handle_gossip_duplicate prune_new_def)
qed

theorem gossip_duplicate_prunes_witness:
  "\<exists>n'. pt_handle_protocol_message sorted_iter (Gossip (gossip_new 1 hello 0))
     (two_peers\<lparr>messages := [7 \<mapsto> ''hello'']\<rparr>) = Some (True, n') \<and> lazy_push_peers n' = {1, 3} \<and>
     deliveries 7 (pt_actions n') = 0"
proof -
  let ?n = "two_peers\<lparr>messages := [7 \<mapsto> ''hello'']\<rparr>" let ?g = "gossip_new 1 hello 0"
  have "pt_wf ?n" using two_peers_wf by (simp add: pt_wf_defs)
  moreover have "gossip_sender ?g \<in> known_peers ?n"
    using two_peers_known by (simp add: known_peers_def)
  moreover have "messages ?n (msg_id (gossip_message ?g)) = Some ''hello''" by (simp add: hello_def)
  ultimately have "\<exists>n'. pt_handle_protocol_message sorted_iter (Gossip ?g) ?n = Some (True, n') \<and>
      n' = ?n\<lparr>eager_push_peers := eager_push_peers ?n - {1}, lazy_push_peers := insert 1 (lazy_push_peers ?n),
        pt_actions := pt_actions ?n @ [PtSend 1 (Prune \<lparr>prune_sender = pt_id ?n\<rparr>)]\<rparr>"
    using gossip_duplicate_prunes [of ?n ?g "''hello''" sorted_iter] by simp
  then show ?thesis by (auto simp: two_peers_def pt_new_def pt_with_options_peers)
qed

end
