(* ===== verification/Plumtree_Repair.thy ===== *)
theory Plumtree_Repair
  imports Plumtree_Delivery
begin

text \<open>
  Timers and the repair of the broadcast tree: what a poll leaves behind, what happens when the
  last eager link goes down, and how a message that was only announced is fetched.
\<close>

section \<open>Timers\<close>

text \<open>
  C16. A poll never panics and never runs forever, and after it every message the node still
  waits for has a timer, all of them in the future: no announced message is left without a
  pending request.  All the poll adds to the queue are requests, to peers the node knows, for
  messages it was still waiting for, and it delivers nothing by itself.
\<close>

theorem poll_handles_expirations:
  assumes wf: "pt_wf n"
  shows "\<exists>a n' as. pt_poll_action n = Some (a, n') \<and>
    pt_actions n @ as = (case a of None \<Rightarrow> [] | Some x \<Rightarrow> [x]) @ pt_actions n' \<and>
    (\<forall>x \<in> set as. graft_request n x) \<and>
    (\<forall>x \<in> set (timeout_queue (missings n')). pt_clock n < expiry_time x) \<and>
    (\<forall>i. ihaves (missings n') i \<noteq> None \<longrightarrow>
       (\<exists>x \<in> set (timeout_queue (missings n')). item_message_id x = i))"
proof -
  obtain n1 where n1: "handle_expiration n = Some n1" "grafting n n1" "no_timer_due (pt_clock n1) n1"
    using handle_expiration_ok [OF wf] by blast
  let ?a = "case pt_actions n1 of [] \<Rightarrow> None | x # _ \<Rightarrow> Some x"
  let ?n = "n1\<lparr>pt_actions := tl (pt_actions n1)\<rparr>"
  have poll: "pt_poll_action n = Some (?a, ?n)" using n1(1) by (auto simp: pt_poll_action_expiration)
  obtain as where as: "pt_actions n1 = pt_actions n @ as" "\<forall>x \<in> set as. graft_request n x"
    using n1(2) by (auto simp: grafting_def graft_actions_def)
  have split: "pt_actions n1 = (case ?a of None \<Rightarrow> [] | Some x \<Rightarrow> [x]) @ pt_actions ?n"
    by (simp split: list.split)
  have "missing_wf (missings n1)" "pt_clock n1 = pt_clock n"
    using n1(2) by (simp_all add: grafting_def pt_wf_def)
  then have "\<forall>x \<in> set (timeout_queue (missings ?n)). pt_clock n < expiry_time x"
    "\<forall>i. ihaves (missings ?n) i \<noteq> None \<longrightarrow>
       (\<exists>x \<in> set (timeout_queue (missings ?n)). item_message_id x = i)"
    using n1(3) waiting_has_timer [of "missings n1"] by (auto simp: no_timer_due_def)
  moreover have "pt_actions n @ as = (case ?a of None \<Rightarrow> [] | Some x \<Rightarrow> [x]) @ pt_actions ?n"
    using split as(1) by (simp only:)
  ultimately show ?thesis using poll as(2)
    by (intro exI [of _ ?a] exI [of _ ?n] exI [of _ as] conjI)
qed

theorem poll_handles_expirations_witness:
  "pt_wf two_peers \<and> (\<exists>a n'. pt_poll_action two_peers = Some (a, n'))"
  using poll_handles_expirations [OF two_peers_wf] by auto

text \<open>
  C27. When a neighbour goes down it is no peer any more, and the node is not left waiting
  without an eager link: afterwards some peer is eager, or no announced message is awaited.
  The operation always returns.
\<close>

theorem neighbor_down_keeps_waiting_served:
  assumes "pt_wf n" and "p \<in> known_peers n"
  shows "\<exists>n'. handle_neighbor_down p n = Some n' \<and> known_peers n' = known_peers n - {p} \<and>
    (eager_push_peers n' \<noteq> {} \<or> pt_waiting_messages n' = 0)"
proof -
  obtain n' where n': "handle_neighbor_down p n = Some n'"
    "eager_push_peers n' \<noteq> {} \<or> ihaves (missings n') = Map.empty"
    using handle_neighbor_down_ok [OF assms(1), of p] assms(2) by auto
  then have "known_peers n' = known_peers n - {p}"
    using going_down.peers_known [OF assms(1)] by blast
  with n' show ?thesis by (auto simp: pt_waiting_messages_def missing_waiting_def)
qed

definition lonely_waiter :: "(nat, nat, string) pt_node" where
  "lonely_waiter = the (map_option snd (pt_run sorted_iter
     [PtUp 1, PtUp 2, PtReceive (Prune (prune_new 2)), PtReceive (Ihave (ihave_new 2 7 0 False))]
     (pt_new 0)))"

lemma lonely_waiter_eq:
  "pt_run sorted_iter
     [PtUp 1, PtUp 2, PtReceive (Prune (prune_new 2)), PtReceive (Ihave (ihave_new 2 7 0 False))]
     (pt_new 0) = Some ([], lonely_waiter)"
  "eager_push_peers lonely_waiter = {1}" "lazy_push_peers lonely_waiter = {2}"
  "pt_waiting_messages lonely_waiter = 1"
  by (auto simp: lonely_waiter_def pt_new_def pt_evaluate handle_prune_def from_millis_def
      pt_waiting_messages_def missing_waiting_def)

theorem neighbor_down_keeps_waiting_served_witness:
  "1 \<in> known_peers lonely_waiter \<and> pt_waiting_messages lonely_waiter = 1 \<and>
   (\<exists>n'. handle_neighbor_down 1 lonely_waiter = Some n' \<and> known_peers n' = {2} \<and>
     (eager_push_peers n' \<noteq> {} \<or> pt_waiting_messages n' = 0))"
proof -
  have "pt_wf lonely_waiter"
    using pt_run_inv [OF _ lonely_waiter_eq(1)] by (simp add: pt_new_def)
  moreover have known: "known_peers lonely_waiter = {1, 2}"
    by (auto simp: known_peers_def lonely_waiter_eq)
  ultimately show ?thesis
    using neighbor_down_keeps_waiting_served [of lonely_waiter 1] lonely_waiter_eq(4)
    by (auto simp: insert_Diff_if)
qed

section \<open>Repair\<close>

lemma singleton_pop:
  assumes "timeout_queue mm = [MessageItem t s ihave]" "t \<le> clock_now c"
    and "ihaves mm (ihave_message_id ihave) = Some e" "entry_id_seqno e = s" "owners e = 1"
  shows "\<exists>mm'. pop_expired c mm = Some (Some ihave, mm')"
  using assms
  by (subst pop_expired.simps) (simp add: heap_peek_def heap_pop_def expire_item_def Let_def)

lemma missing_push_first:
  assumes "ihaves mm (ihave_message_id ihave) = None" "timeout_queue mm = []"
    and "c + 2 * T \<le> DURATION_MAX" "Suc (entry_seqno mm) < 2 ^ 64"
  shows "\<exists>mm' e. missing_push ihave c T mm = Some mm' \<and> ihaves mm' (ihave_message_id ihave) = Some e \<and>
    timeout_queue mm' = [MessageItem (if ihave_realtime ihave then c else c + T) (entry_id_seqno e) ihave] \<and>
    owners e = 1"
  using assms
  by (cases "ihave_realtime ihave")
    (simp_all add: missing_push_def or_insert_entry_def node_time_add_def duration_add_def u64_add_def
      clock_now_def heap_push_def sift_up.simps)

text \<open>The request that the first IHAVE for a message leads to, once its timer is due.\<close>

lemma ihave_leads_to_graft:
  assumes wf: "pt_wf b" and known: "ihave_sender ihave \<in> known_peers b"
    and idle: "timeout_queue (missings b) = []" "pt_actions b = []"
    and lacks: "messages b (ihave_message_id ihave) = None"
    and range: "pt_clock b + 2 * ihave_timeout (pt_opts b) \<le> DURATION_MAX"
      "pt_clock b + d \<le> DURATION_MAX" "Suc (entry_seqno (missings b)) < 2 ^ 64"
    and late: "ihave_timeout (pt_opts b) \<le> d"
  shows "\<exists>b1 b2 b3. pt_handle_protocol_message I (Ihave ihave) b = Some (True, b1) \<and>
    pt_tick d b1 = Some b2 \<and>
    pt_poll_action b2 = Some (Some (PtSend (ihave_sender ihave)
       (Graft (graft_new (pt_id b) (Some (ihave_message_id ihave)) (ihave_round ihave)))), b3) \<and>
    known_peers b3 = known_peers b \<and> messages b3 = messages b"
proof -
  define ihave' where
    "ihave' = (if eager_push_peers b = {} then ihave\<lparr>ihave_realtime := True\<rparr> else ihave)"
  have sel: "ihave_message_id ihave' = ihave_message_id ihave" "ihave_sender ihave' = ihave_sender ihave"
    "ihave_round ihave' = ihave_round ihave" by (simp_all add: ihave'_def)
  let ?i = "ihave_message_id ihave" and ?T = "ihave_timeout (pt_opts b)"
  let ?t = "if ihave_realtime ihave' then pt_clock b else pt_clock b + ?T"
  have none: "ihaves (missings b) ?i = None"
    using waiting_has_timer [of "missings b" ?i] wf idle by (auto simp: pt_wf_def)
  obtain mm e where push: "missing_push ihave' (pt_clock b) ?T (missings b) = Some mm"
    and mm: "timeout_queue mm = [MessageItem ?t (entry_id_seqno e) ihave']" "ihaves mm ?i = Some e"
      "owners e = 1"
    using missing_push_first [of "missings b" ihave' "pt_clock b" ?T] none idle(1) range(1,3)
    unfolding sel by blast
  define b1 where "b1 = b\<lparr>missings := mm\<rparr>"
  have b1: "pt_handle_protocol_message I (Ihave ihave) b = Some (True, b1)"
    using known lacks push
    by (simp add: pt_handle_protocol_message_def is_known_node_iff handle_ihave_def domIff
        ihave'_def b1_def)
  define b2 where "b2 = b1\<lparr>pt_clock := pt_clock b + d\<rparr>"
  have b2: "pt_tick d b1 = Some b2"
    using range by (simp add: pt_tick_def clock_tick_def duration_add_def b1_def b2_def)
  have wf2: "pt_wf b2"
    using wf missing_push_wf [OF _ push] by (simp add: pt_wf_defs b1_def b2_def)
  have "missing_wf (missings b2)" using wf2 by (simp add: pt_wf_def)
  then obtain mm' where pop: "pop_expired (pt_clock b2) (missings b2) = Some (Some ihave', mm')"
    and ok: "pop_ok (pt_clock b2) (missings b2) (Some ihave') mm'"
    using singleton_pop [OF mm(1), of "pt_clock b2" e] mm(2,3) late sel
      pop_expired_ok [of "missings b2" "pt_clock b2"]
    by (auto simp: b1_def b2_def clock_now_def)
  let ?n = "snd (send_graft ihave' (b2\<lparr>missings := mm'\<rparr>))"
  have "grafting b2 ?n" using grafting_step [OF wf2 ok] .
  moreover from this have "pt_wf ?n" by (simp add: grafting_def)
  then obtain n' where n': "handle_expiration ?n = Some n'" "grafting ?n n'"
    using handle_expiration_ok by blast
  ultimately have graft: "grafting b2 n'" using grafting_trans by blast
  have run: "handle_expiration b2 = Some n'"
    using pop n'(1) by (subst handle_expiration.simps) simp
  have "pt_actions ?n = [PtSend (ihave_sender ihave) (Graft (graft_new (pt_id b) (Some ?i) (ihave_round ihave)))]"
    using known idle
    by (simp add: send_graft_def is_known_node_def known_peers_def make_eager_def queue_defs
        b1_def b2_def sel)
  then obtain as where "pt_actions n' =
      PtSend (ihave_sender ihave) (Graft (graft_new (pt_id b) (Some ?i) (ihave_round ihave))) # as"
    using n'(2) by (auto simp: grafting_def graft_actions_def)
  then have "pt_poll_action b2 = Some (Some (PtSend (ihave_sender ihave)
      (Graft (graft_new (pt_id b) (Some ?i) (ihave_round ihave)))), n'\<lparr>pt_actions := as\<rparr>)"
    using run by (simp add: pt_poll_action_expiration)
  moreover have "known_peers n' = known_peers b" "messages n' = messages b"
    using graft by (simp_all add: grafting_def) (simp_all add: known_peers_def b1_def b2_def)
  ultimately show ?thesis using b1 b2
    by (intro exI [of _ b1] exI [of _ b2] exI [of _ "n'\<lparr>pt_actions := as\<rparr>"]) simp
qed

text \<open>
  C11. Repair of a message that only its announcement reached.  A node \<open>b\<close> with no pending
  timers that lacks message \<open>i\<close> hears of it from its neighbour \<open>a\<close>, which has it.
  After the IHAVE timeout \<open>b\<close> polls a GRAFT for \<open>a\<close>; \<open>a\<close> answers it with the message, and when
  the answer reaches \<open>b\<close> the message is stored and delivered there, and each of the two is an
  eager peer of the other.
\<close>

theorem announced_message_is_fetched:
  assumes wf: "pt_wf a" "pt_wf b" and link: "pt_id b \<in> known_peers a" "pt_id a \<in> known_peers b"
    and has: "messages a i = Some payload" and lacks: "messages b i = None"
    and idle: "timeout_queue (missings b) = []" "pt_actions b = []"
    and range: "pt_clock b + 2 * ihave_timeout (pt_opts b) \<le> DURATION_MAX"
      "pt_clock b + d \<le> DURATION_MAX" "Suc (entry_seqno (missings b)) < 2 ^ 64"
    and late: "ihave_timeout (pt_opts b) \<le> d"
  shows "\<exists>b1 b2 b3 b4 a1 graft gossip.
    pt_handle_protocol_message I (Ihave (ihave_new (pt_id a) i r rt)) b = Some (True, b1) \<and>
    pt_tick d b1 = Some b2 \<and>
    pt_poll_action b2 = Some (Some (PtSend (pt_id a) (Graft graft)), b3) \<and>
    pt_handle_protocol_message J (Graft graft) a = Some (True, a1) \<and>
    pt_actions a1 = pt_actions a @ [PtSend (pt_id b) (Gossip gossip)] \<and>
    pt_handle_protocol_message I (Gossip gossip) b3 = Some (True, b4) \<and>
    messages b4 i = Some payload \<and> Deliver \<lparr>msg_id = i, msg_payload = payload\<rparr> \<in> set (pt_actions b4) \<and>
    pt_id b \<in> eager_push_peers a1 \<and> pt_id a \<in> eager_push_peers b4"
proof -
  let ?ihave = "ihave_new (pt_id a) i r rt" and ?graft = "graft_new (pt_id b) (Some i) r"
  let ?m = "\<lparr>msg_id = i, msg_payload = payload\<rparr>"
  let ?gossip = "gossip_new (pt_id a) ?m r"
  obtain b1 b2 b3 where b: "pt_handle_protocol_message I (Ihave ?ihave) b = Some (True, b1)"
    "pt_tick d b1 = Some b2" "pt_poll_action b2 = Some (Some (PtSend (pt_id a) (Graft ?graft)), b3)"
    "known_peers b3 = known_peers b" "messages b3 = messages b"
    using ihave_leads_to_graft [of b ?ihave d I] wf(2) link(2) lacks idle range late
    unfolding message_new_sel by blast
  have a: "pt_handle_protocol_message J (Graft ?graft) a = Some (True, handle_graft ?graft a)"
    using link(1) by (simp add: pt_handle_protocol_message_def is_known_node_iff)
  have a1: "pt_actions (handle_graft ?graft a) = pt_actions a @ [PtSend (pt_id b) (Gossip ?gossip)]"
    "pt_id b \<in> eager_push_peers (handle_graft ?graft a)"
    using has by (simp_all add: handle_graft_def make_eager_def queue_defs)
  have b4: "pt_handle_protocol_message I (Gossip ?gossip) b3 = Some (True, handle_gossip I ?gossip b3)"
    using link(2) b(4) by (simp add: pt_handle_protocol_message_def is_known_node_iff)
  have "msg_id (gossip_message ?gossip) \<notin> dom (messages b3)" using lacks b(5) by auto
  from handle_gossip_fresh [OF this, of I]
  have "messages (handle_gossip I ?gossip b3) i = Some payload"
    "Deliver ?m \<in> set (pt_actions (handle_gossip I ?gossip b3))"
    "pt_id a \<in> eager_push_peers (handle_gossip I ?gossip b3)" by simp_all
  with b(1-3) a a1 b4 show ?thesis by blast
qed

definition holder :: "(nat, nat, string) pt_node" where
  "holder = (pt_new 1)\<lparr>lazy_push_peers := {0}, messages := [7 \<mapsto> ''hello'']\<rparr>"

theorem announced_message_is_fetched_witness:
  "\<exists>b1 b2 b3 b4 a1 graft gossip.
    pt_handle_protocol_message sorted_iter (Ihave (ihave_new 1 7 0 False)) two_peers = Some (True, b1) \<and>
    pt_tick (from_millis 500) b1 = Some b2 \<and>
    pt_poll_action b2 = Some (Some (PtSend 1 (Graft graft)), b3) \<and>
    pt_handle_protocol_message sorted_iter (Graft graft) holder = Some (True, a1) \<and>
    pt_actions a1 = [PtSend 0 (Gossip gossip)] \<and>
    pt_handle_protocol_message sorted_iter (Gossip gossip) b3 = Some (True, b4) \<and>
    messages b4 7 = Some ''hello''"
proof -
  have holder: "pt_wf holder" "known_peers holder = {0}" "messages holder 7 = Some ''hello''"
    "pt_id holder = 1" "pt_actions holder = []"
    by (auto simp: holder_def pt_new_def pt_evaluate pt_wf_defs missing_wf_def is_heap_def)
  have two: "messages two_peers 7 = None" "timeout_queue (missings two_peers) = []"
    "pt_actions two_peers = []" "pt_id two_peers = 0" "pt_clock two_peers = 0"
    "ihave_timeout (pt_opts two_peers) = from_millis 500" "entry_seqno (missings two_peers) = 0"
    by (simp_all add: two_peers_def pt_new_def pt_evaluate)
  have small: "2 * from_millis 500 \<le> DURATION_MAX" by (simp add: from_millis_def DURATION_MAX_def)
  note fetched = announced_message_is_fetched [of holder two_peers 7 "''hello''" "from_millis 500"
      sorted_iter 0 False sorted_iter, unfolded holder(2-) two two_peers_known]
  show ?thesis by (rule fetched [THEN ex_forward]) (use holder small in \<open>auto\<close>)
qed

end
