(* ===== verification/Node_Server.thy ===== *)
theory Node_Server
  imports HyParView_Node Plumtree_Types
begin

text \<open>
  Identifiers and protocol messages of the application (\<^verbatim>\<open>node_id.rs\<close>, \<^verbatim>\<open>message.rs\<close>,
  \<^verbatim>\<open>misc.rs\<close>) and the handle of its server (\<^verbatim>\<open>node_server.rs\<close>): the local node's inbox, the
  cache of connections and the sending tasks that were spawned.  The network below QUIC is a
  parameter.
\<close>

section \<open>Identifiers and messages\<close>

record ('a, 'k) node_id =
  addresses :: "'a list"
  local_id :: 'k

record ('a, 'k) message_id =
  mid_node :: "('a, 'k) node_id"
  mid_seqno :: nat
  mid_timestamp :: nat

definition message_id_new :: "('a, 'k) node_id \<Rightarrow> nat \<Rightarrow> nat \<Rightarrow> ('a, 'k) message_id" where
  "message_id_new node seqno timestamp =
     \<lparr>mid_node = node, mid_seqno = seqno, mid_timestamp = timestamp\<rparr>"

text \<open>The associated types of \<^verbatim>\<open>PlumtreeSystem\<close>.\<close>

type_synonym ('a, 'k) hv_protocol_message = "('a, 'k) node_id hv_message"
type_synonym ('a, 'k, 'p) pt_protocol_message =
  "(('a, 'k) node_id, ('a, 'k) message_id, 'p) pt_message"
type_synonym ('a, 'k, 'p) plumtree_app_message = "(('a, 'k) message_id, 'p) app_message"

datatype ('a, 'k, 'p) plumtree_stream_message =
    StreamBegin
  | StreamMessage "('a, 'k, 'p) pt_protocol_message"
  | StreamEnd

datatype ('a, 'k, 'p) p2p_message =
    MHyparview "('a, 'k) hv_protocol_message"
  | MPlumtree "('a, 'k, 'p) pt_protocol_message"
  | MPlumtreeStream "('a, 'k, 'p) plumtree_stream_message"

section \<open>Server handle\<close>

text \<open>
  The registered node and the messages waiting in its channel; the connections by local
  identifier; the sends spawned and not yet run.
\<close>

record ('a, 'k, 'p) node_handle =
  nh_local_id :: 'k
  message_tx :: "('a, 'k, 'p) p2p_message list"

record ('a, 'k, 'p, 'c) server_handle =
  local_node :: "('k \<times> ('a, 'k, 'p) node_handle) option"
  remote_nodes :: "'k \<rightharpoonup> 'c"
  spawned :: "(('a, 'k) node_id \<times> ('a, 'k, 'p) p2p_message) list"

definition server_new :: "('a, 'k, 'p, 'c) server_handle" where
  "server_new = \<lparr>local_node = None, remote_nodes = Map.empty, spawned = []\<rparr>"

definition node_handle_new :: "'k \<Rightarrow> ('a, 'k, 'p) node_handle" where
  "node_handle_new k = \<lparr>nh_local_id = k, message_tx = []\<rparr>"

definition register_local_node ::
  "('a, 'k, 'p) node_handle \<Rightarrow> ('a, 'k, 'p, 'c) server_handle \<Rightarrow> ('a, 'k, 'p, 'c) server_handle" where
  "register_local_node node s = s\<lparr>local_node := Some (nh_local_id node, node)\<rparr>"

definition remove_remote_node :: "'k \<Rightarrow> ('a, 'k, 'p, 'c) server_handle \<Rightarrow> ('a, 'k, 'p, 'c) server_handle" where
  "remove_remote_node k s = s\<lparr>remote_nodes := (remote_nodes s)(k := None)\<rparr>"

definition get_local_nodeid :: "('a, 'k, 'p, 'c) server_handle \<Rightarrow> 'k option" where
  "get_local_nodeid s = map_option fst (local_node s)"

text \<open>Sending into the channel of the local node, when there is one.\<close>

definition deliver_local ::
  "('a, 'k, 'p) p2p_message \<Rightarrow> ('a, 'k, 'p, 'c) server_handle \<Rightarrow> ('a, 'k, 'p, 'c) server_handle" where
  "deliver_local m s =
     (case local_node s of
        None \<Rightarrow> s
      | Some (k, node) \<Rightarrow> s\<lparr>local_node := Some (k, node\<lparr>message_tx := message_tx node @ [m]\<rparr>)\<rparr>)"

definition notify_self_disconnect ::
  "('a, 'k) node_id \<Rightarrow> ('a, 'k, 'p, 'c) server_handle \<Rightarrow> ('a, 'k, 'p, 'c) server_handle" where
  "notify_self_disconnect destination s =
     remove_remote_node (local_id destination)
       (deliver_local (MHyparview (Disconnect \<lparr>dc_sender = destination, dc_alive = False\<rparr>)) s)"

text \<open>
  What a network does: connecting to an address under the name of a key fails at once with a
  configuration error, fails or times out, or gives a connection; transmitting a message over
  a connection succeeds or fails (opening a stream, writing and closing it).  Whether the JSON
  encoder accepts a message is part of the same parameter.
\<close>

datatype 'c connect_result = BadConfig | Unreachable | Connected 'c

record ('a, 'k, 'p, 'c) network =
  net_encodes :: "('a, 'k, 'p) p2p_message \<Rightarrow> bool"
  net_connect :: "'a \<Rightarrow> 'k \<Rightarrow> 'c connect_result"
  net_transmit :: "'c \<Rightarrow> ('a, 'k, 'p) p2p_message \<Rightarrow> bool"

datatype server_error = SerializeFailed | ConnectConfig | NoAddressReachable | TransmitFailed

text \<open>The loop over the addresses: the first that connects.\<close>

fun connect_first ::
  "('a, 'k, 'p, 'c) network \<Rightarrow> 'k \<Rightarrow> 'a list \<Rightarrow> server_error + 'c" where
  "connect_first net k [] = Inl NoAddressReachable"
| "connect_first net k (addr # addrs) =
     (case net_connect net addr k of
        BadConfig \<Rightarrow> Inl ConnectConfig
      | Unreachable \<Rightarrow> connect_first net k addrs
      | Connected c \<Rightarrow> Inr c)"

text \<open>The span of the function reads the local identifier and panics when no node is registered.\<close>

definition get_connection ::
  "('a, 'k, 'p, 'c) network \<Rightarrow> ('a, 'k) node_id \<Rightarrow> ('a, 'k, 'p, 'c) server_handle \<Rightarrow>
   ((server_error + 'c) \<times> ('a, 'k, 'p, 'c) server_handle) option" where
  "get_connection net nodeid s =
     (case get_local_nodeid s of
        None \<Rightarrow> None
      | Some _ \<Rightarrow>
          (case remote_nodes s (local_id nodeid) of
             Some c \<Rightarrow> Some (Inr c, s)
           | None \<Rightarrow>
               (case connect_first net (local_id nodeid) (addresses nodeid) of
                  Inl e \<Rightarrow> Some (Inl e, s)
                | Inr c \<Rightarrow> Some (Inr c, s\<lparr>remote_nodes := (remote_nodes s)(local_id nodeid \<mapsto> c)\<rparr>))))"

definition send_protocol_message_async ::
  "('a, 'k, 'p, 'c) network \<Rightarrow> ('a, 'k) node_id \<Rightarrow> ('a, 'k, 'p) p2p_message \<Rightarrow>
   ('a, 'k, 'p, 'c) server_handle \<Rightarrow> ((server_error + unit) \<times> ('a, 'k, 'p, 'c) server_handle) option" where
  "send_protocol_message_async net destination m s =
     (if \<not> net_encodes net m then Some (Inl SerializeFailed, s)
      else case get_connection net destination s of
        None \<Rightarrow> None
      | Some (Inl e, s) \<Rightarrow> Some (Inl e, s)
      | Some (Inr c, s) \<Rightarrow>
          Some (if net_transmit net c m then Inr () else Inl TransmitFailed, s))"

text \<open>The blocking variant runs the same future to its end.\<close>

definition send_protocol_message ::
  "('a, 'k, 'p, 'c) network \<Rightarrow> ('a, 'k) node_id \<Rightarrow> ('a, 'k, 'p) p2p_message \<Rightarrow>
   ('a, 'k, 'p, 'c) server_handle \<Rightarrow> ((server_error + unit) \<times> ('a, 'k, 'p, 'c) server_handle) option" where
  "send_protocol_message net destination m s = send_protocol_message_async net destination m s"

text \<open>\<^verbatim>\<open>send_protocol_message_sync\<close> spawns a task; the task runs later, against the state of then.\<close>

definition send_protocol_message_sync ::
  "('a, 'k) node_id \<Rightarrow> ('a, 'k, 'p) p2p_message \<Rightarrow> ('a, 'k, 'p, 'c) server_handle \<Rightarrow>
   ('a, 'k, 'p, 'c) server_handle" where
  "send_protocol_message_sync destination m s = s\<lparr>spawned := spawned s @ [(destination, m)]\<rparr>"

definition send_task ::
  "('a, 'k, 'p, 'c) network \<Rightarrow> ('a, 'k) node_id \<Rightarrow> ('a, 'k, 'p) p2p_message \<Rightarrow>
   ('a, 'k, 'p, 'c) server_handle \<Rightarrow> ('a, 'k, 'p, 'c) server_handle option" where
  "send_task net destination m s =
     (case send_protocol_message_async net destination m s of
        None \<Rightarrow> None
      | Some (Inl e, s) \<Rightarrow> Some (notify_self_disconnect destination s)
      | Some (Inr u, s) \<Rightarrow> Some s)"

text \<open>The messages waiting for the local node, and taking the next one (\<^verbatim>\<open>poll_recv\<close>).\<close>

definition inbox :: "('a, 'k, 'p, 'c) server_handle \<Rightarrow> ('a, 'k, 'p) p2p_message list" where
  "inbox s = (case local_node s of None \<Rightarrow> [] | Some (_, node) \<Rightarrow> message_tx node)"

definition poll_recv ::
  "('a, 'k, 'p, 'c) server_handle \<Rightarrow>
   ('a, 'k, 'p) p2p_message option \<times> ('a, 'k, 'p, 'c) server_handle" where
  "poll_recv s =
     (case local_node s of
        None \<Rightarrow> (None, s)
      | Some (k, node) \<Rightarrow>
          (case message_tx node of
             [] \<Rightarrow> (None, s)
           | m # ms \<Rightarrow> (Some m, s\<lparr>local_node := Some (k, node\<lparr>message_tx := ms\<rparr>)\<rparr>)))"

section \<open>Connections\<close>

lemma inbox_simps [simp]:
  "inbox (s\<lparr>remote_nodes := r\<rparr>) = inbox s" "inbox (s\<lparr>spawned := t\<rparr>) = inbox s"
  "inbox (remove_remote_node k s) = inbox s" "inbox (send_protocol_message_sync d m s) = inbox s"
  "inbox (deliver_local m s) = (if local_node s = None then [] else inbox s @ [m])"
  by (auto simp: inbox_def remove_remote_node_def send_protocol_message_sync_def deliver_local_def
      split: option.splits)

lemma poll_recv_inbox:
  "inbox s = m # ms \<Longrightarrow> \<exists>s'. poll_recv s = (Some m, s') \<and> inbox s' = ms \<and>
     remote_nodes s' = remote_nodes s \<and> spawned s' = spawned s"
  "inbox s = [] \<Longrightarrow> poll_recv s = (None, s)"
  by (auto simp: inbox_def poll_recv_def split: option.splits)

lemma connect_first_skip:
  "\<forall>x \<in> set pre. net_connect net x k = Unreachable \<Longrightarrow>
     connect_first net k (pre @ addrs) = connect_first net k addrs"
  by (induction pre) simp_all

lemma connect_first_InrD:
  "connect_first net k addrs = Inr c \<Longrightarrow>
     \<exists>pre addr post. addrs = pre @ addr # post \<and> (\<forall>x \<in> set pre. net_connect net x k = Unreachable) \<and>
       net_connect net addr k = Connected c"
proof (induction addrs)
  case (Cons x xs)
  show ?case
  proof (cases "net_connect net x k")
    case Unreachable
    with Cons obtain pre addr post where "xs = pre @ addr # post"
      "\<forall>x \<in> set pre. net_connect net x k = Unreachable" "net_connect net addr k = Connected c" by auto
    then show ?thesis using Unreachable by (intro exI [of _ "x # pre"]) auto
  qed (use Cons.prems in \<open>auto intro: exI [of _ "[]"]\<close>)
qed simp

lemma connect_first_Inr:
  "connect_first net k addrs = Inr c \<longleftrightarrow>
     (\<exists>pre addr post. addrs = pre @ addr # post \<and> (\<forall>x \<in> set pre. net_connect net x k = Unreachable) \<and>
       net_connect net addr k = Connected c)"
  by (rule iffI, erule connect_first_InrD) (auto simp: connect_first_skip)

text \<open>When a send fails: the message has no encoding, no address connects, or the transmission fails.\<close>

definition send_fails ::
  "('a, 'k, 'p, 'c) network \<Rightarrow> ('a, 'k) node_id \<Rightarrow> ('a, 'k, 'p) p2p_message \<Rightarrow> ('a, 'k, 'p, 'c) server_handle \<Rightarrow> bool" where
  "send_fails net destination m s \<longleftrightarrow>
     \<not> net_encodes net m \<or>
     (case remote_nodes s (local_id destination) of
        Some c \<Rightarrow> \<not> net_transmit net c m
      | None \<Rightarrow>
          (case connect_first net (local_id destination) (addresses destination) of
             Inl e \<Rightarrow> True
           | Inr c \<Rightarrow> \<not> net_transmit net c m))"

lemma failing_send_eq:
  assumes "local_node s = Some (k, h)" "send_fails net destination m s"
  shows "send_task net destination m s =
    Some (s\<lparr>local_node := Some (k, h\<lparr>message_tx := message_tx h @
        [MHyparview (Disconnect \<lparr>dc_sender = destination, dc_alive = False\<rparr>)]\<rparr>),
      remote_nodes := (remote_nodes s)(local_id destination := None)\<rparr>)"
  using assms
  by (auto simp: send_fails_def send_task_def send_protocol_message_async_def get_connection_def get_local_nodeid_def
      notify_self_disconnect_def remove_remote_node_def deliver_local_def split: option.splits sum.splits)

lemma failing_send:
  assumes "local_node s \<noteq> None" "send_fails net destination m s"
  shows "\<exists>s'. send_task net destination m s = Some s' \<and>
    inbox s' = inbox s @ [MHyparview (Disconnect \<lparr>dc_sender = destination, dc_alive = False\<rparr>)] \<and>
    remote_nodes s' = (remote_nodes s)(local_id destination := None) \<and> local_node s' \<noteq> None"
proof -
  obtain k h where s: "local_node s = Some (k, h)" using assms(1) by auto
  show ?thesis unfolding failing_send_eq [OF s assms(2)] using s by (simp add: inbox_def)
qed

text \<open>
  Sending through the server.  A connection already cached is used without connecting
  again; otherwise the addresses are tried in order and the first that connects is cached.  A
  task that cannot encode or send the message leaves a disconnect of the destination in the local node's inbox and
  no connection to it in the cache; a task that can leaves the inbox alone.
\<close>

theorem send_task_reports_failure:
  assumes node: "local_node s \<noteq> None"
  shows "\<exists>s'. send_task net destination m s = Some s' \<and>
    (if \<exists>c. net_encodes net m \<and> net_transmit net c m \<and>
          (case remote_nodes s (local_id destination) of
             Some c' \<Rightarrow> c' = c
           | None \<Rightarrow> \<exists>pre addr post. addresses destination = pre @ addr # post \<and>
               (\<forall>x \<in> set pre. net_connect net x (local_id destination) = Unreachable) \<and>
               net_connect net addr (local_id destination) = Connected c)
     then inbox s' = inbox s \<and> remote_nodes s' (local_id destination) \<noteq> None
     else inbox s' = inbox s @ [MHyparview (Disconnect \<lparr>dc_sender = destination, dc_alive = False\<rparr>)] \<and>
       remote_nodes s' (local_id destination) = None)"
proof -
  obtain k h where s: "local_node s = Some (k, h)" using node by auto
  note defs = send_task_def send_protocol_message_async_def get_connection_def
    get_local_nodeid_def notify_self_disconnect_def
  show ?thesis
  proof (cases "net_encodes net m")
    case False
    then show ?thesis using s by (simp add: defs remove_remote_node_def)
  next
    case True
    show ?thesis
    proof (cases "remote_nodes s (local_id destination)")
      case (Some c)
      then show ?thesis using s True
        by (cases "net_transmit net c m") (simp_all add: defs remove_remote_node_def)
    next
      case None
      show ?thesis
      proof (cases "connect_first net (local_id destination) (addresses destination)")
        case (Inl e)
        then show ?thesis using s None True unfolding connect_first_Inr [symmetric]
          by (simp add: defs) (simp add: remove_remote_node_def)
      next
        case (Inr c)
        then show ?thesis using s None True unfolding connect_first_Inr [symmetric]
          by (cases "net_transmit net c m") (simp_all add: defs, simp_all add: remove_remote_node_def)
      qed
    qed
  qed
qed

definition dead_network :: "(nat, nat, string, nat) network" where
  "dead_network = \<lparr>net_encodes = (\<lambda>_. True), net_connect = (\<lambda>_ _. Unreachable), net_transmit = (\<lambda>_ _. False)\<rparr>"

theorem send_task_reports_failure_witness:
  "\<exists>s'. send_task dead_network \<lparr>addresses = [1, 2], local_id = 5\<rparr> (MPlumtreeStream StreamEnd)
     (register_local_node (node_handle_new 0) server_new) = Some s' \<and>
     inbox s' = [MHyparview (Disconnect \<lparr>dc_sender = \<lparr>addresses = [1, 2], local_id = 5\<rparr>, dc_alive = False\<rparr>)]"
proof -
  let ?s = "register_local_node (node_handle_new 0) server_new :: (nat, nat, string, nat) server_handle"
  have "local_node ?s \<noteq> None" "inbox ?s = []"
    by (simp_all add: register_local_node_def inbox_def node_handle_new_def)
  with send_task_reports_failure [of ?s dead_network "\<lparr>addresses = [1, 2], local_id = 5\<rparr>"
      "MPlumtreeStream StreamEnd"]
  show ?thesis by (auto simp: dead_network_def split: if_splits)
qed

end
