(* ===== verification/Ordered_Map.thy ===== *)
theory Ordered_Map
  imports Prelude
begin

text \<open>
  The ordered map of the standard library (\<^verbatim>\<open>std::collections::BTreeMap\<close>) as the application
  uses it: the association list of its entries in the order of the keys.  The interface is the
  locale \<open>ordered_map\<close>.
\<close>

section \<open>The interface\<close>

locale ordered_map =
  fixes ins :: "'k::linorder \<Rightarrow> 'v \<Rightarrow> 'm \<Rightarrow> 'm"
    and del :: "'k \<Rightarrow> 'm \<Rightarrow> 'm"
    and look :: "'m \<Rightarrow> 'k \<Rightarrow> 'v option"
    and least :: "'m \<Rightarrow> ('k \<times> 'v) option"
    and inv :: "'m \<Rightarrow> bool"
  assumes look_ins: "inv m \<Longrightarrow> look (ins k v m) = (look m)(k \<mapsto> v)"
    and look_del: "inv m \<Longrightarrow> look (del k m) = (look m)(k := None)"
    and inv_ins: "inv m \<Longrightarrow> inv (ins k v m)"
    and inv_del: "inv m \<Longrightarrow> inv (del k m)"
    and least_Some: "inv m \<Longrightarrow> least m = Some (k, v) \<Longrightarrow>
      look m k = Some v \<and> (\<forall>k' \<in> dom (look m). k \<le> k')"
    and least_None: "inv m \<Longrightarrow> least m = None \<longleftrightarrow> look m = Map.empty"
begin

lemma least_after_del:
  assumes "inv m" "least m = Some (k, v)" "least (del k m) = Some (k', v')"
  shows "k < k'"
proof -
  have "look (del k m) k' = Some v'" using least_Some inv_del assms by blast
  then have "k' \<noteq> k" "k' \<in> dom (look m)" using look_del assms(1) by (auto split: if_splits)
  then show ?thesis using least_Some [OF assms(1,2)] by force
qed

lemma least_exists: "inv m \<Longrightarrow> k \<in> dom (look m) \<Longrightarrow> \<exists>k' v'. least m = Some (k', v') \<and> k' \<le> k"
  using least_None least_Some by (cases "least m") fastforce+

end

section \<open>Sorted association lists\<close>

fun btree_insert :: "'k::linorder \<Rightarrow> 'v \<Rightarrow> ('k \<times> 'v) list \<Rightarrow> ('k \<times> 'v) list" where
  "btree_insert k v [] = [(k, v)]"
| "btree_insert k v ((k', v') # m) =
     (if k < k' then (k, v) # (k', v') # m
      else if k = k' then (k, v) # m
      else (k', v') # btree_insert k v m)"

fun btree_remove :: "'k \<Rightarrow> ('k \<times> 'v) list \<Rightarrow> ('k \<times> 'v) list" where
  "btree_remove k [] = []"
| "btree_remove k ((k', v') # m) = (if k = k' then m else (k', v') # btree_remove k m)"

definition btree_first :: "('k \<times> 'v) list \<Rightarrow> ('k \<times> 'v) option" where
  "btree_first m = (case m of [] \<Rightarrow> None | e # _ \<Rightarrow> Some e)"

definition btree_ok :: "('k::linorder \<times> 'v) list \<Rightarrow> bool" where
  "btree_ok m \<longleftrightarrow> sorted_wrt (<) (map fst m)"

lemma btree_insert_keys: "fst ` set (btree_insert k v m) = insert k (fst ` set m)"
  by (induction k v m rule: btree_insert.induct) auto

lemma btree_remove_keys: "set (btree_remove k m) \<subseteq> set m"
  by (induction k m rule: btree_remove.induct) auto

lemma btree_insert_ok: "btree_ok m \<Longrightarrow> btree_ok (btree_insert k v m)"
proof (induction k v m rule: btree_insert.induct)
  case (2 k v k' v' m)
  then show ?case using btree_insert_keys [of k v m] by (auto simp: btree_ok_def)
qed (simp add: btree_ok_def)

lemma btree_remove_ok: "btree_ok m \<Longrightarrow> btree_ok (btree_remove k m)"
proof (induction k m rule: btree_remove.induct)
  case (2 k k' v' m)
  then show ?case using btree_remove_keys [of k m] by (auto simp: btree_ok_def)
qed simp

lemma map_of_btree_insert: "btree_ok m \<Longrightarrow> map_of (btree_insert k v m) = (map_of m)(k \<mapsto> v)"
  by (induction k v m rule: btree_insert.induct) (auto simp: btree_ok_def)

lemma map_of_btree_remove: "btree_ok m \<Longrightarrow> map_of (btree_remove k m) = (map_of m)(k := None)"
proof (induction k m rule: btree_remove.induct)
  case (2 k k' v' m)
  have "map_of m k' = None" using "2.prems" by (auto simp: btree_ok_def map_of_eq_None_iff)
  with 2 show ?case by (auto simp: btree_ok_def)
qed simp

interpretation btree: ordered_map btree_insert btree_remove map_of btree_first btree_ok
proof
  fix m :: "('k::linorder \<times> 'v) list" and k v
  assume ok: "btree_ok m"
  show "map_of (btree_insert k v m) = (map_of m)(k \<mapsto> v)" using ok by (rule map_of_btree_insert)
  show "map_of (btree_remove k m) = (map_of m)(k := None)" using ok by (rule map_of_btree_remove)
  show "btree_ok (btree_insert k v m)" using ok by (rule btree_insert_ok)
  show "btree_ok (btree_remove k m)" using ok by (rule btree_remove_ok)
  show "btree_first m = None \<longleftrightarrow> map_of m = Map.empty"
    by (cases m) (auto simp: btree_first_def fun_eq_iff)
  show "map_of m k = Some v \<and> (\<forall>k' \<in> dom (map_of m). k \<le> k')" if "btree_first m = Some (k, v)"
    using that ok
    by (cases m) (force simp: btree_first_def btree_ok_def dom_map_of_conv_image_fst)+
qed

lemma btree_length_remove: "map_of m k = Some v \<Longrightarrow> length m = Suc (length (btree_remove k m))"
  by (induction k m rule: btree_remove.induct) (auto split: if_splits)

end
