(* ===== verification/P2P_Node.thy ===== *)
theory P2P_Node
  imports Node_Server Plumtree_Node Ordered_Map
begin

text \<open>
  The application's node (\<^verbatim>\<open>p2p/src/p2p/node.rs\<close>): it drives the HyParView and the Plumtree
  node, hands their messages to the server and releases the delivered messages in the order of
  their timestamps.  System time and the thread's random numbers are a parameter.
\<close>

section \<open>Environment\<close>

text \<open>
  The system clock, in milliseconds since the epoch (\<^term>\<open>None\<close>: a time before it), and
  \<^verbatim>\<open>rand::random::<u64>()\<close>, over a state of the outside world.
\<close>

record 'w world_ops =
  sys_now :: "'w \<Rightarrow> nat option \<times> 'w"
  rand_u64 :: "'w \<Rightarrow> nat \<times> 'w"

record ('a, 'k, 'r, 'w) env =
  env_rng :: "(('a, 'k) node_id, 'r) rng_ops"
  env_iter :: "(('a, 'k) node_id, ('a, 'k) message_id) iter_ops"
  env_world :: "'w world_ops"

definition as_u64 :: "nat \<Rightarrow> nat" where
  "as_u64 n = n mod 2 ^ 64"

section \<open>State\<close>

definition MAX_OUT_OF_ORDER_DELAY_MS :: nat where "MAX_OUT_OF_ORDER_DELAY_MS = 1000"
definition MAX_PROCESSED_CACHE_LEN :: nat where "MAX_PROCESSED_CACHE_LEN = 50"
definition MAX_CLEANUP_PER_CALL :: nat where "MAX_CLEANUP_PER_CALL = 5"

record parameters =
  tick_interval :: duration
  hyparview_shuffle_interval :: duration
  hyparview_sync_active_view_interval :: duration
  hyparview_fill_active_view_interval :: duration

text \<open>\<^verbatim>\<open>Duration::from_secs_f64(1.0 / 10.0)\<close> is 100 ms.\<close>

definition default_parameters :: parameters where
  "default_parameters =
     \<lparr>tick_interval = from_millis 100, hyparview_shuffle_interval = from_secs 300,
      hyparview_sync_active_view_interval = from_secs 60,
      hyparview_fill_active_view_interval = from_secs 30\<rparr>"

type_synonym ('a, 'k, 'p) buffer = "(nat \<times> (('a, 'k, 'p) plumtree_app_message \<times> nat)) list"

record ('a, 'k, 'p, 'c, 'r, 'w) p2p_node =
  hyparview_node :: "(('a, 'k) node_id, 'r) hv_node"
  plumtree_node :: "(('a, 'k) node_id, ('a, 'k) message_id, 'p) pt_node"
  message_seqno :: nat
  message_buffer :: "('a, 'k, 'p) buffer"
  processed_messages :: "nat list"
  server :: "('a, 'k, 'p, 'c) server_handle"
  params :: parameters
  hyparview_shuffle_time :: node_time
  hyparview_sync_active_view_time :: node_time
  hyparview_fill_active_view_time :: node_time
  world :: 'w

definition gen_interval :: "'w world_ops \<Rightarrow> duration \<Rightarrow> 'w \<Rightarrow> (duration \<times> 'w) option" where
  "gen_interval W base w =
     (let millis = as_secs base * 1000 + subsec_millis base in
      if 2 ^ 64 \<le> millis \<or> millis div 10 = 0 then None
      else
        let (r, w) = rand_u64 W w
        in map_option (\<lambda>d. (d, w)) (duration_add base (from_millis (r mod (millis div 10)))))"

section \<open>Construction and the calls of the user\<close>

text \<open>\<open>rng\<close> is the generator seeded at construction.\<close>

definition p2p_new ::
  "('a, 'k, 'r, 'w) env \<Rightarrow> 'r \<Rightarrow> ('a, 'k) node_id \<Rightarrow> ('a, 'k, 'p, 'c) server_handle \<Rightarrow> 'w \<Rightarrow>
   ('a, 'k, 'p, 'c, 'r, 'w) p2p_node option" where
  "p2p_new E rng node_id srv w = do {
     let srv = register_local_node (node_handle_new (local_id node_id)) srv;
     let pt = pt_new node_id;
     let now = clock_now (pt_clock pt);
     let ps = default_parameters;
     (d1, w) \<leftarrow> gen_interval (env_world E) (hyparview_shuffle_interval ps) w;
     t1 \<leftarrow> node_time_add now d1;
     (d2, w) \<leftarrow> gen_interval (env_world E) (hyparview_sync_active_view_interval ps) w;
     t2 \<leftarrow> node_time_add now d2;
     (d3, w) \<leftarrow> gen_interval (env_world E) (hyparview_fill_active_view_interval ps) w;
     t3 \<leftarrow> node_time_add now d3;
     Some \<lparr>hyparview_node = hv_new node_id rng, plumtree_node = pt, message_seqno = 0,
           message_buffer = [], processed_messages = [], server = srv, params = ps,
           hyparview_shuffle_time = t1, hyparview_sync_active_view_time = t2,
           hyparview_fill_active_view_time = t3, world = w\<rparr>
   }"

definition p2p_join ::
  "('a, 'k) node_id \<Rightarrow> ('a, 'k, 'p, 'c, 'r, 'w) p2p_node \<Rightarrow> ('a, 'k, 'p, 'c, 'r, 'w) p2p_node" where
  "p2p_join contact n = n\<lparr>hyparview_node := hv_join contact (hyparview_node n)\<rparr>"

definition p2p_id :: "('a, 'k, 'p, 'c, 'r, 'w) p2p_node \<Rightarrow> ('a, 'k) node_id" where
  "p2p_id n = pt_id (plumtree_node n)"

definition p2p_broadcast ::
  "('a, 'k, 'r, 'w) env \<Rightarrow> 'p \<Rightarrow> ('a, 'k, 'p, 'c, 'r, 'w) p2p_node \<Rightarrow>
   (('a, 'k) message_id \<times> ('a, 'k, 'p, 'c, 'r, 'w) p2p_node) option" where
  "p2p_broadcast E payload n = do {
     let (t, w) = sys_now (env_world E) (world n);
     ms \<leftarrow> t;
     let i = message_id_new (p2p_id n) (message_seqno n) (as_u64 ms);
     s \<leftarrow> u64_add (message_seqno n) 1;
     Some (i, n\<lparr>message_seqno := s, world := w,
                plumtree_node := broadcast_message (env_iter E) \<lparr>msg_id = i, msg_payload = payload\<rparr>
                                   (plumtree_node n)\<rparr>)
   }"

section \<open>Release in timestamp order\<close>

text \<open>\<^verbatim>\<open>unwrap_or_else(|_| Duration::from_secs(0)).as_millis() as u64\<close>\<close>

definition now_or_zero :: "('a, 'k, 'r, 'w) env \<Rightarrow> 'w \<Rightarrow> nat \<times> 'w" where
  "now_or_zero E w = (case sys_now (env_world E) w of (t, w) \<Rightarrow> (case t of None \<Rightarrow> 0 | Some ms \<Rightarrow> as_u64 ms, w))"

text \<open>Removing the first entry of the buffer and recording its timestamp as processed.\<close>

definition release ::
  "nat \<Rightarrow> ('a, 'k, 'p, 'c, 'r, 'w) p2p_node \<Rightarrow>
   ('a, 'k, 'p) plumtree_app_message option \<times> ('a, 'k, 'p, 'c, 'r, 'w) p2p_node" where
  "release timestamp n =
     (case map_of (message_buffer n) timestamp of
        None \<Rightarrow> (None, n)
      | Some (message, _) \<Rightarrow>
          (Some message, n\<lparr>message_buffer := btree_remove timestamp (message_buffer n),
                           processed_messages := processed_messages n @ [timestamp]\<rparr>))"

definition cleanup_expired_messages ::
  "('a, 'k, 'r, 'w) env \<Rightarrow> ('a, 'k, 'p, 'c, 'r, 'w) p2p_node \<Rightarrow>
   ('a, 'k, 'p) plumtree_app_message option \<times> ('a, 'k, 'p, 'c, 'r, 'w) p2p_node" where
  "cleanup_expired_messages E n =
     (let (now, w) = now_or_zero E (world n);
          len = length (processed_messages n);
          to_remove = (if len > MAX_PROCESSED_CACHE_LEN
                       then min (len - MAX_PROCESSED_CACHE_LEN) MAX_CLEANUP_PER_CALL else 0);
          n = n\<lparr>world := w, processed_messages := drop to_remove (processed_messages n)\<rparr>
      in case btree_first (message_buffer n) of
           None \<Rightarrow> (None, n)
         | Some (timestamp, (_, receive_time)) \<Rightarrow>
             if receive_time \<le> now \<and> now - receive_time > MAX_OUT_OF_ORDER_DELAY_MS
             then release timestamp n else (None, n))"

definition process_sequential_messages ::
  "('a, 'k, 'r, 'w) env \<Rightarrow> ('a, 'k, 'p, 'c, 'r, 'w) p2p_node \<Rightarrow>
   ('a, 'k, 'p) plumtree_app_message option \<times> ('a, 'k, 'p, 'c, 'r, 'w) p2p_node" where
  "process_sequential_messages E n =
     (case cleanup_expired_messages E n of
        (Some message, n) \<Rightarrow> (Some message, n)
      | (None, n) \<Rightarrow>
          (case btree_first (message_buffer n) of
             None \<Rightarrow> (None, n)
           | Some (timestamp, _) \<Rightarrow>
               if processed_messages n = [] then (None, n)
               else if last (processed_messages n) > timestamp then (None, n)
               else release timestamp n))"

section \<open>Actions and messages\<close>

definition handle_hyparview_action ::
  "('a, 'k, 'r, 'w) env \<Rightarrow> ('a, 'k) node_id hv_action \<Rightarrow> ('a, 'k, 'p, 'c, 'r, 'w) p2p_node \<Rightarrow>
   ('a, 'k, 'p, 'c, 'r, 'w) p2p_node option" where
  "handle_hyparview_action E action n =
     (case action of
        HvSend destination message \<Rightarrow>
          Some (n\<lparr>server := send_protocol_message_sync destination (MHyparview message) (server n)\<rparr>)
      | HvNotify (NeighborUp node) \<Rightarrow>
          Some (n\<lparr>plumtree_node := handle_neighbor_up (env_iter E) node (plumtree_node n)\<rparr>)
      | HvNotify (NeighborDown node) \<Rightarrow>
          map_option (\<lambda>p. n\<lparr>plumtree_node := p\<rparr>) (handle_neighbor_down node (plumtree_node n))
      | HvDisconnect node \<Rightarrow>
          map_option (\<lambda>h. n\<lparr>hyparview_node := h, server := remove_remote_node (local_id node) (server n)\<rparr>)
            (hv_disconnect (env_rng E) node False (hyparview_node n)))"

definition handle_plumtree_action ::
  "('a, 'k, 'r, 'w) env \<Rightarrow> (('a, 'k) node_id, ('a, 'k) message_id, 'p) pt_action \<Rightarrow>
   ('a, 'k, 'p, 'c, 'r, 'w) p2p_node \<Rightarrow>
   ('a, 'k, 'p) plumtree_app_message option \<times> ('a, 'k, 'p, 'c, 'r, 'w) p2p_node" where
  "handle_plumtree_action E action n =
     (case action of
        PtSend destination message \<Rightarrow>
          (None, n\<lparr>server := send_protocol_message_sync destination (MPlumtree message) (server n)\<rparr>)
      | Deliver message \<Rightarrow>
          let (receive_time, w) = now_or_zero E (world n);
              n = n\<lparr>world := w,
                    message_buffer := btree_insert (mid_timestamp (msg_id message))
                                        (message, receive_time) (message_buffer n)\<rparr>
          in process_sequential_messages E n)"

text \<open>A stream message reaches \<^verbatim>\<open>todo!()\<close>, which panics.\<close>

definition handle_p2pnode_protocol_message ::
  "('a, 'k, 'r, 'w) env \<Rightarrow> ('a, 'k, 'p) p2p_message \<Rightarrow> ('a, 'k, 'p, 'c, 'r, 'w) p2p_node \<Rightarrow>
   (bool \<times> ('a, 'k, 'p, 'c, 'r, 'w) p2p_node) option" where
  "handle_p2pnode_protocol_message E message n =
     (case message of
        MHyparview m \<Rightarrow>
          map_option (\<lambda>h. (True, n\<lparr>hyparview_node := h\<rparr>))
            (hv_handle_protocol_message (env_rng E) m (hyparview_node n))
      | MPlumtree m \<Rightarrow>
          map_option (\<lambda>(_, p). (False, n\<lparr>plumtree_node := p\<rparr>))
            (pt_handle_protocol_message (env_iter E) m (plumtree_node n))
      | MPlumtreeStream _ \<Rightarrow> None)"

text \<open>The three periodic jobs of a tick.\<close>

definition tick_shuffle ::
  "('a, 'k, 'r, 'w) env \<Rightarrow> node_time \<Rightarrow> ('a, 'k, 'p, 'c, 'r, 'w) p2p_node \<Rightarrow>
   ('a, 'k, 'p, 'c, 'r, 'w) p2p_node option" where
  "tick_shuffle E now n =
     (if hyparview_shuffle_time n \<le> now then do {
        h \<leftarrow> shuffle_passive_view (env_rng E) (hyparview_node n);
        (d, w) \<leftarrow> gen_interval (env_world E) (hyparview_shuffle_interval (params n)) (world n);
        t \<leftarrow> node_time_add now d;
        Some (n\<lparr>hyparview_node := h, hyparview_shuffle_time := t, world := w\<rparr>)
      } else Some n)"

definition tick_sync ::
  "('a, 'k, 'r, 'w) env \<Rightarrow> node_time \<Rightarrow> ('a, 'k, 'p, 'c, 'r, 'w) p2p_node \<Rightarrow>
   ('a, 'k, 'p, 'c, 'r, 'w) p2p_node option" where
  "tick_sync E now n =
     (if hyparview_sync_active_view_time n \<le> now then do {
        let h = sync_active_view (hyparview_node n);
        (d, w) \<leftarrow> gen_interval (env_world E) (hyparview_sync_active_view_interval (params n)) (world n);
        t \<leftarrow> node_time_add now d;
        Some (n\<lparr>hyparview_node := h, hyparview_sync_active_view_time := t, world := w\<rparr>)
      } else Some n)"

definition tick_fill ::
  "('a, 'k, 'r, 'w) env \<Rightarrow> node_time \<Rightarrow> ('a, 'k, 'p, 'c, 'r, 'w) p2p_node \<Rightarrow>
   ('a, 'k, 'p, 'c, 'r, 'w) p2p_node option" where
  "tick_fill E now n =
     (if hyparview_fill_active_view_time n \<le> now then do {
        h \<leftarrow> fill_active_view (env_rng E) (hyparview_node n);
        (d, w) \<leftarrow> gen_interval (env_world E) (hyparview_fill_active_view_interval (params n)) (world n);
        t \<leftarrow> node_time_add now d;
        Some (n\<lparr>hyparview_node := h, hyparview_fill_active_view_time := t, world := w\<rparr>)
      } else Some n)"

definition handle_tick ::
  "('a, 'k, 'r, 'w) env \<Rightarrow> ('a, 'k, 'p, 'c, 'r, 'w) p2p_node \<Rightarrow> ('a, 'k, 'p, 'c, 'r, 'w) p2p_node option" where
  "handle_tick E n = do {
     pt \<leftarrow> pt_tick (tick_interval (params n)) (plumtree_node n);
     let now = clock_now (pt_clock pt);
     n \<leftarrow> tick_shuffle E now (n\<lparr>plumtree_node := pt\<rparr>);
     n \<leftarrow> tick_sync E now n;
     tick_fill E now n
   }"

text \<open>
  Leaving: every active neighbour is sent a disconnect, synchronously, and is disconnected
  locally whether the send succeeded or not.
\<close>

fun leave_peers ::
  "('a, 'k, 'p, 'c) network \<Rightarrow> ('a, 'k) node_id \<Rightarrow> ('a, 'k) node_id list \<Rightarrow>
   ('a, 'k, 'p, 'c) server_handle \<Rightarrow> ('a, 'k, 'p, 'c) server_handle option" where
  "leave_peers net me [] s = Some s"
| "leave_peers net me (peer # peers) s =
     (case send_protocol_message_async net peer
             (MHyparview (Disconnect \<lparr>dc_sender = me, dc_alive = False\<rparr>)) s of
        None \<Rightarrow> None
      | Some (_, s) \<Rightarrow> leave_peers net me peers (notify_self_disconnect peer s))"

definition p2p_leave ::
  "('a, 'k, 'p, 'c) network \<Rightarrow> ('a, 'k, 'p, 'c, 'r, 'w) p2p_node \<Rightarrow>
   ('a, 'k, 'p, 'c, 'r, 'w) p2p_node option" where
  "p2p_leave net n =
     map_option (\<lambda>s. n\<lparr>server := s\<rparr>)
       (leave_peers net (p2p_id n) (active_view (hyparview_node n)) (server n))"

end
