(* ===== verification/P2P_Loop.thy ===== *)
theory P2P_Loop
  imports P2P_Node HyParView_Handlers Plumtree_Props
begin

text \<open>
  The loops of \<^verbatim>\<open>poll_next\<close>: the actions of HyParView, those of Plumtree, the incoming messages,
  and the outer loop over the three, with the proof that each of them ends.
\<close>

section \<open>HyParView actions\<close>

lemma hv_disconnect_shrinks:
  assumes "hv_disconnect R p False h = Some h'"
  shows "h' = h \<or> length (active_view h') < length (active_view h)"
proof -
  have "handle_disconnect R \<lparr>dc_sender = p, dc_alive = False\<rparr> h = Some h'"
    using assms by (simp add: hv_disconnect_def hv_handle_protocol_message_def mk_disconnect_def)
  then show ?thesis
  proof (cases rule: handle_disconnect_cases)
    case (1 rem a b)
    show ?thesis
    proof (cases rem)
      case True
      then have "length (active_view h) = Suc (length (active_view a))"
        using 1(1) by (auto simp: remove_from_active_view_def bind_eq_Some_conv
            split: option.splits dest: remove_by_index_length)
      moreover have "active_view h' = active_view a"
        using 1(2) [OF True] 1(4) by (metis disconnect_message.select_convs fill_active_view_frame(1)
            option.inject remove_from_passive_view_frame(1))
      ultimately show ?thesis by simp
    next
      case False
      then show ?thesis using 1
        by (auto simp: remove_from_active_view_def bind_eq_Some_conv split: option.splits)
    qed
  qed
qed

lemma handle_hyparview_action_shrinks:
  assumes "handle_hyparview_action E a n = Some n'"
  shows "hyparview_node n' = hyparview_node n \<or>
    length (active_view (hyparview_node n')) < length (active_view (hyparview_node n))"
  using assms
  by (auto simp: handle_hyparview_action_def split: hv_action.splits hv_event.splits
      dest: hv_disconnect_shrinks)

function drain_hyparview ::
  "('a, 'k, 'r, 'w) env \<Rightarrow> ('a, 'k, 'p, 'c, 'r, 'w) p2p_node \<Rightarrow>
   ('a, 'k, 'p, 'c, 'r, 'w) p2p_node option" where
  "drain_hyparview E n =
     (case hv_poll_action (hyparview_node n) of
        (None, h) \<Rightarrow> Some n
      | (Some action, h) \<Rightarrow>
          (case handle_hyparview_action E action (n\<lparr>hyparview_node := h\<rparr>) of
             None \<Rightarrow> None
           | Some n' \<Rightarrow> drain_hyparview E n'))"
  by pat_completeness auto
termination
proof (relation "measures [\<lambda>(_, n). length (active_view (hyparview_node n)),
    \<lambda>(_, n). length (hv_actions (hyparview_node n))]", goal_cases)
  case (2 E n x h a n')
  then have "h = hyparview_node n\<lparr>hv_actions := tl (hv_actions (hyparview_node n))\<rparr>"
    "hv_actions (hyparview_node n) \<noteq> []"
    by (auto simp: hv_poll_action_def split: list.splits)
  then show ?case using handle_hyparview_action_shrinks [OF 2(3)] by auto
qed simp

declare drain_hyparview.simps [simp del]

section \<open>Plumtree actions\<close>

text \<open>Expiring a timer queues at most one action and removes at least one unit of work.\<close>

definition pt_load :: "('n, 'm, 'p) pt_node \<Rightarrow> nat" where
  "pt_load n = missing_weight (missings n) + length (pt_actions n)"

lemma pop_expired_None_weight:
  "pop_expired clock mm = Some (None, mm') \<Longrightarrow> missing_weight mm' \<le> missing_weight mm"
proof (induction clock mm rule: pop_expired.induct)
  case (1 clock mm)
  show ?case
  proof (cases "mm' = mm")
    case False
    then obtain x item q mm1 where x: "heap_peek (timeout_queue mm) = Some x"
      "expiry_time x \<le> clock_now clock"
      and pop: "heap_pop expiry_time (timeout_queue mm) = Some (item, q)"
      and item: "expire_item item (mm\<lparr>timeout_queue := q\<rparr>) = Some (None, mm1)"
      and rest: "pop_expired clock mm1 = Some (None, mm')"
      using "1.prems" pop_expired.simps [of clock mm]
      by (auto split: option.splits if_splits prod.splits)
    have "missing_weight mm1 \<le> missing_weight mm"
      using expire_item_effect(3) [OF item] heap_pop_weight [OF pop] by simp
    with "1.IH" [OF x(1) _ pop refl item] x(2) rest show ?thesis by simp
  qed simp
qed

lemma handle_expiration_load: "handle_expiration n = Some n' \<Longrightarrow> pt_load n' \<le> pt_load n"
proof (induction n rule: handle_expiration.induct)
  case (1 n)
  from "1.prems" obtain r mm where pop: "pop_expired (pt_clock n) (missings n) = Some (r, mm)"
    by (subst (asm) handle_expiration.simps) (auto split: option.splits)
  show ?case
  proof (cases r)
    case None
    then have "n' = n\<lparr>missings := mm\<rparr>" using "1.prems" pop by (subst (asm) handle_expiration.simps) simp
    then show ?thesis using pop_expired_None_weight pop None by (auto simp: pt_load_def)
  next
    case (Some ihave)
    let ?n = "snd (send_graft ihave (n\<lparr>missings := mm\<rparr>))"
    have "pt_load ?n \<le> pt_load n"
      using pop_expired_weight [of "pt_clock n" "missings n" ihave mm] pop Some
      by (auto simp: pt_load_def send_graft_def queue_defs make_eager_def)
    moreover have "handle_expiration ?n = Some n'"
      using "1.prems" pop Some by (subst (asm) handle_expiration.simps) simp
    ultimately show ?thesis using "1.IH" [OF pop refl Some] by simp
  qed
qed

lemma pt_poll_action_load: "pt_poll_action n = Some (Some a, n') \<Longrightarrow> pt_load n' < pt_load n"
proof -
  assume "pt_poll_action n = Some (Some a, n')"
  then obtain n1 where n1: "handle_expiration n = Some n1" "n' = n1\<lparr>pt_actions := tl (pt_actions n1)\<rparr>"
    and "Some a = (case pt_actions n1 of [] \<Rightarrow> None | x # _ \<Rightarrow> Some x)"
    by (auto simp: pt_poll_action_expiration)
  then show ?thesis using handle_expiration_load [OF n1(1)]
    by (cases "pt_actions n1") (simp_all add: pt_load_def)
qed

text \<open>The release of messages leaves the two protocol nodes and the server alone.\<close>

definition same_nodes ::
  "('a, 'k, 'p, 'c, 'r, 'w) p2p_node \<Rightarrow> ('a, 'k, 'p, 'c, 'r, 'w) p2p_node \<Rightarrow> bool" where
  "same_nodes n n' \<longleftrightarrow> plumtree_node n' = plumtree_node n \<and> hyparview_node n' = hyparview_node n \<and>
     inbox (server n') = inbox (server n) \<and> message_seqno n' = message_seqno n \<and> params n' = params n"

lemma release_frame: "release t n = (r, n') \<Longrightarrow> same_nodes n n'"
  by (auto simp: release_def same_nodes_def split: option.splits)

lemma cleanup_frame: "cleanup_expired_messages E n = (r, n') \<Longrightarrow> same_nodes n n'"
  by (auto simp: cleanup_expired_messages_def Let_def same_nodes_def
      split: option.splits prod.splits if_splits dest!: release_frame)

lemma process_frame: "process_sequential_messages E n = (r, n') \<Longrightarrow> same_nodes n n'"
  by (auto simp: process_sequential_messages_def same_nodes_def
      split: prod.splits option.splits if_splits dest!: cleanup_frame release_frame)

lemma handle_plumtree_action_frame: "handle_plumtree_action E a n = (r, n') \<Longrightarrow> same_nodes n n'"
  by (auto simp: handle_plumtree_action_def Let_def same_nodes_def
      split: pt_action.splits prod.splits dest!: process_frame)

text \<open>The result says whether a message is ready, and whether any action was handled.\<close>

function drain_plumtree ::
  "('a, 'k, 'r, 'w) env \<Rightarrow> ('a, 'k, 'p, 'c, 'r, 'w) p2p_node \<Rightarrow>
   (('a, 'k, 'p) plumtree_app_message option \<times> bool \<times> ('a, 'k, 'p, 'c, 'r, 'w) p2p_node) option" where
  "drain_plumtree E n =
     (case pt_poll_action (plumtree_node n) of
        None \<Rightarrow> None
      | Some (None, pt) \<Rightarrow> Some (None, False, n\<lparr>plumtree_node := pt\<rparr>)
      | Some (Some action, pt) \<Rightarrow>
          (case handle_plumtree_action E action (n\<lparr>plumtree_node := pt\<rparr>) of
             (Some message, n') \<Rightarrow> Some (Some message, True, n')
           | (None, n') \<Rightarrow> map_option (\<lambda>(r, _, n''). (r, True, n'')) (drain_plumtree E n')))"
  by pat_completeness auto
termination
  by (relation "measure (\<lambda>(_, n). pt_load (plumtree_node n))")
    (auto simp: same_nodes_def dest!: pt_poll_action_load handle_plumtree_action_frame [OF sym])

declare drain_plumtree.simps [simp del]

section \<open>Incoming messages\<close>

lemma handle_message_server:
  "handle_p2pnode_protocol_message E m n = Some (b, n') \<Longrightarrow> server n' = server n"
  by (auto simp: handle_p2pnode_protocol_message_def split: p2p_message.splits)

function recv_messages ::
  "('a, 'k, 'r, 'w) env \<Rightarrow> ('a, 'k, 'p, 'c, 'r, 'w) p2p_node \<Rightarrow>
   ('a, 'k, 'p, 'c, 'r, 'w) p2p_node option" where
  "recv_messages E n =
     (case poll_recv (server n) of
        (None, s) \<Rightarrow> Some n
      | (Some message, s) \<Rightarrow>
          (case handle_p2pnode_protocol_message E message (n\<lparr>server := s\<rparr>) of
             None \<Rightarrow> None
           | Some (True, n') \<Rightarrow> Some n'
           | Some (False, n') \<Rightarrow> recv_messages E n'))"
  by pat_completeness auto
termination
  by (relation "measure (\<lambda>(_, n). length (inbox (server n)))")
    (auto simp: poll_recv_def inbox_def split: option.splits list.splits dest!: handle_message_server)

declare recv_messages.simps [simp del]

section \<open>The outer loop\<close>

text \<open>One round: the ready message, if any, and whether anything was done.\<close>

definition poll_round ::
  "('a, 'k, 'r, 'w) env \<Rightarrow> ('a, 'k, 'p, 'c, 'r, 'w) p2p_node \<Rightarrow>
   (('a, 'k, 'p) plumtree_app_message option \<times> bool \<times> ('a, 'k, 'p, 'c, 'r, 'w) p2p_node) option" where
  "poll_round E n = do {
     n1 \<leftarrow> drain_hyparview E n;
     let did1 = (hv_actions (hyparview_node n) \<noteq> []);
     case process_sequential_messages E n1 of
       (Some message, n2) \<Rightarrow> Some (Some message, did1, n2)
     | (None, n2) \<Rightarrow> do {
         (ready, did2, n3) \<leftarrow> drain_plumtree E n2;
         case ready of
           Some message \<Rightarrow> Some (Some message, True, n3)
         | None \<Rightarrow> do {
             let did3 = (inbox (server n3) \<noteq> []);
             n4 \<leftarrow> recv_messages E n3;
             Some (None, did1 \<or> did2 \<or> did3, n4)
           }
       }
   }"

text \<open>Work that a round can find without a new message.\<close>

definition has_work :: "('a, 'k, 'p, 'c, 'r, 'w) p2p_node \<Rightarrow> bool" where
  "has_work n \<longleftrightarrow> hv_actions (hyparview_node n) \<noteq> [] \<or>
     (\<nexists>pt. pt_poll_action (plumtree_node n) = Some (None, pt))"

definition round_measure :: "('a, 'k, 'p, 'c, 'r, 'w) p2p_node \<Rightarrow> nat" where
  "round_measure n = 2 * length (inbox (server n)) + (if has_work n then 1 else 0)"

lemma handle_hyparview_action_inbox:
  "handle_hyparview_action E a n = Some n' \<Longrightarrow> inbox (server n') = inbox (server n)"
  by (auto simp: handle_hyparview_action_def split: hv_action.splits hv_event.splits)

lemma drain_hyparview_result:
  "drain_hyparview E n = Some n' \<Longrightarrow>
     inbox (server n') = inbox (server n) \<and> hv_actions (hyparview_node n') = [] \<and>
     (hv_actions (hyparview_node n) = [] \<longrightarrow> n' = n)"
proof (induction E n rule: drain_hyparview.induct)
  case (1 E n)
  show ?case
  proof (cases "hv_actions (hyparview_node n)")
    case Nil
    then show ?thesis using "1.prems"
      by (subst (asm) drain_hyparview.simps) (simp add: hv_poll_action_def)
  next
    case (Cons a as)
    let ?h = "hyparview_node n\<lparr>hv_actions := as\<rparr>"
    have poll: "hv_poll_action (hyparview_node n) = (Some a, ?h)"
      using Cons by (simp add: hv_poll_action_def)
    with "1.prems" obtain n1 where n1: "handle_hyparview_action E a (n\<lparr>hyparview_node := ?h\<rparr>) = Some n1"
      "drain_hyparview E n1 = Some n'"
      by (subst (asm) drain_hyparview.simps) (auto split: option.splits)
    with "1.IH" [OF poll [symmetric] refl n1(1)] handle_hyparview_action_inbox [OF n1(1)] Cons
    show ?thesis by simp
  qed
qed

lemma recv_messages_result:
  "recv_messages E n = Some n' \<Longrightarrow>
     (if inbox (server n) = [] then n' = n
      else length (inbox (server n')) < length (inbox (server n)))"
proof (induction E n rule: recv_messages.induct)
  case (1 E n)
  show ?case
  proof (cases "inbox (server n)")
    case Nil
    then show ?thesis using "1.prems" poll_recv_inbox(2) [OF Nil]
      by (subst (asm) recv_messages.simps) simp
  next
    case (Cons m ms)
    then obtain s where s: "poll_recv (server n) = (Some m, s)" "inbox s = ms"
      using poll_recv_inbox(1) [OF Cons] by blast
    with "1.prems" obtain b n1 where
      n1: "handle_p2pnode_protocol_message E m (n\<lparr>server := s\<rparr>) = Some (b, n1)"
      and rest: "if b then n' = n1 else recv_messages E n1 = Some n'"
      by (subst (asm) recv_messages.simps) (auto split: option.splits bool.splits)
    have "inbox (server n1) = ms" using handle_message_server [OF n1] s(2) by simp
    then show ?thesis using rest "1.IH" [OF s(1) [symmetric] refl n1 refl] Cons
      by (cases b) (auto split: if_splits)
  qed
qed

text \<open>A poll that finds nothing finds nothing again.\<close>

lemma pop_expired_idem:
  "pop_expired clock mm = Some (None, mm') \<Longrightarrow> pop_expired clock mm' = Some (None, mm')"
proof (induction clock mm rule: pop_expired.induct)
  case (1 clock mm)
  show ?case
  proof (cases "mm' = mm")
    case False
    then obtain x item q mm1 where x: "heap_peek (timeout_queue mm) = Some x"
      "expiry_time x \<le> clock_now clock"
      and pop: "heap_pop expiry_time (timeout_queue mm) = Some (item, q)"
      and item: "expire_item item (mm\<lparr>timeout_queue := q\<rparr>) = Some (None, mm1)"
      and rest: "pop_expired clock mm1 = Some (None, mm')"
      using "1.prems" pop_expired.simps [of clock mm]
      by (auto split: option.splits if_splits prod.splits)
    with "1.IH" [OF x(1) _ pop refl item] show ?thesis by simp
  qed (use "1.prems" in simp)
qed

lemma handle_expiration_idem: "handle_expiration n = Some n' \<Longrightarrow> handle_expiration n' = Some n'"
proof (induction n rule: handle_expiration.induct)
  case (1 n)
  from "1.prems" obtain r mm where pop: "pop_expired (pt_clock n) (missings n) = Some (r, mm)"
    by (subst (asm) handle_expiration.simps) (auto split: option.splits)
  show ?case
  proof (cases r)
    case None
    then have "n' = n\<lparr>missings := mm\<rparr>" using "1.prems" pop by (subst (asm) handle_expiration.simps) simp
    then show ?thesis using pop_expired_idem pop None by (subst handle_expiration.simps) fastforce
  next
    case (Some ihave)
    then have "handle_expiration (snd (send_graft ihave (n\<lparr>missings := mm\<rparr>))) = Some n'"
      using "1.prems" pop by (subst (asm) handle_expiration.simps) simp
    then show ?thesis using "1.IH" [OF pop refl Some] by simp
  qed
qed

lemma pt_poll_action_idem:
  assumes "pt_poll_action n = Some (None, n')"
  shows "pt_poll_action n' = Some (None, n')"
proof -
  obtain n1 where n1: "handle_expiration n = Some n1" "n' = n1\<lparr>pt_actions := tl (pt_actions n1)\<rparr>"
    and none: "None = (case pt_actions n1 of [] \<Rightarrow> None | x # _ \<Rightarrow> Some x)"
    using assms by (auto simp: pt_poll_action_expiration)
  then have "n' = n1" "pt_actions n1 = []" by (cases "pt_actions n1"; simp)+
  with handle_expiration_idem [OF n1(1)] show ?thesis by (simp add: pt_poll_action_expiration)
qed

lemma drain_plumtree_result:
  "drain_plumtree E n = Some (None, did, n') \<Longrightarrow>
     inbox (server n') = inbox (server n) \<and> hyparview_node n' = hyparview_node n \<and>
     pt_poll_action (plumtree_node n') = Some (None, plumtree_node n') \<and>
     (did \<longrightarrow> (\<nexists>pt. pt_poll_action (plumtree_node n) = Some (None, pt)))"
proof (induction E n arbitrary: did rule: drain_plumtree.induct)
  case (1 E n)
  from "1.prems" obtain a pt where poll: "pt_poll_action (plumtree_node n) = Some (a, pt)"
    by (subst (asm) drain_plumtree.simps) (auto split: option.splits)
  show ?case
  proof (cases a)
    case None
    then have "\<not> did" "n' = n\<lparr>plumtree_node := pt\<rparr>"
      using "1.prems" poll by (subst (asm) drain_plumtree.simps; simp)+
    then show ?thesis using pt_poll_action_idem poll None by simp
  next
    case (Some x)
    obtain r n1 where h: "handle_plumtree_action E x (n\<lparr>plumtree_node := pt\<rparr>) = (r, n1)" by fastforce
    with "1.prems" poll Some obtain did' where r: "r = None" "drain_plumtree E n1 = Some (None, did', n')"
      by (subst (asm) drain_plumtree.simps) (auto split: option.splits)
    have "same_nodes (n\<lparr>plumtree_node := pt\<rparr>) n1" using h by (rule handle_plumtree_action_frame)
    with "1.IH" [OF poll refl Some h [symmetric] r(1) r(2)] poll Some show ?thesis
      by (simp add: same_nodes_def)
  qed
qed

text \<open>The two ways a round ends: with a message, or through all three inner loops.\<close>

lemma poll_round_cases:
  assumes "poll_round E n = Some (r, did, n')"
  obtains (buffered) n1 where "drain_hyparview E n = Some n1"
      "process_sequential_messages E n1 = (r, n')" "r \<noteq> None"
  | (delivered) n1 n2 where "drain_hyparview E n = Some n1"
      "process_sequential_messages E n1 = (None, n2)" "drain_plumtree E n2 = Some (r, True, n')" "r \<noteq> None"
  | (idle) n1 n2 did2 n3 where "drain_hyparview E n = Some n1"
      "process_sequential_messages E n1 = (None, n2)" "drain_plumtree E n2 = Some (None, did2, n3)"
      "recv_messages E n3 = Some n'" "r = None"
      "did \<longleftrightarrow> hv_actions (hyparview_node n) \<noteq> [] \<or> did2 \<or> inbox (server n3) \<noteq> []"
proof -
  from assms obtain n1 where n1: "drain_hyparview E n = Some n1"
    by (auto simp: poll_round_def bind_eq_Some_conv)
  obtain r2 n2 where n2: "process_sequential_messages E n1 = (r2, n2)" by fastforce
  show thesis
  proof (cases r2)
    case (Some m)
    then show thesis using assms n1 n2 by (intro buffered [OF n1]) (auto simp: poll_round_def)
  next
    case None
    with assms n1 n2 obtain r3 did2 n3 where n3: "drain_plumtree E n2 = Some (r3, did2, n3)"
      by (auto simp: poll_round_def bind_eq_Some_conv)
    have did2: "r3 \<noteq> None \<Longrightarrow> did2" using n3
      by (subst (asm) drain_plumtree.simps) (auto split: option.splits prod.splits)
    show thesis
    proof (cases r3)
      case (Some m)
      then show thesis using assms n1 n2 n3 None did2
        by (intro delivered [OF n1]) (auto simp: poll_round_def)
    next
      case r3: None
      then show thesis using assms n1 n2 n3 None
        by (intro idle [OF n1]) (auto simp: poll_round_def bind_eq_Some_conv)
    qed
  qed
qed

lemma poll_round_progress:
  assumes "poll_round E n = Some (None, True, n')"
  shows "round_measure n' < round_measure n"
proof -
  obtain n1 n2 n3 did2 where n1: "drain_hyparview E n = Some n1"
    and n2: "process_sequential_messages E n1 = (None, n2)"
    and n3: "drain_plumtree E n2 = Some (None, did2, n3)"
    and n4: "recv_messages E n3 = Some n'"
    and did: "hv_actions (hyparview_node n) \<noteq> [] \<or> did2 \<or> inbox (server n3) \<noteq> []"
    using assms by (cases rule: poll_round_cases) simp_all
  note r1 = drain_hyparview_result [OF n1] and r2 = process_frame [OF n2, unfolded same_nodes_def]
    and r3 = drain_plumtree_result [OF n3] and r4 = recv_messages_result [OF n4]
  have same: "inbox (server n3) = inbox (server n)" using r1 r2 r3 by simp
  show ?thesis
  proof (cases "inbox (server n3) = []")
    case True
    then have "n' = n3" using r4 by simp
    then have "\<not> has_work n'" using r1 r2 r3 by (auto simp: has_work_def)
    moreover have "has_work n"
    proof (cases "hv_actions (hyparview_node n) = []")
      case no_actions: True
      then have "plumtree_node n2 = plumtree_node n" using r1 r2 by simp
      then show ?thesis using did no_actions True r3 by (simp add: has_work_def)
    qed (simp add: has_work_def)
    ultimately show ?thesis using \<open>n' = n3\<close> True same by (simp add: round_measure_def)
  next
    case False
    then show ?thesis using r4 same by (auto simp: round_measure_def)
  qed
qed

function poll_loop ::
  "('a, 'k, 'r, 'w) env \<Rightarrow> ('a, 'k, 'p, 'c, 'r, 'w) p2p_node \<Rightarrow>
   (('a, 'k, 'p) plumtree_app_message option \<times> ('a, 'k, 'p, 'c, 'r, 'w) p2p_node) option" where
  "poll_loop E n =
     (case poll_round E n of
        None \<Rightarrow> None
      | Some (Some message, did_something, n') \<Rightarrow> Some (Some message, n')
      | Some (None, did_something, n') \<Rightarrow>
          if did_something then poll_loop E n' else Some (None, n'))"
  by pat_completeness auto
termination
  by (relation "measure (\<lambda>(_, n). round_measure n)") (auto dest: poll_round_progress)

declare poll_loop.simps [simp del]

text \<open>\<open>tick\<close> is whether the tick interval is ready.  The result is the message that is ready, or
  \<^term>\<open>None\<close> for \<^verbatim>\<open>Poll::Pending\<close>.\<close>

definition poll_next ::
  "('a, 'k, 'r, 'w) env \<Rightarrow> bool \<Rightarrow> ('a, 'k, 'p, 'c, 'r, 'w) p2p_node \<Rightarrow>
   (('a, 'k, 'p) plumtree_app_message option \<times> ('a, 'k, 'p, 'c, 'r, 'w) p2p_node) option" where
  "poll_next E tick n = do {
     n \<leftarrow> (if tick then handle_tick E n else Some n);
     poll_loop E n
   }"

end
