(* ===== verification/P2P_Inv.thy ===== *)
theory P2P_Inv
  imports P2P_Loop
begin

text \<open>
  The invariant of the application's node.  Its centre is the agreement of the two protocol
  nodes: replaying the HyParView actions still queued on the peers Plumtree knows gives the
  active view.  Plumtree is a listener of neighbour notifications; the locale says what that
  takes.
\<close>

section \<open>Listeners of neighbour notifications\<close>

locale neighbor_listener =
  fixes up :: "'n \<Rightarrow> 's \<Rightarrow> 's"
    and down :: "'n \<Rightarrow> 's \<Rightarrow> 's option"
    and peers :: "'s \<Rightarrow> 'n set"
    and self :: "'s \<Rightarrow> 'n"
    and ok :: "'s \<Rightarrow> bool"
  assumes up_keeps: "ok s \<Longrightarrow> ok (up p s) \<and> self (up p s) = self s"
    and up_peers: "ok s \<Longrightarrow> p \<noteq> self s \<Longrightarrow> peers (up p s) = insert p (peers s)"
    and down_returns: "ok s \<Longrightarrow> \<exists>s'. down p s = Some s'"
    and down_keeps: "ok s \<Longrightarrow> down p s = Some s' \<Longrightarrow>
      ok s' \<and> self s' = self s \<and> peers s' = peers s - {p}"
begin

lemma follows_up:
  assumes "ok s" "replay (peers s) (HvNotify (NeighborUp p) # as) = Some T" "p \<noteq> self s"
  shows "replay (peers (up p s)) as = Some T"
  using assms by (simp add: up_peers split: if_splits)

lemma follows_down:
  assumes "ok s" "replay (peers s) (HvNotify (NeighborDown p) # as) = Some T" "down p s = Some s'"
  shows "replay (peers s') as = Some T"
  using assms down_keeps [OF assms(1,3)] by (simp split: if_splits)

end

interpretation plumtree: neighbor_listener "handle_neighbor_up I" handle_neighbor_down known_peers
  pt_id pt_wf for I
proof
  fix s s' :: "('n, 'm, 'p) pt_node" and p and I :: "('n, 'm) iter_ops"
  assume ok: "pt_wf s"
  show "pt_wf (handle_neighbor_up I p s) \<and> pt_id (handle_neighbor_up I p s) = pt_id s"
    using coming_up.peers_wf [OF ok refl] coming_up.peers_id [OF ok refl] by blast
  show "p \<noteq> pt_id s \<Longrightarrow> known_peers (handle_neighbor_up I p s) = insert p (known_peers s)"
    using coming_up.peers_known [OF ok refl] by simp
  show "\<exists>s'. handle_neighbor_down p s = Some s'" using going_down.peers_returns [OF ok] .
  assume down: "handle_neighbor_down p s = Some s'"
  show "pt_wf s' \<and> pt_id s' = pt_id s \<and> known_peers s' = known_peers s - {p}"
    using going_down.peers_wf [OF ok down] going_down.peers_id [OF ok down]
      going_down.peers_known [OF ok down] by blast
qed

section \<open>Invariant\<close>

text \<open>Every buffered message is filed under its own timestamp.\<close>

definition buffer_ok :: "('a, 'k, 'p) buffer \<Rightarrow> bool" where
  "buffer_ok b \<longleftrightarrow> btree_ok b \<and> (\<forall>(t, (m, _)) \<in> set b. mid_timestamp (msg_id m) = t)"

text \<open>The two protocol nodes agree.\<close>

definition linked :: "(('a, 'k) node_id, 'r) hv_node \<Rightarrow>
    (('a, 'k) node_id, ('a, 'k) message_id, 'p) pt_node \<Rightarrow> bool" where
  "linked h p \<longleftrightarrow> hv_wf h \<and> hv_sized h \<and> hv_bounded h \<and> pt_wf p \<and> pt_id p = hv_id h \<and>
     replay (known_peers p) (hv_actions h) = Some (set (active_view h)) \<and>
     (\<forall>a \<in> set (hv_actions h). action_sender_ok (hv_id h) a)"

definition p2p_wf :: "('a, 'k, 'p, 'c, 'r, 'w) p2p_node \<Rightarrow> bool" where
  "p2p_wf n \<longleftrightarrow> linked (hyparview_node n) (plumtree_node n) \<and> buffer_ok (message_buffer n) \<and>
     length (processed_messages n) \<le> MAX_PROCESSED_CACHE_LEN + 1 \<and> local_node (server n) \<noteq> None"

section \<open>Agreement\<close>

lemma linked_hv:
  assumes "linked h p" "hv_ok h h'"
  shows "linked h' p"
proof -
  have wf: "hv_wf h" and s: "hv_sized h" "hv_bounded h" using assms(1) by (simp_all add: linked_def)
  have ext: "hv_wf h'" "hv_ext h h'" using assms(2) wf by (simp_all add: hv_ok_def)
  then obtain new where "hv_actions h' = hv_actions h @ new"
    "replay (set (active_view h)) new = Some (set (active_view h'))"
    "\<forall>a \<in> set new. action_sender_ok (hv_id h) a" "hv_id h' = hv_id h" by (auto simp: hv_ext_def)
  with assms(1) ext(1) show ?thesis
    using hv_ok_sized [OF assms(2) wf] hv_ok_bounded [OF assms(2) wf]
    by (auto simp: linked_def replay_append)
qed

lemma linked_pt:
  assumes "linked h p" "pt_wf p'" "pt_id p' = pt_id p" "known_peers p' = known_peers p"
  shows "linked h p'"
  using assms by (simp add: linked_def)

lemma linked_drained: "linked h p \<Longrightarrow> hv_actions h = [] \<Longrightarrow> known_peers p = set (active_view h)"
  by (simp add: linked_def)

text \<open>Handling the first action in the queue.\<close>

lemma linked_send: "linked (h\<lparr>hv_actions := HvSend d m # as\<rparr>) p \<Longrightarrow> linked (h\<lparr>hv_actions := as\<rparr>) p"
  by (simp add: linked_def hv_wf_def hv_sized_def hv_bounded_def)

lemma linked_disconnect:
  "linked (h\<lparr>hv_actions := HvDisconnect q # as\<rparr>) p \<Longrightarrow> linked (h\<lparr>hv_actions := as\<rparr>) p"
  by (simp add: linked_def hv_wf_def hv_sized_def hv_bounded_def)

lemma linked_up:
  assumes "linked (h\<lparr>hv_actions := HvNotify (NeighborUp q) # as\<rparr>) p"
  shows "linked (h\<lparr>hv_actions := as\<rparr>) (handle_neighbor_up I q p)"
proof -
  have p: "pt_wf p" "q \<noteq> pt_id p"
    "replay (known_peers p) (HvNotify (NeighborUp q) # as) = Some (set (active_view h))"
    using assms by (auto simp: linked_def)
  show ?thesis using assms plumtree.follows_up [OF p(1,3,2), of I] plumtree.up_keeps [OF p(1), of I q]
    by (simp add: linked_def hv_wf_def hv_sized_def hv_bounded_def)
qed

lemma linked_down:
  assumes "linked (h\<lparr>hv_actions := HvNotify (NeighborDown q) # as\<rparr>) p"
  shows "\<exists>p'. handle_neighbor_down q p = Some p' \<and> linked (h\<lparr>hv_actions := as\<rparr>) p'"
proof -
  have p: "pt_wf p"
    "replay (known_peers p) (HvNotify (NeighborDown q) # as) = Some (set (active_view h))"
    using assms by (simp_all only: linked_def) simp_all
  obtain p' where p': "handle_neighbor_down q p = Some p'" using plumtree.down_returns [OF p(1)] by blast
  show ?thesis using assms p' plumtree.follows_down [OF p p'] plumtree.down_keeps [OF p(1) p']
    by (simp add: linked_def hv_wf_def hv_sized_def hv_bounded_def)
qed

lemma handle_hyparview_action_ok:
  assumes E: "rng_ok (env_rng E)" and wf: "p2p_wf n" and acts: "hv_actions (hyparview_node n) = a # as"
  shows "\<exists>n'. handle_hyparview_action E a
      (n\<lparr>hyparview_node := hyparview_node n\<lparr>hv_actions := as\<rparr>\<rparr>) = Some n' \<and> p2p_wf n'"
proof -
  let ?h = "hyparview_node n"
  have lk: "linked (?h\<lparr>hv_actions := a # as\<rparr>) (plumtree_node n)"
    using wf acts by (simp add: p2p_wf_def) (metis hv_node.surjective hv_node.update_convs(2))
  have rest: "buffer_ok (message_buffer n)" "local_node (server n) \<noteq> None"
    "length (processed_messages n) \<le> MAX_PROCESSED_CACHE_LEN + 1" using wf by (simp_all add: p2p_wf_def)
  show ?thesis
  proof (cases a)
    case (HvSend d m)
    then show ?thesis using lk rest
      by (auto simp: handle_hyparview_action_def p2p_wf_def send_protocol_message_sync_def dest: linked_send)
  next
    case (HvDisconnect q)
    have lk': "linked (?h\<lparr>hv_actions := as\<rparr>) (plumtree_node n)"
      using lk linked_disconnect HvDisconnect by blast
    then obtain h' where h': "hv_disconnect (env_rng E) q False (?h\<lparr>hv_actions := as\<rparr>) = Some h'"
      using disconnecting.returns [OF E, of _ "(q, False)"] by (auto simp: linked_def)
    have "hv_ok (?h\<lparr>hv_actions := as\<rparr>) h'" using disconnecting.keeps [OF E, of "(q, False)"] h' by simp
    then have "linked h' (plumtree_node n)" using lk' linked_hv by blast
    then show ?thesis using HvDisconnect h' rest
      by (simp add: handle_hyparview_action_def p2p_wf_def remove_remote_node_def)
  next
    case (HvNotify e)
    show ?thesis
    proof (cases e)
      case (NeighborUp q)
      then show ?thesis using lk rest linked_up HvNotify
        by (auto simp: handle_hyparview_action_def p2p_wf_def)
    next
      case (NeighborDown q)
      then obtain p' where "handle_neighbor_down q (plumtree_node n) = Some p'"
        "linked (?h\<lparr>hv_actions := as\<rparr>) p'"
        using linked_down [where h = ?h and q = q and as = as] lk HvNotify by blast
      then show ?thesis using rest HvNotify NeighborDown
        by (simp add: handle_hyparview_action_def p2p_wf_def)
    qed
  qed
qed

lemma drain_hyparview_ok:
  "rng_ok (env_rng E) \<Longrightarrow> p2p_wf n \<Longrightarrow> \<exists>n'. drain_hyparview E n = Some n' \<and> p2p_wf n'"
proof (induction E n rule: drain_hyparview.induct)
  case (1 E n)
  show ?case
  proof (cases "hv_actions (hyparview_node n)")
    case Nil
    then show ?thesis using "1.prems" by (subst drain_hyparview.simps) (simp add: hv_poll_action_def)
  next
    case (Cons a as)
    let ?h = "hyparview_node n\<lparr>hv_actions := as\<rparr>"
    have poll: "hv_poll_action (hyparview_node n) = (Some a, ?h)"
      using Cons by (simp add: hv_poll_action_def)
    obtain n1 where n1: "handle_hyparview_action E a (n\<lparr>hyparview_node := ?h\<rparr>) = Some n1" "p2p_wf n1"
      using handle_hyparview_action_ok [OF "1.prems" Cons] by blast
    with "1.IH" [OF poll [symmetric] refl n1(1) "1.prems"(1)] poll show ?thesis
      by (subst drain_hyparview.simps) simp
  qed
qed

section \<open>Release of messages\<close>

lemma btree_insert_set: "set (btree_insert k v m) \<subseteq> insert (k, v) (set m)"
  by (induction k v m rule: btree_insert.induct) auto

lemma buffer_ok_insert:
  "buffer_ok b \<Longrightarrow> mid_timestamp (msg_id m) = t \<Longrightarrow> buffer_ok (btree_insert t (m, r) b)"
  using btree_insert_set [of t "(m, r)" b] by (auto simp: buffer_ok_def btree_insert_ok)

lemma buffer_ok_remove: "buffer_ok b \<Longrightarrow> buffer_ok (btree_remove t b)"
  using btree_remove_keys [of t b] by (auto simp: buffer_ok_def btree_remove_ok)

text \<open>A step of the release: what it does to the buffer and to the record of processed messages.\<close>

lemma release_ok:
  assumes "release t n = (r, n')" "buffer_ok (message_buffer n)"
  shows "buffer_ok (message_buffer n')"
    "length (processed_messages n') \<le> length (processed_messages n) + (if r = None then 0 else 1)"
  using assms by (auto simp: release_def buffer_ok_remove split: option.splits)

lemma cleanup_ok:
  assumes "cleanup_expired_messages E n = (r, n')" "buffer_ok (message_buffer n)"
    and "length (processed_messages n) \<le> MAX_PROCESSED_CACHE_LEN + 1"
  shows "buffer_ok (message_buffer n')"
    "length (processed_messages n') \<le> MAX_PROCESSED_CACHE_LEN + (if r = None then 0 else 1)"
proof -
  obtain now w where w: "now_or_zero E (world n) = (now, w)" by fastforce
  define k where "k = (if length (processed_messages n) > MAX_PROCESSED_CACHE_LEN
    then min (length (processed_messages n) - MAX_PROCESSED_CACHE_LEN) MAX_CLEANUP_PER_CALL else 0)"
  define m where "m = n\<lparr>world := w, processed_messages := drop k (processed_messages n)\<rparr>"
  have m: "buffer_ok (message_buffer m)" "length (processed_messages m) \<le> MAX_PROCESSED_CACHE_LEN"
    using assms(2,3) by (auto simp: m_def k_def MAX_CLEANUP_PER_CALL_def)
  have "(case btree_first (message_buffer m) of None \<Rightarrow> (None, m)
      | Some (t, (_, rt)) \<Rightarrow> if rt \<le> now \<and> now - rt > MAX_OUT_OF_ORDER_DELAY_MS then release t m
          else (None, m)) = (r, n')"
    using assms(1) w unfolding m_def k_def by (simp add: cleanup_expired_messages_def Let_def)
  then have alt: "(\<exists>t. release t m = (r, n')) \<or> r = None \<and> n' = m"
    by (simp split: option.splits if_splits prod.splits) metis+
  then show "buffer_ok (message_buffer n')" using m(1) release_ok(1) by blast
  have "length (processed_messages n') \<le> length (processed_messages m) + (if r = None then 0 else 1)"
    using alt
  proof
    assume "\<exists>t. release t m = (r, n')"
    then obtain t where "release t m = (r, n')" ..
    then show ?thesis using m(1) by (rule release_ok(2))
  qed simp
  with m(2) show "length (processed_messages n') \<le> MAX_PROCESSED_CACHE_LEN + (if r = None then 0 else 1)"
    by (simp split: if_splits)
qed

lemma process_ok:
  assumes "process_sequential_messages E n = (r, n')" "buffer_ok (message_buffer n)"
    and "length (processed_messages n) \<le> MAX_PROCESSED_CACHE_LEN + 1"
  shows "buffer_ok (message_buffer n') \<and> length (processed_messages n') \<le> MAX_PROCESSED_CACHE_LEN + 1"
proof -
  obtain r1 n1 where n1: "cleanup_expired_messages E n = (r1, n1)" by fastforce
  note ok = cleanup_ok [OF n1 assms(2,3)]
  consider "n' = n1" | t where "r1 = None" "release t n1 = (r, n')"
    using assms(1) n1 by (auto simp: process_sequential_messages_def split: option.splits if_splits)
  then show ?thesis
  proof cases
    case 1
    then show ?thesis using ok by (simp split: if_splits)
  next
    case 2
    then show ?thesis using ok release_ok [of t n1 r n'] by (simp split: if_splits)
  qed
qed

lemma p2p_wf_same:
  assumes "p2p_wf n" "same_nodes n n'" "buffer_ok (message_buffer n')"
    "length (processed_messages n') \<le> MAX_PROCESSED_CACHE_LEN + 1" "local_node (server n') \<noteq> None"
  shows "p2p_wf n'"
  using assms by (simp add: p2p_wf_def same_nodes_def)

lemma process_server: "process_sequential_messages E n = (r, n') \<Longrightarrow> server n' = server n"
  by (auto simp: process_sequential_messages_def cleanup_expired_messages_def release_def Let_def
      split: prod.splits option.splits if_splits)

lemma process_wf: "p2p_wf n \<Longrightarrow> process_sequential_messages E n = (r, n') \<Longrightarrow> p2p_wf n'"
  using p2p_wf_same [of n n'] process_frame [of E n r n'] process_ok [of E n r n'] process_server [of E n r n']
  by (simp add: p2p_wf_def)

lemma handle_plumtree_action_wf:
  assumes wf: "p2p_wf n" and run: "handle_plumtree_action E a n = (r, n')"
  shows "p2p_wf n'"
proof (cases a)
  case (PtSend d m)
  then show ?thesis using assms
    by (auto simp: handle_plumtree_action_def p2p_wf_def send_protocol_message_sync_def)
next
  case (Deliver m)
  obtain t w where w: "now_or_zero E (world n) = (t, w)" by fastforce
  let ?n = "n\<lparr>world := w, message_buffer :=
    btree_insert (mid_timestamp (msg_id m)) (m, t) (message_buffer n)\<rparr>"
  have "p2p_wf ?n" using wf by (simp add: p2p_wf_def buffer_ok_insert)
  moreover have "process_sequential_messages E ?n = (r, n')"
    using run Deliver w by (simp add: handle_plumtree_action_def)
  ultimately show ?thesis by (rule process_wf)
qed

section \<open>The loops keep the invariant\<close>

lemma pt_poll_linked:
  assumes "linked h p" shows "\<exists>a p'. pt_poll_action p = Some (a, p') \<and> linked h p'"
proof -
  have wf: "pt_wf p" using assms by (simp add: linked_def)
  then obtain p' where step: "map_option snd (pt_poll_action p) = Some p'"
    using polling.peers_returns by blast
  then have "linked h p'"
    using linked_pt [OF assms] polling.peers_wf [OF wf step] polling.peers_id [OF wf step]
      polling.peers_known [OF wf step] by simp
  with step show ?thesis by auto
qed

lemma drain_plumtree_ok:
  "p2p_wf n \<Longrightarrow> \<exists>r did n'. drain_plumtree E n = Some (r, did, n') \<and> p2p_wf n'"
proof (induction E n rule: drain_plumtree.induct)
  case (1 E n)
  obtain a pt where poll: "pt_poll_action (plumtree_node n) = Some (a, pt)"
    and "linked (hyparview_node n) pt"
    using pt_poll_linked "1.prems" unfolding p2p_wf_def by blast
  then have wf: "p2p_wf (n\<lparr>plumtree_node := pt\<rparr>)" using "1.prems" by (simp add: p2p_wf_def)
  show ?case
  proof (cases a)
    case None
    then show ?thesis using poll wf by (subst drain_plumtree.simps) auto
  next
    case (Some x)
    obtain r n1 where h: "handle_plumtree_action E x (n\<lparr>plumtree_node := pt\<rparr>) = (r, n1)" by fastforce
    have wf1: "p2p_wf n1" using handle_plumtree_action_wf [OF wf h] .
    show ?thesis
    proof (cases r)
      case None
      then obtain r' did n' where "drain_plumtree E n1 = Some (r', did, n')" "p2p_wf n'"
        using "1.IH" [OF poll refl Some h [symmetric] None wf1] by blast
      then show ?thesis using poll Some h None by (subst drain_plumtree.simps) auto
    next
      case (Some m)
      then show ?thesis using poll \<open>a = Some x\<close> h wf1 by (subst drain_plumtree.simps) auto
    qed
  qed
qed

lemma drain_plumtree_hv:
  "drain_plumtree E n = Some (r, did, n') \<Longrightarrow>
     hyparview_node n' = hyparview_node n \<and> inbox (server n') = inbox (server n)"
proof (induction E n arbitrary: did rule: drain_plumtree.induct)
  case (1 E n)
  from "1.prems" obtain a pt where poll: "pt_poll_action (plumtree_node n) = Some (a, pt)"
    by (subst (asm) drain_plumtree.simps) (auto split: option.splits)
  show ?case
  proof (cases a)
    case None
    then show ?thesis using "1.prems" poll by (subst (asm) drain_plumtree.simps) auto
  next
    case (Some x)
    obtain r1 n1 where h: "handle_plumtree_action E x (n\<lparr>plumtree_node := pt\<rparr>) = (r1, n1)" by fastforce
    have same: "hyparview_node n1 = hyparview_node n" "inbox (server n1) = inbox (server n)"
      using handle_plumtree_action_frame [OF h] by (simp_all add: same_nodes_def)
    show ?thesis
    proof (cases r1)
      case None
      then obtain did' where "drain_plumtree E n1 = Some (r, did', n')"
        using "1.prems" poll Some h by (subst (asm) drain_plumtree.simps) auto
      then show ?thesis using "1.IH" [OF poll refl Some h [symmetric] None] same by simp
    next
      case (Some m)
      then show ?thesis using "1.prems" poll \<open>a = Some x\<close> h same
        by (subst (asm) drain_plumtree.simps) simp
    qed
  qed
qed

lemma handle_message_wf:
  assumes E: "rng_ok (env_rng E)" and wf: "p2p_wf n"
    and run: "handle_p2pnode_protocol_message E m n = Some (b, n')"
  shows "p2p_wf n'"
proof (cases m)
  case (MHyparview x)
  then obtain h where h: "hv_handle_protocol_message (env_rng E) x (hyparview_node n) = Some h"
    "n' = n\<lparr>hyparview_node := h\<rparr>" using run by (auto simp: handle_p2pnode_protocol_message_def)
  with wf show ?thesis using linked_hv [OF _ message.keeps [OF E h(1)], of "plumtree_node n"]
    by (simp add: p2p_wf_def)
next
  case (MPlumtree x)
  then obtain p where p: "map_option snd (pt_handle_protocol_message (env_iter E) x (plumtree_node n)) = Some p"
    "n' = n\<lparr>plumtree_node := p\<rparr>" using run by (auto simp: handle_p2pnode_protocol_message_def)
  have lk: "linked (hyparview_node n) (plumtree_node n)" and pwf: "pt_wf (plumtree_node n)"
    using wf by (simp_all add: p2p_wf_def linked_def)
  have "linked (hyparview_node n) p"
    using linked_pt [OF lk receiving.peers_wf [OF pwf p(1)] receiving.peers_id [OF pwf p(1)]
      receiving.peers_known [OF pwf p(1)]] .
  then show ?thesis using wf p(2) by (simp add: p2p_wf_def)
qed (use run in \<open>simp add: handle_p2pnode_protocol_message_def\<close>)

lemma poll_recv_local: "poll_recv s = (r, s') \<Longrightarrow> local_node s \<noteq> None \<Longrightarrow> local_node s' \<noteq> None"
  by (auto simp: poll_recv_def split: option.splits list.splits)

lemma recv_messages_wf:
  "rng_ok (env_rng E) \<Longrightarrow> p2p_wf n \<Longrightarrow> recv_messages E n = Some n' \<Longrightarrow> p2p_wf n'"
proof (induction E n rule: recv_messages.induct)
  case (1 E n)
  obtain r s where s: "poll_recv (server n) = (r, s)" by fastforce
  show ?case
  proof (cases r)
    case None
    then show ?thesis using "1.prems"(2,3) s recv_messages.simps [of E n] by simp
  next
    case (Some m)
    have wf: "p2p_wf (n\<lparr>server := s\<rparr>)"
      using "1.prems"(2) poll_recv_local [OF s] by (simp add: p2p_wf_def)
    obtain b n1 where n1: "handle_p2pnode_protocol_message E m (n\<lparr>server := s\<rparr>) = Some (b, n1)"
      and rest: "if b then n' = n1 else recv_messages E n1 = Some n'"
      using "1.prems"(3) s Some recv_messages.simps [of E n] by (auto split: option.splits bool.splits)
    have "p2p_wf n1" using handle_message_wf [OF "1.prems"(1) wf n1] .
    then show ?thesis using rest "1.IH" [OF s [symmetric] Some n1 refl] "1.prems"(1) by (cases b) auto
  qed
qed

text \<open>After a round that ends the loop no HyParView action is queued.\<close>

lemma poll_round_wf:
  assumes E: "rng_ok (env_rng E)" and wf: "p2p_wf n" and run: "poll_round E n = Some (r, did, n')"
  shows "p2p_wf n' \<and> (r \<noteq> None \<or> \<not> did \<longrightarrow> hv_actions (hyparview_node n') = [])"
proof -
  obtain n1 where n1: "drain_hyparview E n = Some n1" "p2p_wf n1"
    using drain_hyparview_ok [OF E wf] by blast
  note r1 = drain_hyparview_result [OF n1(1)]
  obtain r2 n2 where n2: "process_sequential_messages E n1 = (r2, n2)" by fastforce
  have wf2: "p2p_wf n2" using process_wf [OF n1(2) n2] .
  have hv2: "hyparview_node n2 = hyparview_node n1"
    using process_frame [OF n2] by (simp add: same_nodes_def)
  have n3: "p2p_wf n3 \<and> hyparview_node n3 = hyparview_node n2"
    if "drain_plumtree E n2 = Some (r3, did2, n3)" for r3 did2 n3
    using drain_plumtree_ok [OF wf2, of E] drain_plumtree_hv that by fastforce
  from run show ?thesis
  proof (cases rule: poll_round_cases)
    case (buffered m1)
    then show ?thesis using n1 n2 wf2 hv2 r1 by auto
  next
    case (delivered m1 m2)
    then have "p2p_wf n' \<and> hyparview_node n' = hyparview_node n2"
      using n3 [of r True n'] n1(1) n2 by simp
    then show ?thesis using hv2 r1 by simp
  next
    case (idle m1 m2 did2 m3)
    have m12: "m1 = n1" "m2 = n2" using idle(1,2) n1(1) n2 by simp_all
    have m3: "p2p_wf m3" "hyparview_node m3 = hyparview_node n1"
      using n3 [of None did2 m3] idle(3) m12 hv2 by simp_all
    have "p2p_wf n'" using recv_messages_wf [OF E m3(1) idle(4)] .
    moreover have "n' = m3" if "\<not> did"
      using that idle(6) recv_messages_result [OF idle(4)] by simp
    ultimately show ?thesis using m3(2) r1 idle(5) by auto
  qed
qed

lemma poll_loop_wf:
  "rng_ok (env_rng E) \<Longrightarrow> p2p_wf n \<Longrightarrow> poll_loop E n = Some (r, n') \<Longrightarrow>
     p2p_wf n' \<and> hv_actions (hyparview_node n') = []"
proof (induction E n rule: poll_loop.induct)
  case (1 E n)
  obtain r1 did n1 where round: "poll_round E n = Some (r1, did, n1)"
    using "1.prems"(3) poll_loop.simps [of E n] by (auto split: option.splits)
  note wf = poll_round_wf [OF "1.prems"(1,2) round]
  show ?case
  proof (cases "r1 = None \<and> did")
    case True
    then have "poll_loop E n1 = Some (r, n')"
      using "1.prems"(3) round poll_loop.simps [of E n] by simp
    then show ?thesis using "1.IH" [OF round refl] True wf "1.prems"(1) by auto
  next
    case False
    then have "n' = n1" using "1.prems"(3) round poll_loop.simps [of E n]
      by (auto split: option.splits if_splits)
    then show ?thesis using wf False by auto
  qed
qed

section \<open>Ticks and user calls\<close>

lemma p2p_wf_hv:
  assumes "p2p_wf n" "hv_ok (hyparview_node n) h" "hyparview_node n' = h"
    and "plumtree_node n' = plumtree_node n" "message_buffer n' = message_buffer n"
    and "processed_messages n' = processed_messages n" "server n' = server n"
  shows "p2p_wf n'"
  using assms linked_hv [of "hyparview_node n" "plumtree_node n" h] by (simp add: p2p_wf_def)

lemma tick_jobs_wf:
  assumes E: "rng_ok (env_rng E)" and wf: "p2p_wf n"
  shows "tick_shuffle E now n = Some n' \<Longrightarrow> p2p_wf n'"
    and "tick_sync E now n = Some n' \<Longrightarrow> p2p_wf n'"
    and "tick_fill E now n = Some n' \<Longrightarrow> p2p_wf n'"
proof -
  assume "tick_shuffle E now n = Some n'"
  then show "p2p_wf n'" using wf
    by (auto simp: tick_shuffle_def bind_eq_Some_conv split: if_splits
        elim!: p2p_wf_hv [OF wf shuffle_passive_view_ok [OF E]])
next
  assume "tick_sync E now n = Some n'"
  then show "p2p_wf n'" using wf
    by (auto simp: tick_sync_def bind_eq_Some_conv split: if_splits
        intro: p2p_wf_hv [OF wf sync_active_view_ok])
next
  assume "tick_fill E now n = Some n'"
  then show "p2p_wf n'" using wf
    by (auto simp: tick_fill_def bind_eq_Some_conv split: if_splits
        elim!: p2p_wf_hv [OF wf fill_active_view_ok])
qed

lemma handle_tick_wf:
  assumes E: "rng_ok (env_rng E)" and wf: "p2p_wf n" and run: "handle_tick E n = Some n'"
  shows "p2p_wf n'"
proof -
  from run obtain pt n1 n2 where pt: "pt_tick (tick_interval (params n)) (plumtree_node n) = Some pt"
    and jobs: "tick_shuffle E (clock_now (pt_clock pt)) (n\<lparr>plumtree_node := pt\<rparr>) = Some n1"
      "tick_sync E (clock_now (pt_clock pt)) n1 = Some n2"
      "tick_fill E (clock_now (pt_clock pt)) n2 = Some n'"
    unfolding handle_tick_def by (auto simp: bind_eq_Some_conv Let_def)
  have pwf: "pt_wf (plumtree_node n)" and lk: "linked (hyparview_node n) (plumtree_node n)"
    using wf by (simp_all add: p2p_wf_def linked_def)
  have "linked (hyparview_node n) pt"
    using linked_pt [OF lk ticking.peers_wf [OF pwf pt] ticking.peers_id [OF pwf pt]
        ticking.peers_known [OF pwf pt]] .
  then have "p2p_wf (n\<lparr>plumtree_node := pt\<rparr>)" using wf by (simp add: p2p_wf_def)
  with jobs show ?thesis using tick_jobs_wf [OF E] by blast
qed

end
