(* ===== verification/P2P_Props.thy ===== *)
theory P2P_Props
  imports P2P_Inv
begin

text \<open>
  Properties of the application's node: its reachable states, the agreement of membership and
  broadcast, its bounds, and the order in which messages are released.
\<close>

section \<open>Reachable states\<close>

text \<open>
  The user joins, broadcasts, polls and leaves; a message of a peer arrives; a sending task
  runs, with whatever the network does at that moment.
\<close>

inductive p2p_reach ::
  "('a, 'k, 'r, 'w) env \<Rightarrow> ('a, 'k, 'p, 'c, 'r, 'w) p2p_node \<Rightarrow> bool" for E :: "('a, 'k, 'r, 'w) env"
  where
  start: "p2p_new E rng me srv w = Some n \<Longrightarrow> p2p_reach E n"
| join: "p2p_reach E n \<Longrightarrow> p2p_reach E (p2p_join contact n)"
| broadcast: "p2p_reach E n \<Longrightarrow> p2p_broadcast E payload n = Some (i, n') \<Longrightarrow> p2p_reach E n'"
| poll: "p2p_reach E n \<Longrightarrow> poll_next E tick n = Some (r, n') \<Longrightarrow> p2p_reach E n'"
| leave: "p2p_reach E n \<Longrightarrow> p2p_leave net n = Some n' \<Longrightarrow> p2p_reach E n'"
| arrive: "p2p_reach E n \<Longrightarrow> p2p_reach E (n\<lparr>server := deliver_local m (server n)\<rparr>)"
| task: "p2p_reach E n \<Longrightarrow> spawned (server n) = (d, m) # tasks \<Longrightarrow>
    send_task net d m (server n\<lparr>spawned := tasks\<rparr>) = Some s \<Longrightarrow> p2p_reach E (n\<lparr>server := s\<rparr>)"

lemma p2p_new_wf:
  assumes "p2p_new E rng me srv w = Some n"
  shows "p2p_wf n"
proof -
  have "n = \<lparr>hyparview_node = hv_new me rng, plumtree_node = pt_new me, message_seqno = 0,
      message_buffer = [], processed_messages = [],
      server = register_local_node (node_handle_new (local_id me)) srv, params = default_parameters,
      hyparview_shuffle_time = hyparview_shuffle_time n,
      hyparview_sync_active_view_time = hyparview_sync_active_view_time n,
      hyparview_fill_active_view_time = hyparview_fill_active_view_time n, world = world n\<rparr>"
    using assms by (auto simp: p2p_new_def bind_eq_Some_conv Let_def)
  then have f: "hyparview_node n = hv_new me rng" "plumtree_node n = pt_new me" "message_buffer n = []"
    "processed_messages n = []" "server n = register_local_node (node_handle_new (local_id me)) srv"
    by (metis p2p_node.select_convs)+
  have "linked (hv_new me rng) (pt_new me)"
    by (simp add: linked_def hv_new_def hv_with_options_def default_node_options_def hv_wf_def
        hv_sized_def hv_bounded_def pt_new_def pt_with_options_peers)
  then show ?thesis
    using f by (simp add: p2p_wf_def buffer_ok_def btree_ok_def register_local_node_def)
qed

lemma send_async_local:
  "send_protocol_message_async net d m s = Some (r, s') \<Longrightarrow> local_node s' = local_node s"
  by (auto simp: send_protocol_message_async_def get_connection_def split: option.splits sum.splits if_splits)

lemma notify_local [simp]: "local_node (notify_self_disconnect d s) = None \<longleftrightarrow> local_node s = None"
  by (auto simp: notify_self_disconnect_def remove_remote_node_def deliver_local_def
      split: option.split)

lemma send_task_local:
  "send_task net d m s = Some s' \<Longrightarrow> (local_node s' = None) = (local_node s = None)"
  by (auto simp only: send_task_def notify_local option.inject dest!: send_async_local
      split: option.splits sum.splits prod.splits)

lemma leave_peers_local:
  "leave_peers net me ps s = Some s' \<Longrightarrow> (local_node s' = None) = (local_node s = None)"
proof (induction ps arbitrary: s)
  case (Cons p ps)
  then obtain r s1 where send: "send_protocol_message_async net p
      (MHyparview (Disconnect \<lparr>dc_sender = me, dc_alive = False\<rparr>)) s = Some (r, s1)"
    and rest: "leave_peers net me ps (notify_self_disconnect p s1) = Some s'"
    by (auto split: option.splits)
  show ?case using Cons.IH [OF rest] send_async_local [OF send] by (simp only: notify_local)
qed simp

lemma p2p_broadcast_wf:
  assumes "p2p_wf n" "p2p_broadcast E payload n = Some (i, n')"
  shows "p2p_wf n'"
proof -
  obtain m where m: "plumtree_node n' = broadcast_message (env_iter E) m (plumtree_node n)"
    and f: "hyparview_node n' = hyparview_node n" "message_buffer n' = message_buffer n"
      "processed_messages n' = processed_messages n" "server n' = server n"
    using assms(2) by (auto simp: p2p_broadcast_def bind_eq_Some_conv Let_def split: prod.splits)
  have pwf: "pt_wf (plumtree_node n)" and lk: "linked (hyparview_node n) (plumtree_node n)"
    using assms(1) by (simp_all add: p2p_wf_def linked_def)
  have "linked (hyparview_node n) (plumtree_node n')"
    using linked_pt [OF lk broadcasting.peers_wf [OF pwf refl] broadcasting.peers_id [OF pwf refl]
        broadcasting.peers_known [OF pwf refl]] m by simp
  with assms(1) f show ?thesis by (simp add: p2p_wf_def)
qed

lemma p2p_reach_wf:
  assumes "rng_ok (env_rng E)" "p2p_reach E n"
  shows "p2p_wf n"
  using assms(2)
proof (induction rule: p2p_reach.induct)
  case (join n contact)
  then show ?case using p2p_wf_hv [OF join(2) hv_join_ok, of "p2p_join contact n" contact]
    by (simp add: p2p_join_def)
next
  case (poll n tick r n')
  then obtain n1 where "poll_loop E n1 = Some (r, n')" "p2p_wf n1"
    using handle_tick_wf [OF assms(1)]
    by (auto simp: poll_next_def bind_eq_Some_conv split: if_splits)
  then show ?case using poll_loop_wf [OF assms(1)] by blast
next
  case (leave n net n')
  then show ?case by (auto simp: p2p_leave_def p2p_wf_def dest: leave_peers_local)
next
  case (arrive n m)
  then show ?case by (auto simp: p2p_wf_def deliver_local_def)
next
  case (task n d m tasks net s)
  then show ?case using send_task_local [OF task(3)] by (simp add: p2p_wf_def)
qed (auto dest: p2p_new_wf p2p_broadcast_wf)

text \<open>
  C1. Membership and broadcast agree.  However a node has been used, and whatever its peers
  sent, after every poll the peers that Plumtree pushes messages to, eagerly or lazily, are
  exactly the nodes of the HyParView active view, and no HyParView action is left to handle.
\<close>

theorem broadcast_tree_spans_active_view:
  assumes "rng_ok (env_rng E)" and "p2p_reach E n" and "poll_next E tick n = Some (r, n')"
  shows "eager_push_peers (plumtree_node n') \<union> lazy_push_peers (plumtree_node n') =
      set (active_view (hyparview_node n')) \<and>
    eager_push_peers (plumtree_node n') \<inter> lazy_push_peers (plumtree_node n') = {} \<and>
    hv_actions (hyparview_node n') = []"
proof -
  obtain n1 where "poll_loop E n1 = Some (r, n')" "p2p_wf n1"
    using assms(3) p2p_reach_wf [OF assms(1,2)] handle_tick_wf [OF assms(1)]
    by (auto simp: poll_next_def bind_eq_Some_conv split: if_splits)
  then have end_of_poll: "p2p_wf n'" "hv_actions (hyparview_node n') = []"
    using poll_loop_wf [OF assms(1)] by blast+
  then have "linked (hyparview_node n') (plumtree_node n')" by (simp add: p2p_wf_def)
  with end_of_poll(2) linked_drained [OF this] show ?thesis
    by (simp add: known_peers_def linked_def pt_wf_def)
qed

text \<open>
  C37. Bounds of the application's node in every reachable state.  Both views are within their sizes,
  and at most 51 timestamps are remembered as processed, one more than the code means to keep.  The
  buffer has at most one message for each timestamp, by ascending timestamp and each under
  its own.  Nothing bounds the length of the buffer, and the processed timestamps are in the
  order of release, which an overdue message breaks.
\<close>

theorem p2p_node_bounds:
  assumes "rng_ok (env_rng E)" and "p2p_reach E n"
  shows "length (active_view (hyparview_node n)) \<le> unat (max_active_view_size (hv_options (hyparview_node n))) \<and>
    length (passive_view (hyparview_node n)) \<le> unat (max_passive_view_size (hv_options (hyparview_node n))) \<and>
    length (processed_messages n) \<le> 51 \<and> sorted_wrt (<) (map fst (message_buffer n)) \<and>
    (\<forall>(t, (m, _)) \<in> set (message_buffer n). mid_timestamp (msg_id m) = t)"
  using p2p_reach_wf [OF assms]
  by (auto simp: p2p_wf_def linked_def hv_bounded_def buffer_ok_def btree_ok_def
      MAX_PROCESSED_CACHE_LEN_def)

section \<open>Release order\<close>

definition last_processed :: "('a, 'k, 'p, 'c, 'r, 'w) p2p_node \<Rightarrow> nat option" where
  "last_processed n = (if processed_messages n = [] then None else Some (last (processed_messages n)))"

text \<open>The message at the head of the buffer has waited longer than the allowed delay.\<close>

definition overdue :: "nat \<Rightarrow> nat \<Rightarrow> bool" where
  "overdue now receive_time \<longleftrightarrow> receive_time + MAX_OUT_OF_ORDER_DELAY_MS < now"

lemma trim_last: "length xs > MAX_PROCESSED_CACHE_LEN \<Longrightarrow>
    xs \<noteq> [] \<and> drop (min (length xs - MAX_PROCESSED_CACHE_LEN) MAX_CLEANUP_PER_CALL) xs \<noteq> [] \<and>
    last (drop (min (length xs - MAX_PROCESSED_CACHE_LEN) MAX_CLEANUP_PER_CALL) xs) = last xs"
  by (auto simp: MAX_PROCESSED_CACHE_LEN_def MAX_CLEANUP_PER_CALL_def)

lemma btree_first_lookup:
  assumes "buffer_ok b" "btree_first b = Some (t, (m, rt))"
  shows "map_of b t = Some (m, rt)" "mid_timestamp (msg_id m) = t" "\<forall>k \<in> dom (map_of b). t \<le> k"
proof -
  have ok: "btree_ok b" using assms(1) by (simp add: buffer_ok_def)
  show look: "map_of b t = Some (m, rt)" and "\<forall>k \<in> dom (map_of b). t \<le> k"
    using btree.least_Some [OF ok assms(2)] by blast+
  show "mid_timestamp (msg_id m) = t" using map_of_SomeD [OF look] assms(1) by (auto simp: buffer_ok_def)
qed

text \<open>The decision of \<^verbatim>\<open>process_sequential_messages\<close> in one equation.\<close>

lemma process_eq:
  assumes ok: "buffer_ok (message_buffer n)" and now: "now_or_zero E (world n) = (now, w)"
    and run: "process_sequential_messages E n = (r, n')"
  shows "case btree_first (message_buffer n) of
      None \<Rightarrow> r = None \<and> message_buffer n' = message_buffer n \<and> last_processed n' = last_processed n
    | Some (t, (m, rt)) \<Rightarrow>
        if overdue now rt \<or> (\<exists>l. last_processed n = Some l \<and> l \<le> t)
        then r = Some m \<and> message_buffer n' = btree_remove t (message_buffer n) \<and> last_processed n' = Some t
        else r = None \<and> message_buffer n' = message_buffer n \<and> last_processed n' = last_processed n"
proof -
  define k where "k = (if length (processed_messages n) > MAX_PROCESSED_CACHE_LEN
    then min (length (processed_messages n) - MAX_PROCESSED_CACHE_LEN) MAX_CLEANUP_PER_CALL else 0)"
  define p where "p = drop k (processed_messages n)"
  have p: "p = [] \<longleftrightarrow> processed_messages n = []" "p \<noteq> [] \<Longrightarrow> last p = last (processed_messages n)"
    using trim_last [of "processed_messages n"] by (auto simp: p_def k_def)
  have clean: "cleanup_expired_messages E n =
      (case btree_first (message_buffer n) of None \<Rightarrow> (None, n\<lparr>world := w, processed_messages := p\<rparr>)
       | Some (t, (_, rt)) \<Rightarrow>
           if overdue now rt then release t (n\<lparr>world := w, processed_messages := p\<rparr>)
           else (None, n\<lparr>world := w, processed_messages := p\<rparr>))"
    unfolding cleanup_expired_messages_def p_def k_def using now
    by (auto simp: Let_def overdue_def split: option.split)
  show ?thesis
  proof (cases "btree_first (message_buffer n)")
    case None
    then show ?thesis using run clean p by (auto simp: process_sequential_messages_def last_processed_def)
  next
    case (Some e)
    obtain t m rt where e: "e = (t, (m, rt))" by (cases e) auto
    note look = btree_first_lookup [OF ok Some [unfolded e]]
    have rel: "release t (n\<lparr>world := w, processed_messages := p\<rparr>) =
        (Some m, n\<lparr>world := w, message_buffer := btree_remove t (message_buffer n),
                   processed_messages := p @ [t]\<rparr>)"
      using look(1) by (simp add: release_def)
    show ?thesis
    proof (cases "overdue now rt")
      case True
      then show ?thesis using run clean rel Some e
        by (auto simp: process_sequential_messages_def last_processed_def)
    next
      case False
      then show ?thesis using run clean rel Some e p
        by (auto simp: process_sequential_messages_def last_processed_def split: if_splits)
    qed
  qed
qed

text \<open>
  C24. Release in timestamp order.  A message the node hands to the application is the one with
  the least timestamp in the buffer, and its timestamp is not below that of the last message
  handed out unless it has waited in the buffer for more than a second.  It leaves the buffer,
  and the other messages stay.
\<close>

theorem released_in_timestamp_order:
  assumes "buffer_ok (message_buffer n)" and "now_or_zero E (world n) = (now, w)"
    and "process_sequential_messages E n = (Some m, n')"
  shows "\<exists>rt. map_of (message_buffer n) (mid_timestamp (msg_id m)) = Some (m, rt) \<and>
    (\<forall>t \<in> dom (map_of (message_buffer n)). mid_timestamp (msg_id m) \<le> t) \<and>
    (\<forall>l. last_processed n = Some l \<longrightarrow> l \<le> mid_timestamp (msg_id m) \<or> rt + 1000 < now) \<and>
    last_processed n' = Some (mid_timestamp (msg_id m)) \<and>
    map_of (message_buffer n') = (map_of (message_buffer n))(mid_timestamp (msg_id m) := None)"
proof -
  note eq = process_eq [OF assms]
  then obtain t m' rt where first: "btree_first (message_buffer n) = Some (t, (m', rt))"
    by (cases "btree_first (message_buffer n)") auto
  note look = btree_first_lookup [OF assms(1) first]
  have dec: "overdue now rt \<or> (\<exists>l. last_processed n = Some l \<and> l \<le> t)" "m' = m"
    "message_buffer n' = btree_remove t (message_buffer n)" "last_processed n' = Some t"
    using eq first by (auto split: if_splits)
  have "map_of (message_buffer n') = (map_of (message_buffer n))(t := None)"
    using dec(3) assms(1) by (simp add: map_of_btree_remove buffer_ok_def)
  then show ?thesis using look dec by (auto simp: overdue_def MAX_OUT_OF_ORDER_DELAY_MS_def)
qed

text \<open>
  C25. No message is held back for good: as soon as the oldest buffered message has waited for
  more than a second, or its timestamp is not below that of the last message handed out, the
  next poll of the buffer hands it out; and a poll that hands out nothing keeps every message.
\<close>

theorem buffered_message_is_released:
  assumes "buffer_ok (message_buffer n)" and "now_or_zero E (world n) = (now, w)"
    and "process_sequential_messages E n = (r, n')"
  shows "(\<forall>t m rt. btree_first (message_buffer n) = Some (t, (m, rt)) \<longrightarrow>
      rt + 1000 < now \<or> (\<exists>l. last_processed n = Some l \<and> l \<le> t) \<longrightarrow> r = Some m) \<and>
    (r = None \<longrightarrow> message_buffer n' = message_buffer n)"
  using process_eq [OF assms]
  by (auto simp: overdue_def MAX_OUT_OF_ORDER_DELAY_MS_def split: option.splits if_splits)

section \<open>A concrete environment\<close>

definition nid :: "nat \<Rightarrow> (nat, nat) node_id" where
  "nid k = \<lparr>addresses = [k], local_id = k\<rparr>"

definition counting_world :: "nat world_ops" where
  "counting_world = \<lparr>sys_now = (\<lambda>w. (Some w, Suc w)), rand_u64 = (\<lambda>w. (w, Suc w))\<rparr>"

definition example_env :: "(nat, nat, nat, nat) env" where
  "example_env =
     \<lparr>env_rng = counting_rng,
      env_iter = \<lparr>peer_iter = (\<lambda>S. map nid (sorted_list_of_set (local_id ` S))), key_iter = (\<lambda>S. [])\<rparr>,
      env_world = counting_world\<rparr>"

lemma example_env_rng [simp]: "rng_ok (env_rng example_env)"
  by (simp add: example_env_def)

definition fresh_node :: "(nat, nat, string, nat, nat, nat) p2p_node" where
  "fresh_node = the (p2p_new example_env 0 (nid 0) server_new 0)"

lemma fresh_node_eq:
  "p2p_new example_env 0 (nid 0) server_new 0 = Some fresh_node"
  "hyparview_node fresh_node = hv_new (nid 0) 0" "plumtree_node fresh_node = pt_new (nid 0)"
  "inbox (server fresh_node) = []" "message_buffer fresh_node = []" "processed_messages fresh_node = []"
  by (simp_all add: fresh_node_def p2p_new_def gen_interval_def default_parameters_def as_secs_def
      subsec_millis_def from_secs_def from_millis_def example_env_def counting_world_def Let_def
      duration_add_def DURATION_MAX_def node_time_add_def pt_new_def pt_with_options_def
      clock_now_def clock_new_def inbox_def register_local_node_def node_handle_new_def)

lemma fresh_node_reach: "p2p_reach example_env fresh_node"
  using fresh_node_eq(1) by (rule p2p_reach.start)

definition joined_node :: "(nat, nat, string, nat, nat, nat) p2p_node" where
  "joined_node = fresh_node\<lparr>server := deliver_local (MHyparview (mk_join (nid 1))) (server fresh_node)\<rparr>"

lemma joined_node_reach: "p2p_reach example_env joined_node"
  unfolding joined_node_def using fresh_node_reach by (rule p2p_reach.arrive)

lemmas p2p_evaluate =
  poll_next_def poll_round_def drain_hyparview.simps drain_plumtree.simps recv_messages.simps
  poll_loop.simps hv_poll_action_def process_sequential_messages_def cleanup_expired_messages_def
  now_or_zero_def btree_first_def handle_hyparview_action_def handle_p2pnode_protocol_message_def
  poll_recv_def deliver_local_def register_local_node_def node_handle_new_def inbox_def
  send_protocol_message_sync_def MAX_PROCESSED_CACHE_LEN_def as_u64_def

lemmas fresh_node_evaluate =
  joined_node_def fresh_node_def p2p_new_def gen_interval_def default_parameters_def as_secs_def
  subsec_millis_def from_secs_def from_millis_def example_env_def counting_world_def Let_def
  duration_add_def DURATION_MAX_def node_time_add_def pt_new_def pt_with_options_def
  clock_now_def clock_new_def hv_new_def default_node_options_def server_new_def

lemma joined_node_poll:
  "\<exists>r n'. poll_next example_env False joined_node = Some (r, n') \<and>
     active_view (hyparview_node n') = [nid 1]"
  by (simp add: fresh_node_evaluate)
    (simp add: p2p_evaluate hv_evaluate pt_evaluate nid_def)

theorem broadcast_tree_spans_active_view_witness:
  "\<exists>r n'. poll_next example_env False joined_node = Some (r, n') \<and>
     eager_push_peers (plumtree_node n') \<union> lazy_push_peers (plumtree_node n') = {nid 1} \<and>
     hv_actions (hyparview_node n') = []"
proof -
  obtain r n' where poll: "poll_next example_env False joined_node = Some (r, n')"
    and view: "active_view (hyparview_node n') = [nid 1]" using joined_node_poll by blast
  from broadcast_tree_spans_active_view [OF example_env_rng joined_node_reach poll] view poll
  show ?thesis by simp
qed

theorem p2p_node_bounds_witness:
  "length (active_view (hyparview_node joined_node)) \<le> 4 \<and> length (processed_messages joined_node) \<le> 51"
  using p2p_node_bounds [OF example_env_rng joined_node_reach]
  by (simp add: joined_node_def fresh_node_eq hv_new_def hv_with_options_def default_node_options_def)

definition early :: "(nat, nat, string) plumtree_app_message" where
  "early = \<lparr>msg_id = message_id_new (nid 1) 0 5, msg_payload = ''early''\<rparr>"

definition waiting_node :: "(nat, nat, string, nat, nat, nat) p2p_node" where
  "waiting_node = fresh_node\<lparr>message_buffer := [(5, (early, 0))], processed_messages := [9], world := 2000\<rparr>"

lemma waiting_node_facts:
  "buffer_ok (message_buffer waiting_node)"
  "now_or_zero example_env (world waiting_node) = (2000, 2001)"
  "message_buffer waiting_node = [(5, (early, 0))]" "last_processed waiting_node = Some 9"
  by (simp_all add: waiting_node_def buffer_ok_def btree_ok_def early_def message_id_new_def
      now_or_zero_def example_env_def counting_world_def as_u64_def last_processed_def)

theorem buffered_message_is_released_witness:
  "\<exists>n'. process_sequential_messages example_env waiting_node = (Some early, n')"
proof -
  obtain r n' where run: "process_sequential_messages example_env waiting_node = (r, n')" by fastforce
  from buffered_message_is_released [OF waiting_node_facts(1,2) run] run show ?thesis
    by (simp add: waiting_node_facts btree_first_def)
qed

theorem released_in_timestamp_order_witness:
  "\<exists>n'. process_sequential_messages example_env waiting_node = (Some early, n') \<and>
     last_processed n' = Some 5 \<and> map_of (message_buffer n') 5 = None"
proof -
  obtain n' where run: "process_sequential_messages example_env waiting_node = (Some early, n')"
    using waiting_node_facts
    by (auto simp: process_sequential_messages_def cleanup_expired_messages_def btree_first_def
        release_def Let_def waiting_node_def MAX_OUT_OF_ORDER_DELAY_MS_def)
  have "mid_timestamp (msg_id early) = 5" by (simp add: early_def message_id_new_def)
  with released_in_timestamp_order [OF waiting_node_facts(1,2) run] run show ?thesis by auto
qed

section \<open>Messages that are lost or fatal\<close>

text \<open>
  C38. The buffer has one place per millisecond: when a message is delivered whose timestamp is
  that of another message still in the buffer, the other one is dropped without ever being
  handed to the application.
\<close>

theorem same_timestamp_overwrites:
  assumes ok: "buffer_ok (message_buffer n)"
    and old: "map_of (message_buffer n) (mid_timestamp (msg_id m)) = Some (m', rt)" and "m' \<noteq> m"
    and run: "handle_plumtree_action E (Deliver m) n = (r, n')"
  shows "r \<noteq> Some m' \<and> (\<forall>t rt'. map_of (message_buffer n') t \<noteq> Some (m', rt'))"
proof -
  let ?t = "mid_timestamp (msg_id m)"
  obtain now w where w: "now_or_zero E (world n) = (now, w)" by fastforce
  let ?n = "n\<lparr>world := w, message_buffer := btree_insert ?t (m, now) (message_buffer n)\<rparr>"
  have proc: "process_sequential_messages E ?n = (r, n')"
    using run w by (simp add: handle_plumtree_action_def)
  have ok': "buffer_ok (message_buffer ?n)" using ok by (simp add: buffer_ok_insert)
  have t': "mid_timestamp (msg_id m') = ?t" using map_of_SomeD [OF old] ok by (auto simp: buffer_ok_def)
  have gone: "map_of (message_buffer ?n) t \<noteq> Some (m', rt')" for t rt'
  proof
    assume m': "map_of (message_buffer ?n) t = Some (m', rt')"
    then have "mid_timestamp (msg_id m') = t"
      using map_of_SomeD [OF m'] ok' by (auto simp: buffer_ok_def)
    with m' t' assms(3) ok show False by (simp add: map_of_btree_insert buffer_ok_def)
  qed
  obtain now' w' where w': "now_or_zero E (world ?n) = (now', w')" by fastforce
  note eq = process_eq [OF ok' w' proc]
  show ?thesis
  proof (cases "btree_first (message_buffer ?n)")
    case None
    with eq gone show ?thesis by simp
  next
    case (Some e)
    obtain t m1 rt1 where e: "e = (t, (m1, rt1))" by (cases e) auto
    note first = btree_first_lookup [OF ok' Some [unfolded e]]
    have "m1 \<noteq> m'" using first(1) gone by blast
    moreover have "map_of (btree_remove t (message_buffer ?n)) = (map_of (message_buffer ?n))(t := None)"
      using ok' by (simp add: map_of_btree_remove buffer_ok_def)
    ultimately show ?thesis using eq Some e gone by (auto split: if_splits)
  qed
qed

definition other_early :: "(nat, nat, string) plumtree_app_message" where
  "other_early = \<lparr>msg_id = message_id_new (nid 2) 0 5, msg_payload = ''other''\<rparr>"

theorem same_timestamp_overwrites_witness:
  "map_of (message_buffer waiting_node) 5 = Some (early, 0) \<and>
   (\<exists>r n'. handle_plumtree_action example_env (Deliver other_early) waiting_node = (r, n') \<and>
     r \<noteq> Some early \<and> (\<forall>t rt. map_of (message_buffer n') t \<noteq> Some (early, rt)))"
proof -
  obtain r n' where run: "handle_plumtree_action example_env (Deliver other_early) waiting_node = (r, n')"
    by fastforce
  have "map_of (message_buffer waiting_node) (mid_timestamp (msg_id other_early)) = Some (early, 0)"
    "early \<noteq> other_early"
    by (simp_all add: waiting_node_facts early_def other_early_def message_id_new_def)
  from same_timestamp_overwrites [OF waiting_node_facts(1) this run] run show ?thesis
    by (simp add: waiting_node_facts)
qed

end
