(* ===== verification/P2P_Safety.thy ===== *)
theory P2P_Safety
  imports P2P_Props
begin

text \<open>
  Panics and ticks of the application's node: which incoming messages can make a poll
  panic, when the periodic jobs run again, and that every other poll returns.
\<close>

section \<open>Panics of a poll\<close>

text \<open>The messages whose handler can panic: a stream message always, an IHAVE on overflow.\<close>

fun may_panic :: "('a, 'k, 'p) p2p_message \<Rightarrow> bool" where
  "may_panic (MHyparview m) = False"
| "may_panic (MPlumtree (Ihave i)) = True"
| "may_panic (MPlumtree m) = False"
| "may_panic (MPlumtreeStream m) = True"

lemma handle_message_returns:
  assumes E: "rng_ok (env_rng E)" and wf: "p2p_wf n" and m: "\<not> may_panic m"
  shows "\<exists>b n'. handle_p2pnode_protocol_message E m n = Some (b, n')"
proof (cases m)
  case (MHyparview x)
  have "hv_wf (hyparview_node n)" "hv_sized (hyparview_node n)"
    using wf by (simp_all add: p2p_wf_def linked_def)
  with message.returns [OF E] show ?thesis using MHyparview
    by (fastforce simp: handle_p2pnode_protocol_message_def)
next
  case (MPlumtree x)
  then show ?thesis using m
    by (cases x) (auto simp: handle_p2pnode_protocol_message_def pt_handle_protocol_message_def)
qed (use m in auto)

lemma recv_messages_returns:
  "rng_ok (env_rng E) \<Longrightarrow> p2p_wf n \<Longrightarrow> \<forall>m \<in> set (inbox (server n)). \<not> may_panic m \<Longrightarrow>
     \<exists>n'. recv_messages E n = Some n' \<and> set (inbox (server n')) \<subseteq> set (inbox (server n))"
proof (induction E n rule: recv_messages.induct)
  case (1 E n)
  show ?case
  proof (cases "inbox (server n)")
    case Nil
    then show ?thesis using poll_recv_inbox(2) [OF Nil] by (subst recv_messages.simps) simp
  next
    case (Cons m ms)
    then obtain s where s: "poll_recv (server n) = (Some m, s)" "inbox s = ms"
      using poll_recv_inbox(1) [OF Cons] by blast
    have wf: "p2p_wf (n\<lparr>server := s\<rparr>)"
      using "1.prems"(2) poll_recv_local [OF s(1)] by (simp add: p2p_wf_def)
    obtain b n1 where n1: "handle_p2pnode_protocol_message E m (n\<lparr>server := s\<rparr>) = Some (b, n1)"
      using handle_message_returns [OF "1.prems"(1) wf, of m] "1.prems"(3) Cons by auto
    have in1: "inbox (server n1) = ms" using handle_message_server [OF n1] s(2) by simp
    note wf1 = handle_message_wf [OF "1.prems"(1) wf n1]
    show ?thesis
    proof (cases b)
      case True
      then show ?thesis using s(1) n1 in1 Cons by (subst recv_messages.simps) auto
    next
      case False
      obtain n' where n': "recv_messages E n1 = Some n'" "set (inbox (server n')) \<subseteq> set (inbox (server n1))"
        using "1.IH" [OF s(1) [symmetric] refl n1 refl] False "1.prems"(1,3) wf1 in1 Cons by auto
      have "recv_messages E n = recv_messages E n1"
        using s(1) n1 False by (subst recv_messages.simps) simp
      then show ?thesis using n' in1 Cons by auto
    qed
  qed
qed

lemma poll_round_returns:
  assumes E: "rng_ok (env_rng E)" and wf: "p2p_wf n"
    and ok: "\<forall>m \<in> set (inbox (server n)). \<not> may_panic m"
  shows "\<exists>r did n'. poll_round E n = Some (r, did, n') \<and>
    set (inbox (server n')) \<subseteq> set (inbox (server n))"
proof -
  obtain n1 where n1: "drain_hyparview E n = Some n1" "p2p_wf n1"
    using drain_hyparview_ok [OF E wf] by blast
  have in1: "inbox (server n1) = inbox (server n)" using drain_hyparview_result [OF n1(1)] by simp
  obtain r2 n2 where n2: "process_sequential_messages E n1 = (r2, n2)" by fastforce
  have wf2: "p2p_wf n2" and in2: "inbox (server n2) = inbox (server n)"
    using process_wf [OF n1(2) n2] process_frame [OF n2] in1 by (simp_all add: same_nodes_def)
  show ?thesis
  proof (cases r2)
    case (Some m)
    then show ?thesis using n1 n2 in2 by (simp add: poll_round_def)
  next
    case None
    obtain r3 did n3 where n3: "drain_plumtree E n2 = Some (r3, did, n3)" "p2p_wf n3"
      using drain_plumtree_ok [OF wf2] by blast
    show ?thesis
    proof (cases r3)
      case (Some m)
      then show ?thesis using n1 n2 n3 \<open>r2 = None\<close> drain_plumtree_hv [OF n3(1)] in2
        by (auto simp: poll_round_def)
    next
      case r3: None
      then have in3: "inbox (server n3) = inbox (server n)"
        using drain_plumtree_hv [OF n3(1)] in2 by simp
      obtain n4 where "recv_messages E n3 = Some n4" "set (inbox (server n4)) \<subseteq> set (inbox (server n3))"
        using recv_messages_returns [OF E n3(2)] ok in3 by auto
      then show ?thesis using n1 n2 n3 \<open>r2 = None\<close> r3 in3 by (simp add: poll_round_def Let_def)
    qed
  qed
qed

lemma poll_loop_returns:
  "rng_ok (env_rng E) \<Longrightarrow> p2p_wf n \<Longrightarrow> \<forall>m \<in> set (inbox (server n)). \<not> may_panic m \<Longrightarrow>
     \<exists>r n'. poll_loop E n = Some (r, n')"
proof (induction E n rule: poll_loop.induct)
  case (1 E n)
  obtain r did n1 where round: "poll_round E n = Some (r, did, n1)"
    and sub: "set (inbox (server n1)) \<subseteq> set (inbox (server n))"
    using poll_round_returns [OF "1.prems"] by blast
  have wf1: "p2p_wf n1" using poll_round_wf [OF "1.prems"(1,2) round] by blast
  show ?case
  proof (cases "r = None \<and> did")
    case True
    then have "\<exists>r n'. poll_loop E n1 = Some (r, n')"
      using "1.IH" [OF round refl] "1.prems"(1,3) wf1 sub by blast
    then show ?thesis using round True by (subst poll_loop.simps) simp
  next
    case False
    then show ?thesis using round by (subst poll_loop.simps) (auto split: option.split)
  qed
qed

text \<open>
  A stream message from any peer brings the node down: while one heads the inbox, a poll
  either hands out a message that was already delivered and leaves the inbox as it is, or it
  reaches the unfinished handler and panics.  It never returns with nothing to do.
\<close>

theorem stream_message_panics:
  assumes head: "inbox (server n) = MPlumtreeStream x # ms"
  shows "poll_loop E n = None \<or>
    (\<exists>m n'. poll_loop E n = Some (Some m, n') \<and> inbox (server n') = inbox (server n))"
proof (cases "poll_round E n")
  case None
  then show ?thesis by (subst poll_loop.simps) simp
next
  case (Some p)
  obtain r did n' where p: "p = (r, did, n')" by (cases p) auto
  have ready: ?thesis if "r \<noteq> None" "inbox (server n') = inbox (server n)"
    using that Some p by (subst (1 2) poll_loop.simps) auto
  have in2: "inbox (server n2) = inbox (server n)"
    if "drain_hyparview E n = Some n1" "process_sequential_messages E n1 = (r2, n2)" for n1 n2 r2
    using drain_hyparview_result [OF that(1)] process_frame [OF that(2)] by (simp add: same_nodes_def)
  from Some [unfolded p] show ?thesis
  proof (cases rule: poll_round_cases)
    case (buffered n1)
    then show ?thesis using ready in2 by blast
  next
    case (delivered n1 n2)
    then show ?thesis using ready in2 [OF delivered(1,2)] drain_plumtree_hv [OF delivered(3)] by simp
  next
    case (idle n1 n2 did2 n3)
    then have "inbox (server n3) = MPlumtreeStream x # ms"
      using in2 [OF idle(1,2)] drain_plumtree_hv [OF idle(3)] head by simp
    then obtain s where "poll_recv (server n3) = (Some (MPlumtreeStream x), s)"
      using poll_recv_inbox(1) by blast
    then have "recv_messages E n3 = None"
      by (subst recv_messages.simps) (simp add: handle_p2pnode_protocol_message_def)
    then show ?thesis using idle(4) by simp
  qed
qed

definition attacked_node :: "(nat, nat, string, nat, nat, nat) p2p_node" where
  "attacked_node = fresh_node\<lparr>server := deliver_local (MPlumtreeStream StreamBegin) (server fresh_node)\<rparr>"

theorem stream_message_panics_witness:
  "inbox (server attacked_node) = [MPlumtreeStream StreamBegin] \<and>
   (poll_loop example_env attacked_node = None \<or>
    (\<exists>m n'. poll_loop example_env attacked_node = Some (Some m, n') \<and>
       inbox (server n') = [MPlumtreeStream StreamBegin]))"
proof -
  have box: "inbox (server attacked_node) = [MPlumtreeStream StreamBegin]"
    using fresh_node_eq(4) p2p_new_wf [OF fresh_node_eq(1)]
    by (simp add: attacked_node_def p2p_wf_def)
  with stream_message_panics [OF box, of example_env] show ?thesis by simp
qed

section \<open>Periodic jobs\<close>

lemma millis_of: "as_secs base * 1000 + subsec_millis base = base div 10 ^ 6"
proof -
  have "base div 10 ^ 9 = base div 10 ^ 6 div 1000" using div_mult2_eq [of base "10 ^ 6" 1000] by simp
  moreover have "base mod 10 ^ 9 div 10 ^ 6 = base div 10 ^ 6 mod 1000"
    using mod_mult2_eq [of base "10 ^ 6" 1000] by simp
  ultimately show ?thesis by (simp add: as_secs_def subsec_millis_def)
qed

lemma gen_interval_range:
  assumes "from_millis 10 \<le> base" and "base \<le> from_secs (2 ^ 54)" and "rand_u64 W w = (r, w')"
  shows "\<exists>d. gen_interval W base w = Some (d, w') \<and> base \<le> d \<and> 10 * (d - base) < base"
proof -
  let ?m = "base div 10 ^ 6"
  have m: "?m div 10 \<noteq> 0" "?m < 2 ^ 64"
    using assms(1,2) by (auto simp: from_millis_def from_secs_def)
  let ?j = "from_millis (r mod (?m div 10))"
  have "r mod (?m div 10) < ?m div 10" using m(1) by simp
  then have "10 * ?j < ?m * 10 ^ 6" by (simp add: from_millis_def)
  then have j: "10 * ?j < base" by (meson div_times_less_eq_dividend le_trans not_le)
  then have "base + ?j \<le> DURATION_MAX"
    using assms(2) by (simp add: from_secs_def DURATION_MAX_def)
  then show ?thesis using m assms(3) j
    by (simp add: gen_interval_def millis_of Let_def duration_add_def)
qed

text \<open>When a job of period \<open>base\<close> that was due at \<open>t\<close> is due after a tick at \<open>now\<close>.\<close>

definition rescheduled :: "node_time \<Rightarrow> duration \<Rightarrow> node_time \<Rightarrow> node_time \<Rightarrow> bool" where
  "rescheduled now base t t' \<longleftrightarrow>
     (if t \<le> now then now + base \<le> t' \<and> 10 * (t' - (now + base)) < base else t' = t)"

lemma next_time_range:
  assumes "from_millis 10 \<le> base" "base \<le> from_secs 400" "now + from_secs 500 \<le> DURATION_MAX"
  shows "\<exists>d w' t. gen_interval W base w = Some (d, w') \<and> node_time_add now d = Some t \<and>
    now + base \<le> t \<and> 10 * (t - (now + base)) < base"
proof -
  obtain r w' where w: "rand_u64 W w = (r, w')" by fastforce
  have base: "base \<le> from_secs (2 ^ 54)" using assms(2) by (simp add: from_secs_def)
  obtain d where d: "gen_interval W base w = Some (d, w')" "base \<le> d" "10 * (d - base) < base"
    using gen_interval_range [OF assms(1) base w] by blast
  then have "now + d \<le> DURATION_MAX" using assms(2,3) by (simp add: from_secs_def)
  with d show ?thesis by (simp add: node_time_add_def duration_add_def)
qed

lemma periods: "from_millis 10 \<le> from_secs 300" "from_secs 300 \<le> from_secs 400"
  "from_millis 10 \<le> from_secs 60" "from_secs 60 \<le> from_secs 400"
  "from_millis 10 \<le> from_secs 30" "from_secs 30 \<le> from_secs 400"
  by (simp_all add: from_millis_def from_secs_def)

text \<open>A node can always be made: its first jobs are due within the range of the clock.\<close>

lemma pt_new_clock: "clock_now (pt_clock (pt_new me)) = 0"
  by (simp add: pt_new_def pt_with_options_def clock_new_def clock_now_def)

lemma p2p_new_returns: "\<exists>n. p2p_new E rng me srv w = Some n"
proof -
  have room: "0 + from_secs 500 \<le> DURATION_MAX" by (simp add: from_secs_def DURATION_MAX_def)
  have step: "\<exists>d w' t. gen_interval (env_world E) base w = Some (d, w') \<and> node_time_add 0 d = Some t"
    if "from_millis 10 \<le> base" "base \<le> from_secs 400" for base w
    using next_time_range [OF that room, of "env_world E" w] by blast
  obtain d1 w1 t1 where 1: "gen_interval (env_world E) (from_secs 300) w = Some (d1, w1)" "node_time_add 0 d1 = Some t1"
    using step [OF periods(1,2)] by blast
  obtain d2 w2 t2 where 2: "gen_interval (env_world E) (from_secs 60) w1 = Some (d2, w2)" "node_time_add 0 d2 = Some t2"
    using step [OF periods(3,4)] by blast
  obtain d3 w3 t3 where 3: "gen_interval (env_world E) (from_secs 30) w2 = Some (d3, w3)" "node_time_add 0 d3 = Some t3"
    using step [OF periods(5,6)] by blast
  show ?thesis using 1 2 3 by (simp add: p2p_new_def default_parameters_def Let_def pt_new_clock)
qed

lemma p2p_new_state:
  assumes "p2p_new E rng me srv w = Some n"
  shows "hyparview_node n = hv_new me rng" "plumtree_node n = pt_new me" "p2p_id n = me"
    "server n = register_local_node (node_handle_new (local_id me)) srv"
  using assms by (auto simp: p2p_new_def p2p_id_def pt_new_def pt_with_options_def bind_eq_Some_conv Let_def)

text \<open>What a job leaves as it was.\<close>

definition tick_frame ::
  "('a, 'k, 'p, 'c, 'r, 'w) p2p_node \<Rightarrow> ('a, 'k, 'p, 'c, 'r, 'w) p2p_node \<Rightarrow> bool" where
  "tick_frame n n' \<longleftrightarrow> p2p_wf n' \<and> params n' = params n \<and> plumtree_node n' = plumtree_node n \<and> server n' = server n"

lemma tick_shuffle_ok:
  assumes E: "rng_ok (env_rng E)" and wf: "p2p_wf n" and ps: "params n = default_parameters"
    and room: "now + from_secs 500 \<le> DURATION_MAX"
  shows "\<exists>n'. tick_shuffle E now n = Some n' \<and> tick_frame n n' \<and>
    rescheduled now (from_secs 300) (hyparview_shuffle_time n) (hyparview_shuffle_time n') \<and>
    hyparview_sync_active_view_time n' = hyparview_sync_active_view_time n \<and>
    hyparview_fill_active_view_time n' = hyparview_fill_active_view_time n"
proof -
  obtain h where h: "shuffle_passive_view (env_rng E) (hyparview_node n) = Some h"
    using shuffling.returns [OF E] wf by (auto simp: p2p_wf_def linked_def)
  obtain d w t where "gen_interval (env_world E) (from_secs 300) (world n) = Some (d, w)"
    "node_time_add now d = Some t" "now + from_secs 300 \<le> t" "10 * (t - (now + from_secs 300)) < from_secs 300"
    using next_time_range [OF periods(1,2) room, of "env_world E" "world n"] by blast
  then have run: "\<exists>n'. tick_shuffle E now n = Some n' \<and> params n' = params n \<and> plumtree_node n' = plumtree_node n \<and> server n' = server n \<and>
    rescheduled now (from_secs 300) (hyparview_shuffle_time n) (hyparview_shuffle_time n') \<and>
    hyparview_sync_active_view_time n' = hyparview_sync_active_view_time n \<and>
    hyparview_fill_active_view_time n' = hyparview_fill_active_view_time n"
    using h ps by (simp add: tick_shuffle_def rescheduled_def default_parameters_def)
  then show ?thesis using tick_jobs_wf(1) [OF E wf] by (auto simp: tick_frame_def)
qed

lemma tick_sync_ok:
  assumes E: "rng_ok (env_rng E)" and wf: "p2p_wf n" and ps: "params n = default_parameters"
    and room: "now + from_secs 500 \<le> DURATION_MAX"
  shows "\<exists>n'. tick_sync E now n = Some n' \<and> tick_frame n n' \<and>
    rescheduled now (from_secs 60) (hyparview_sync_active_view_time n) (hyparview_sync_active_view_time n') \<and>
    hyparview_shuffle_time n' = hyparview_shuffle_time n \<and>
    hyparview_fill_active_view_time n' = hyparview_fill_active_view_time n"
proof -
  obtain d w t where "gen_interval (env_world E) (from_secs 60) (world n) = Some (d, w)"
    "node_time_add now d = Some t" "now + from_secs 60 \<le> t" "10 * (t - (now + from_secs 60)) < from_secs 60"
    using next_time_range [OF periods(3,4) room, of "env_world E" "world n"] by blast
  then have run: "\<exists>n'. tick_sync E now n = Some n' \<and> params n' = params n \<and> plumtree_node n' = plumtree_node n \<and> server n' = server n \<and>
    rescheduled now (from_secs 60) (hyparview_sync_active_view_time n) (hyparview_sync_active_view_time n') \<and>
    hyparview_shuffle_time n' = hyparview_shuffle_time n \<and>
    hyparview_fill_active_view_time n' = hyparview_fill_active_view_time n"
    using ps by (simp add: tick_sync_def rescheduled_def default_parameters_def)
  then show ?thesis using tick_jobs_wf(2) [OF E wf] by (auto simp: tick_frame_def)
qed

lemma tick_fill_ok:
  assumes E: "rng_ok (env_rng E)" and wf: "p2p_wf n" and ps: "params n = default_parameters"
    and room: "now + from_secs 500 \<le> DURATION_MAX"
  shows "\<exists>n'. tick_fill E now n = Some n' \<and> tick_frame n n' \<and>
    rescheduled now (from_secs 30) (hyparview_fill_active_view_time n) (hyparview_fill_active_view_time n') \<and>
    hyparview_shuffle_time n' = hyparview_shuffle_time n \<and>
    hyparview_sync_active_view_time n' = hyparview_sync_active_view_time n"
proof -
  obtain h where h: "fill_active_view (env_rng E) (hyparview_node n) = Some h"
    using filling.returns [OF E] wf by (auto simp: p2p_wf_def linked_def)
  obtain d w t where "gen_interval (env_world E) (from_secs 30) (world n) = Some (d, w)"
    "node_time_add now d = Some t" "now + from_secs 30 \<le> t" "10 * (t - (now + from_secs 30)) < from_secs 30"
    using next_time_range [OF periods(5,6) room, of "env_world E" "world n"] by blast
  then have run: "\<exists>n'. tick_fill E now n = Some n' \<and> params n' = params n \<and> plumtree_node n' = plumtree_node n \<and> server n' = server n \<and>
    rescheduled now (from_secs 30) (hyparview_fill_active_view_time n) (hyparview_fill_active_view_time n') \<and>
    hyparview_shuffle_time n' = hyparview_shuffle_time n \<and>
    hyparview_sync_active_view_time n' = hyparview_sync_active_view_time n"
    using h ps by (simp add: tick_fill_def rescheduled_def default_parameters_def)
  then show ?thesis using tick_jobs_wf(3) [OF E wf] by (auto simp: tick_frame_def)
qed

lemma handle_tick_ok:
  assumes E: "rng_ok (env_rng E)" and wf: "p2p_wf n" and ps: "params n = default_parameters"
    and room: "pt_clock (plumtree_node n) + from_secs 501 \<le> DURATION_MAX"
  shows "\<exists>n'. handle_tick E n = Some n' \<and> p2p_wf n' \<and> server n' = server n \<and>
    (let now = pt_clock (plumtree_node n) + from_millis 100 in
      pt_clock (plumtree_node n') = now \<and>
      rescheduled now (from_secs 300) (hyparview_shuffle_time n) (hyparview_shuffle_time n') \<and>
      rescheduled now (from_secs 60) (hyparview_sync_active_view_time n) (hyparview_sync_active_view_time n') \<and>
      rescheduled now (from_secs 30) (hyparview_fill_active_view_time n) (hyparview_fill_active_view_time n'))"
proof -
  let ?now = "pt_clock (plumtree_node n) + from_millis 100"
  let ?pt = "plumtree_node n\<lparr>pt_clock := ?now\<rparr>" and ?n = "n\<lparr>plumtree_node := plumtree_node n\<lparr>pt_clock := ?now\<rparr>\<rparr>"
  have room': "?now + from_secs 500 \<le> DURATION_MAX" using room by (simp add: from_secs_def from_millis_def)
  have pt: "pt_tick (tick_interval (params n)) (plumtree_node n) = Some ?pt"
    using room' ps by (simp add: pt_tick_def clock_tick_def duration_add_def default_parameters_def)
  have wf0: "p2p_wf ?n" using wf by (auto simp: p2p_wf_def linked_def pt_wf_defs)
  obtain n1 where n1: "tick_shuffle E ?now ?n = Some n1" "tick_frame ?n n1"
    "rescheduled ?now (from_secs 300) (hyparview_shuffle_time n) (hyparview_shuffle_time n1)"
    "hyparview_sync_active_view_time n1 = hyparview_sync_active_view_time n"
    "hyparview_fill_active_view_time n1 = hyparview_fill_active_view_time n"
    using tick_shuffle_ok [OF E wf0 _ room'] ps by auto
  obtain n2 where n2: "tick_sync E ?now n1 = Some n2" "tick_frame n1 n2"
    "rescheduled ?now (from_secs 60) (hyparview_sync_active_view_time n1) (hyparview_sync_active_view_time n2)"
    "hyparview_shuffle_time n2 = hyparview_shuffle_time n1"
    "hyparview_fill_active_view_time n2 = hyparview_fill_active_view_time n1"
    using tick_sync_ok [OF E _ _ room', of n1] n1(2) ps by (auto simp: tick_frame_def)
  obtain n3 where n3: "tick_fill E ?now n2 = Some n3" "tick_frame n2 n3"
    "rescheduled ?now (from_secs 30) (hyparview_fill_active_view_time n2) (hyparview_fill_active_view_time n3)"
    "hyparview_shuffle_time n3 = hyparview_shuffle_time n2"
    "hyparview_sync_active_view_time n3 = hyparview_sync_active_view_time n2"
    using tick_fill_ok [OF E _ _ room', of n2] n1(2) n2(2) ps by (auto simp: tick_frame_def)
  have "handle_tick E n = Some n3"
    using pt n1(1) n2(1) n3(1) by (simp add: handle_tick_def clock_now_def)
  then show ?thesis using n1 n2 n3 by (simp add: tick_frame_def Let_def)
qed

text \<open>
  A tick never panics while the node's clock is 501 seconds from the end of time.  It
  advances the clock by 100 ms and runs each periodic job that is due; the job is due again
  after its period (300 s, 60 s and 30 s) and a jitter of less than a tenth of it, and a job
  that is not due keeps its time.
\<close>

theorem tick_reschedules_jobs:
  assumes E: "rng_ok (env_rng E)" and wf: "p2p_wf n" and ps: "params n = default_parameters"
    and room: "pt_clock (plumtree_node n) + from_secs 501 \<le> DURATION_MAX"
  shows "\<exists>n'. handle_tick E n = Some n' \<and> p2p_wf n' \<and>
    (let now = pt_clock (plumtree_node n) + from_millis 100 in
      pt_clock (plumtree_node n') = now \<and>
      rescheduled now (from_secs 300) (hyparview_shuffle_time n) (hyparview_shuffle_time n') \<and>
      rescheduled now (from_secs 60) (hyparview_sync_active_view_time n) (hyparview_sync_active_view_time n') \<and>
      rescheduled now (from_secs 30) (hyparview_fill_active_view_time n) (hyparview_fill_active_view_time n'))"
  using handle_tick_ok [OF assms] by blast

theorem tick_reschedules_jobs_witness:
  "params fresh_node = default_parameters \<and>
   (\<exists>n'. handle_tick example_env fresh_node = Some n' \<and>
      pt_clock (plumtree_node n') = from_millis 100)"
proof -
  have f: "params fresh_node = default_parameters" "pt_clock (plumtree_node fresh_node) = 0"
    by (simp_all add: fresh_node_eq pt_new_def pt_with_options_def clock_new_def)
      (simp add: fresh_node_evaluate)
  then show ?thesis
    using tick_reschedules_jobs [OF example_env_rng p2p_new_wf [OF fresh_node_eq(1)]]
    by (auto simp: Let_def from_secs_def DURATION_MAX_def)
qed

section \<open>Polls return\<close>

text \<open>The intervals of the jobs are those the node was made with.\<close>

lemma process_params: "process_sequential_messages E n = (r, n') \<Longrightarrow> params n' = params n"
  by (auto simp: process_sequential_messages_def cleanup_expired_messages_def release_def Let_def
      split: prod.splits option.splits if_splits)

lemma drain_hyparview_params: "drain_hyparview E n = Some n' \<Longrightarrow> params n' = params n"
proof (induction E n rule: drain_hyparview.induct)
  case (1 E n)
  obtain a h where poll: "hv_poll_action (hyparview_node n) = (a, h)" by fastforce
  show ?case
  proof (cases a)
    case None
    then show ?thesis using "1.prems" poll by (subst (asm) drain_hyparview.simps) simp
  next
    case (Some x)
    then obtain n1 where n1: "handle_hyparview_action E x (n\<lparr>hyparview_node := h\<rparr>) = Some n1" "drain_hyparview E n1 = Some n'"
      using "1.prems" poll by (subst (asm) drain_hyparview.simps) (auto split: option.splits)
    have "params n1 = params n"
      using n1(1) by (auto simp: handle_hyparview_action_def split: hv_action.splits hv_event.splits)
    then show ?thesis using "1.IH" [OF poll [symmetric] Some n1] by simp
  qed
qed

lemma drain_plumtree_params: "drain_plumtree E n = Some (r, did, n') \<Longrightarrow> params n' = params n"
proof (induction E n arbitrary: did rule: drain_plumtree.induct)
  case (1 E n)
  from "1.prems" obtain a pt where poll: "pt_poll_action (plumtree_node n) = Some (a, pt)"
    by (subst (asm) drain_plumtree.simps) (auto split: option.splits)
  show ?case
  proof (cases a)
    case None
    then show ?thesis using "1.prems" poll by (subst (asm) drain_plumtree.simps) auto
  next
    case (Some x)
    obtain r1 n1 where h: "handle_plumtree_action E x (n\<lparr>plumtree_node := pt\<rparr>) = (r1, n1)" by fastforce
    then have same: "params n1 = params n"
      by (auto simp: handle_plumtree_action_def Let_def split: pt_action.splits prod.splits dest: process_params)
    show ?thesis
    proof (cases r1)
      case None
      then obtain did' where "drain_plumtree E n1 = Some (r, did', n')"
        using "1.prems" poll Some h by (subst (asm) drain_plumtree.simps) auto
      then show ?thesis using "1.IH" [OF poll refl Some h [symmetric] None] same by simp
    next
      case (Some m)
      then show ?thesis using "1.prems" poll \<open>a = Some x\<close> h same by (subst (asm) drain_plumtree.simps) simp
    qed
  qed
qed

lemma recv_messages_params: "recv_messages E n = Some n' \<Longrightarrow> params n' = params n"
proof (induction E n rule: recv_messages.induct)
  case (1 E n)
  obtain r s where s: "poll_recv (server n) = (r, s)" by fastforce
  show ?case
  proof (cases r)
    case None
    then show ?thesis using "1.prems" s recv_messages.simps [of E n] by simp
  next
    case (Some m)
    obtain b n1 where n1: "handle_p2pnode_protocol_message E m (n\<lparr>server := s\<rparr>) = Some (b, n1)"
      and rest: "if b then n' = n1 else recv_messages E n1 = Some n'"
      using "1.prems" s Some recv_messages.simps [of E n] by (auto split: option.splits bool.splits)
    have "params n1 = params n" using n1 by (auto simp: handle_p2pnode_protocol_message_def split: p2p_message.splits)
    then show ?thesis using rest "1.IH" [OF s [symmetric] Some n1 refl] by (cases b) auto
  qed
qed

lemma poll_loop_params: "poll_loop E n = Some (r, n') \<Longrightarrow> params n' = params n"
proof (induction E n rule: poll_loop.induct)
  case (1 E n)
  obtain r1 did n1 where round: "poll_round E n = Some (r1, did, n1)"
    using "1.prems" by (subst (asm) poll_loop.simps) (auto split: option.splits)
  have same: "params n1 = params n"
    using round
    by (cases rule: poll_round_cases)
      (auto dest!: drain_hyparview_params process_params drain_plumtree_params recv_messages_params)
  show ?case
  proof (cases "r1 = None \<and> did")
    case True
    then have "poll_loop E n1 = Some (r, n')" using "1.prems" round by (subst (asm) poll_loop.simps) simp
    then show ?thesis using "1.IH" [OF round] True same by simp
  next
    case False
    then show ?thesis using "1.prems" round same by (subst (asm) poll_loop.simps) (auto split: option.splits)
  qed
qed

lemma tick_jobs_params:
  "tick_shuffle E now n = Some n' \<Longrightarrow> params n' = params n"
  "tick_sync E now n = Some n' \<Longrightarrow> params n' = params n"
  "tick_fill E now n = Some n' \<Longrightarrow> params n' = params n"
  by (auto simp: tick_shuffle_def tick_sync_def tick_fill_def bind_eq_Some_conv Let_def split: if_splits)

lemma handle_tick_params: "handle_tick E n = Some n' \<Longrightarrow> params n' = params n"
  by (auto simp: handle_tick_def bind_eq_Some_conv Let_def dest!: tick_jobs_params)

lemma p2p_reach_params: "p2p_reach E n \<Longrightarrow> params n = default_parameters"
proof (induction rule: p2p_reach.induct)
  case (start rng me srv w n)
  then show ?case by (auto simp: p2p_new_def bind_eq_Some_conv Let_def)
next
  case (broadcast n payload i n')
  then show ?case by (auto simp: p2p_broadcast_def bind_eq_Some_conv Let_def split: prod.splits)
next
  case (poll n tick r n')
  then obtain n1 where "if tick then handle_tick E n = Some n1 else n1 = n" "poll_loop E n1 = Some (r, n')"
    by (auto simp: poll_next_def bind_eq_Some_conv split: if_splits)
  then show ?case using poll.IH handle_tick_params [of E n n1] poll_loop_params [of E n1 r n']
    by (simp split: if_splits)
next
  case (leave n net n')
  then show ?case by (auto simp: p2p_leave_def)
qed (simp_all add: p2p_join_def)

text \<open>
  C39. A poll returns.  However a node has been used, polling it returns, whether or not the tick is
  due and whatever jobs, actions, timers and messages it then has to work through, unless its
  clock is within 501 seconds of the end of time, or a message in its inbox is an IHAVE or
  belongs to the unfinished stream protocol: no HyParView message, gossip, graft or prune of a
  peer can make it panic or run forever.
\<close>

theorem poll_returns:
  assumes "rng_ok (env_rng E)" and "p2p_reach E n"
    and "\<forall>m \<in> set (inbox (server n)). \<not> may_panic m"
    and "tick \<Longrightarrow> pt_clock (plumtree_node n) + from_secs 501 \<le> DURATION_MAX"
  shows "\<exists>r n'. poll_next E tick n = Some (r, n')"
proof -
  have wf: "p2p_wf n" by (rule p2p_reach_wf [OF assms(1,2)])
  obtain n1 where n1: "(if tick then handle_tick E n else Some n) = Some n1" "p2p_wf n1" "server n1 = server n"
  proof (cases tick)
    case True
    then show thesis using that handle_tick_ok [OF assms(1) wf p2p_reach_params [OF assms(2)] assms(4)] by auto
  qed (use that wf in auto)
  then show ?thesis
    using poll_loop_returns [OF assms(1) n1(2)] assms(3) by (simp add: poll_next_def)
qed

theorem poll_returns_witness:
  "inbox (server joined_node) = [MHyparview (mk_join (nid 1))] \<and>
   (\<exists>r n'. poll_next example_env True joined_node = Some (r, n'))"
proof -
  have box: "inbox (server joined_node) = [MHyparview (mk_join (nid 1))]"
    using fresh_node_eq(4) p2p_new_wf [OF fresh_node_eq(1)] by (simp add: joined_node_def p2p_wf_def)
  have "pt_clock (plumtree_node joined_node) + from_secs 501 \<le> DURATION_MAX"
    by (simp add: joined_node_def fresh_node_eq pt_new_def pt_with_options_def clock_new_def from_secs_def DURATION_MAX_def)
  then show ?thesis
    using poll_returns [OF example_env_rng joined_node_reach, of True] box by simp
qed

end
