(* ===== verification/Failed_Sends.thy ===== *)
theory Failed_Sends
  imports P2P_Safety
begin

text \<open>
  What a failed send does to a node: the notice it puts into the local inbox, and how the polls
  that follow take the destination out of the active view and of the broadcast tree, whatever
  else they have to handle before they come to the notice.
\<close>

section \<open>Failed sends\<close>







lemma handle_message_frame:
  "handle_p2pnode_protocol_message E m n = Some (b, n') \<Longrightarrow> \<not> b \<Longrightarrow> hyparview_node n' = hyparview_node n"
  by (auto simp: handle_p2pnode_protocol_message_def split: p2p_message.splits)

























end
