(* ===== verification/Vector_Clock.thy ===== *)
theory Vector_Clock
  imports Prelude "HOL-Library.AList"
begin

text \<open>
  The vector clock of \<^verbatim>\<open>node/clock.rs\<close>: a node's own identifier and a table of logical times
  per node.  The hash table is an association list with distinct keys; the code only looks
  entries up, replaces them and asks whether all or some entries satisfy a test, so the
  order of the list is not observable.

  The clock values form a join semilattice in which \<^verbatim>\<open>update_from\<close> is the join with one entry;
  the last section says what \<^verbatim>\<open>compare_with\<close> decides.
\<close>

section \<open>The clock\<close>

record 'n vector_clock =
  vc_node_id :: 'n
  timestamps :: "('n \<times> nat) list"

datatype vector_clock_ordering = Before | After | Concurrent | Equal

definition vector_clock_new :: "'n \<Rightarrow> 'n vector_clock" where
  "vector_clock_new node_id = \<lparr>vc_node_id = node_id, timestamps = [(node_id, 0)]\<rparr>"

text \<open>\<^verbatim>\<open>entry(k).or_insert(0)\<close>: the value under the key after a missing key got the value 0.\<close>

definition entry_or_0 :: "'n \<Rightarrow> 'n vector_clock \<Rightarrow> nat" where
  "entry_or_0 k c = (case map_of (timestamps c) k of None \<Rightarrow> 0 | Some t \<Rightarrow> t)"

definition update_from :: "'n \<Rightarrow> nat \<Rightarrow> 'n vector_clock \<Rightarrow> 'n vector_clock" where
  "update_from sender sender_timestamp c =
     c\<lparr>timestamps := AList.update sender (max (entry_or_0 sender c) sender_timestamp) (timestamps c)\<rparr>"

definition increment :: "'n vector_clock \<Rightarrow> 'n vector_clock option" where
  "increment c =
     do {
       t \<leftarrow> u64_add (entry_or_0 (vc_node_id c) c) 1;
       Some (c\<lparr>timestamps := AList.update (vc_node_id c) t (timestamps c)\<rparr>)
     }"

definition get_own_timestamp :: "'n vector_clock \<Rightarrow> nat" where
  "get_own_timestamp c = (case map_of (timestamps c) (vc_node_id c) of None \<Rightarrow> 0 | Some t \<Rightarrow> t)"

text \<open>\<^verbatim>\<open>other.timestamps.get(node).is_some_and(p)\<close>.\<close>

definition get_is_some_and :: "'n \<Rightarrow> (nat \<Rightarrow> bool) \<Rightarrow> 'n vector_clock \<Rightarrow> bool" where
  "get_is_some_and node p c = (case map_of (timestamps c) node of None \<Rightarrow> False | Some t \<Rightarrow> p t)"

definition compare_with :: "'n vector_clock \<Rightarrow> 'n vector_clock \<Rightarrow> vector_clock_ordering" where
  "compare_with self other =
     (let self_is_greater =
            list_all (\<lambda>(node, ts). get_is_some_and node (\<lambda>other_ts. ts \<ge> other_ts) other) (timestamps self) \<and>
            list_ex (\<lambda>(node, ts). get_is_some_and node (\<lambda>other_ts. ts > other_ts) other) (timestamps self);
          other_is_greater =
            list_all (\<lambda>(node, ts). get_is_some_and node (\<lambda>self_ts. ts < self_ts) self) (timestamps other) \<and>
            list_ex (\<lambda>(node, ts). get_is_some_and node (\<lambda>self_ts. ts < self_ts) self) (timestamps other)
      in if self_is_greater \<and> other_is_greater then Concurrent
         else if self_is_greater then After
         else if other_is_greater then Before
         else Equal)"

section \<open>Invariant and abstraction\<close>

definition vc_wf :: "'n vector_clock \<Rightarrow> bool" where
  "vc_wf c \<longleftrightarrow> distinct (map fst (timestamps c)) \<and> vc_node_id c \<in> set (map fst (timestamps c))"

definition known_nodes :: "'n vector_clock \<Rightarrow> 'n set" where
  "known_nodes c = set (map fst (timestamps c))"

lemma vc_wf_new: "vc_wf (vector_clock_new k)"
  by (simp add: vc_wf_def vector_clock_new_def)

lemma vc_wf_update: "vc_wf c \<Longrightarrow> vc_wf (update_from s t c)"
  by (auto simp: vc_wf_def update_from_def distinct_update dom_update)

lemma vc_wf_increment: "vc_wf c \<Longrightarrow> increment c = Some c' \<Longrightarrow> vc_wf c'"
  by (auto simp: vc_wf_def increment_def distinct_update dom_update split: Option.bind_splits)

lemma known_nodes_iff: "n \<in> known_nodes c \<longleftrightarrow> map_of (timestamps c) n \<noteq> None"
  by (force simp: known_nodes_def map_of_eq_None_iff)

lemma get_is_some_and_iff:
  "get_is_some_and n p c \<longleftrightarrow> n \<in> known_nodes c \<and> p (entry_or_0 n c)"
  by (simp add: get_is_some_and_def entry_or_0_def known_nodes_iff split: option.split)

lemma entry_update [simp]:
  "entry_or_0 n (c\<lparr>timestamps := AList.update k v (timestamps c)\<rparr>) = (if n = k then v else entry_or_0 n c)"
  by (simp add: entry_or_0_def update_conv')

lemma entry_update_from [simp]:
  "entry_or_0 n (update_from s t c) = (if n = s then max (entry_or_0 s c) t else entry_or_0 n c)"
  by (simp add: update_from_def)

lemma entries_iff:
  assumes "vc_wf c"
  shows "(\<forall>(n, t) \<in> set (timestamps c). P n t) \<longleftrightarrow> (\<forall>n \<in> known_nodes c. P n (entry_or_0 n c))"
    and "(\<exists>(n, t) \<in> set (timestamps c). P n t) \<longleftrightarrow> (\<exists>n \<in> known_nodes c. P n (entry_or_0 n c))"
proof -
  have "entry_or_0 n c = t" if "(n, t) \<in> set (timestamps c)" for n t
    using that assms by (simp add: entry_or_0_def vc_wf_def)
  then show "(\<forall>(n, t) \<in> set (timestamps c). P n t) \<longleftrightarrow> (\<forall>n \<in> known_nodes c. P n (entry_or_0 n c))"
    and "(\<exists>(n, t) \<in> set (timestamps c). P n t) \<longleftrightarrow> (\<exists>n \<in> known_nodes c. P n (entry_or_0 n c))"
    by (force simp: known_nodes_def)+
qed

lemma compare_with_eq:
  assumes "vc_wf a" "vc_wf b"
  shows "compare_with a b =
    (let ge = known_nodes a \<subseteq> known_nodes b \<and> (\<forall>n \<in> known_nodes a. entry_or_0 n b \<le> entry_or_0 n a) \<and>
           (\<exists>n \<in> known_nodes a. entry_or_0 n b < entry_or_0 n a);
         le = known_nodes b \<subseteq> known_nodes a \<and> (\<forall>n \<in> known_nodes b. entry_or_0 n b < entry_or_0 n a)
     in if ge \<and> le then Concurrent else if ge then After else if le then Before else Equal)"
proof -
  have ne: "\<exists>n. n \<in> known_nodes b" using assms(2) by (auto simp: vc_wf_def known_nodes_def)
  have ge: "list_all (\<lambda>(n, t). get_is_some_and n (\<lambda>t'. t' \<le> t) b) (timestamps a) \<longleftrightarrow>
      known_nodes a \<subseteq> known_nodes b \<and> (\<forall>n \<in> known_nodes a. entry_or_0 n b \<le> entry_or_0 n a)"
    using entries_iff(1) [OF assms(1)] by (auto simp: list_all_iff get_is_some_and_iff)
  have gt: "list_ex (\<lambda>(n, t). get_is_some_and n (\<lambda>t'. t' < t) b) (timestamps a) \<longleftrightarrow>
      (\<exists>n \<in> known_nodes a. n \<in> known_nodes b \<and> entry_or_0 n b < entry_or_0 n a)"
    using entries_iff(2) [OF assms(1)] by (simp add: list_ex_iff get_is_some_and_iff)
  have le: "list_all (\<lambda>(n, t). get_is_some_and n (\<lambda>t'. t < t') a) (timestamps b) \<longleftrightarrow>
      known_nodes b \<subseteq> known_nodes a \<and> (\<forall>n \<in> known_nodes b. entry_or_0 n b < entry_or_0 n a)"
    using entries_iff(1) [OF assms(2)] by (auto simp: list_all_iff get_is_some_and_iff)
  have lt: "list_ex (\<lambda>(n, t). get_is_some_and n (\<lambda>t'. t < t') a) (timestamps b) \<longleftrightarrow>
      (\<exists>n \<in> known_nodes b. n \<in> known_nodes a \<and> entry_or_0 n b < entry_or_0 n a)"
    using entries_iff(2) [OF assms(2)] by (simp add: list_ex_iff get_is_some_and_iff)
  have ge': "known_nodes a \<subseteq> known_nodes b \<and> (\<forall>n \<in> known_nodes a. entry_or_0 n b \<le> entry_or_0 n a) \<and>
      (\<exists>n \<in> known_nodes a. n \<in> known_nodes b \<and> entry_or_0 n b < entry_or_0 n a) \<longleftrightarrow>
    known_nodes a \<subseteq> known_nodes b \<and> (\<forall>n \<in> known_nodes a. entry_or_0 n b \<le> entry_or_0 n a) \<and>
      (\<exists>n \<in> known_nodes a. entry_or_0 n b < entry_or_0 n a)" by blast
  have le': "known_nodes b \<subseteq> known_nodes a \<and> (\<forall>n \<in> known_nodes b. entry_or_0 n b < entry_or_0 n a) \<and>
      (\<exists>n \<in> known_nodes b. n \<in> known_nodes a \<and> entry_or_0 n b < entry_or_0 n a) \<longleftrightarrow>
    known_nodes b \<subseteq> known_nodes a \<and> (\<forall>n \<in> known_nodes b. entry_or_0 n b < entry_or_0 n a)"
    using ne by blast
  show ?thesis unfolding compare_with_def ge gt le lt conj_assoc ge' le' Let_def ..
qed

section \<open>Updating\<close>

lemma Max_join: "finite M \<Longrightarrow> Max (insert (max a t) M) = Max (insert a (insert t (M :: nat set)))"
  by (cases "M = {}") (simp_all add: max.assoc)

lemma entry_updates:
  "entry_or_0 n (fold (\<lambda>(s, t). update_from s t) us c) =
     Max (insert (entry_or_0 n c) {t. (n, t) \<in> set us})"
proof (induction us arbitrary: c)
  case (Cons u us)
  obtain s t where u: "u = (s, t)" by (cases u)
  have fin: "finite {t. (n, t) \<in> set us}"
    by (rule finite_subset [of _ "snd ` set us"]) force+
  have "{x. (n, x) \<in> set (u # us)} = (if n = s then insert t {t. (n, t) \<in> set us} else {t. (n, t) \<in> set us})"
    using u by auto
  then show ?case using Cons [of "update_from s t c"] fin u
    by (auto simp: Max_join)
qed simp

text \<open>
  Receiving timestamps is a join.  After any sequence of updates the time kept for a node
  is the maximum of its old time and the times received from it, so neither the order of the
  updates nor repeating them matters, and no time ever goes back.  Incrementing adds one to
  the node's own time and leaves the other times alone, or panics when the own time is
  \<open>2 ^ 64 - 1\<close>.
\<close>

theorem vector_clock_joins:
  "entry_or_0 n (fold (\<lambda>(s, t). update_from s t) us c) =
     Max (insert (entry_or_0 n c) {t. (n, t) \<in> set us}) \<and>
   (if get_own_timestamp c + 1 < 2 ^ 64
    then \<exists>c'. increment c = Some c' \<and> get_own_timestamp c' = get_own_timestamp c + 1 \<and>
      (\<forall>k. k \<noteq> vc_node_id c \<longrightarrow> entry_or_0 k c' = entry_or_0 k c)
    else increment c = None)"
proof -
  have own: "get_own_timestamp c = entry_or_0 (vc_node_id c) c" for c :: "'a vector_clock"
    by (simp add: get_own_timestamp_def entry_or_0_def)
  show ?thesis unfolding own by (simp add: entry_updates increment_def u64_add_def)
qed

theorem vector_clock_joins_witness:
  "entry_or_0 1 (fold (\<lambda>(s, t). update_from s t) [(1, 5), (2, 7), (1, 3)] (vector_clock_new (1 :: nat))) = 5 \<and>
   (\<exists>c'. increment (vector_clock_new (1 :: nat)) = Some c' \<and> get_own_timestamp c' = 1)"
proof -
  have "{t. (1, t) \<in> set [(1 :: nat, 5 :: nat), (2, 7), (1, 3)]} = {5, 3}" by auto
  then show ?thesis
    using vector_clock_joins [of 1 "[(1, 5), (2, 7), (1, 3)]" "vector_clock_new (1 :: nat)"]
    by (auto simp: entry_or_0_def vector_clock_new_def get_own_timestamp_def)
qed

section \<open>Comparing\<close>

text \<open>
  What comparing two clocks over the same nodes decides: a clock that is ahead in every
  entry is reported concurrent with the other, one that is ahead in some entries and behind in
  none is reported after it, and every other pair is reported equal, the clocks that really
  happened before and the really concurrent ones included.  The answer \<^const>\<open>Before\<close> does not
  occur; it is given only for a clock that is ahead of the other in every entry of the other
  and knows more nodes.
\<close>

theorem compare_with_decides:
  assumes wf: "vc_wf a" "vc_wf b"
  shows "(known_nodes a = known_nodes b \<longrightarrow> compare_with a b =
      (if \<forall>n \<in> known_nodes a. entry_or_0 n b < entry_or_0 n a then Concurrent
       else if (\<forall>n \<in> known_nodes a. entry_or_0 n b \<le> entry_or_0 n a) \<and>
               (\<exists>n \<in> known_nodes a. entry_or_0 n b < entry_or_0 n a) then After
       else Equal)) \<and>
    (compare_with a b = Before \<longleftrightarrow>
      known_nodes b \<subset> known_nodes a \<and> (\<forall>n \<in> known_nodes b. entry_or_0 n b < entry_or_0 n a))"
proof (intro conjI)
  have ne: "known_nodes b \<noteq> {}" using wf(2) by (auto simp: vc_wf_def known_nodes_def)
  show "known_nodes a = known_nodes b \<longrightarrow> compare_with a b =
      (if \<forall>n \<in> known_nodes a. entry_or_0 n b < entry_or_0 n a then Concurrent
       else if (\<forall>n \<in> known_nodes a. entry_or_0 n b \<le> entry_or_0 n a) \<and>
               (\<exists>n \<in> known_nodes a. entry_or_0 n b < entry_or_0 n a) then After
       else Equal)"
    using ne by (auto simp: compare_with_eq [OF wf] Let_def intro: less_imp_le)
  show "compare_with a b = Before \<longleftrightarrow>
      known_nodes b \<subset> known_nodes a \<and> (\<forall>n \<in> known_nodes b. entry_or_0 n b < entry_or_0 n a)"
    using ne by (auto simp: compare_with_eq [OF wf] Let_def split: if_splits intro: less_imp_le)
qed

definition later_clock :: "nat vector_clock" where
  "later_clock = \<lparr>vc_node_id = 1, timestamps = [(1, 3), (2, 5)]\<rparr>"

definition earlier_clock :: "nat vector_clock" where
  "earlier_clock = \<lparr>vc_node_id = 2, timestamps = [(2, 4), (1, 3)]\<rparr>"

theorem compare_with_decides_witness:
  "compare_with later_clock earlier_clock = After \<and> compare_with earlier_clock later_clock = Equal \<and>
   compare_with later_clock (vector_clock_new 1) = Before"
proof -
  have wf: "vc_wf later_clock" "vc_wf earlier_clock" "vc_wf (vector_clock_new (1 :: nat))"
    by (simp_all add: vc_wf_def later_clock_def earlier_clock_def vector_clock_new_def)
  have nodes: "known_nodes later_clock = {1, 2}" "known_nodes earlier_clock = {1, 2}"
    "known_nodes (vector_clock_new (1 :: nat)) = {1}"
    by (auto simp: known_nodes_def later_clock_def earlier_clock_def vector_clock_new_def)
  have entries: "entry_or_0 1 later_clock = 3" "entry_or_0 2 later_clock = 5"
    "entry_or_0 1 earlier_clock = 3" "entry_or_0 2 earlier_clock = 4"
    "entry_or_0 1 (vector_clock_new (1 :: nat)) = 0"
    by (simp_all add: entry_or_0_def later_clock_def earlier_clock_def vector_clock_new_def)
  show ?thesis
    using compare_with_decides [OF wf(1) wf(2)] compare_with_decides [OF wf(2) wf(1)]
      compare_with_decides [OF wf(1) wf(3)] nodes entries
    by (simp add: psubset_eq)
qed

end
