(* ===== verification/Connection_Pool.thy ===== *)
theory Connection_Pool
  imports Node_Server
begin

text \<open>
  Concurrent calls of \<^verbatim>\<open>ServerHandle::get_connection\<close>.  Every send runs in a task of its own, so
  several tasks ask for a connection to the same node at the same time.  The function checks
  the cache, takes a lock of the node's own, checks the cache again and only then connects.
  Here each await point of the function is a phase of its task, and the tasks interleave
  with each other, with the reverse connections that \<^verbatim>\<open>handle_connection\<close> stores and with the
  removals of \<^verbatim>\<open>notify_self_disconnect\<close>, neither of which takes the lock.

  \<^verbatim>\<open>Node_Server.get_connection\<close> is the same function run without interruption; the refinement
  theorem at the end relates the two.
\<close>

section \<open>Tasks\<close>

datatype 'c phase =
    Checking
  | Waiting
  | Rechecking
  | Connecting
  | Returned "server_error + 'c"

record ('a, 'k, 'c) conn_task =
  t_node :: "('a, 'k) node_id"
  t_phase :: "'c phase"

text \<open>
  The cache and the locks of the handle, the tasks, and the connections for which a task
  spawned \<^verbatim>\<open>handle_connection\<close>.  A lock that was created holds the task inside it, if any.
\<close>

record ('a, 'k, 'c) pool =
  cache :: "'k \<rightharpoonup> 'c"
  connection_locks :: "'k \<rightharpoonup> nat option"
  conn_tasks :: "('a, 'k, 'c) conn_task list"
  opened :: "('k \<times> 'c) list"

definition set_phase :: "nat \<Rightarrow> 'c phase \<Rightarrow> ('a, 'k, 'c) pool \<Rightarrow> ('a, 'k, 'c) pool" where
  "set_phase i ph p = p\<lparr>conn_tasks := (conn_tasks p)[i := (conn_tasks p ! i)\<lparr>t_phase := ph\<rparr>]\<rparr>"

text \<open>Leaving the function drops the guard.\<close>

definition unlock :: "'k \<Rightarrow> ('a, 'k, 'c) pool \<Rightarrow> ('a, 'k, 'c) pool" where
  "unlock k p = p\<lparr>connection_locks := (connection_locks p)(k \<mapsto> None)\<rparr>"

text \<open>
  The next step of a task; nothing when it has returned or waits for a lock that is held.  The
  network is an argument of the step: what it does may differ from step to step.
\<close>

definition task_step ::
  "('a, 'k, 'p, 'c) network \<Rightarrow> nat \<Rightarrow> ('a, 'k, 'c) pool \<Rightarrow> ('a, 'k, 'c) pool option" where
  "task_step net i p =
     (let t = conn_tasks p ! i; k = local_id (t_node t) in
      case t_phase t of
        Checking \<Rightarrow>
          (case cache p k of
             Some c \<Rightarrow> Some (set_phase i (Returned (Inr c)) p)
           | None \<Rightarrow>
               Some (set_phase i Waiting
                 (if connection_locks p k = None
                  then p\<lparr>connection_locks := (connection_locks p)(k \<mapsto> None)\<rparr> else p)))
      | Waiting \<Rightarrow>
          (if connection_locks p k = Some None
           then Some (set_phase i Rechecking (p\<lparr>connection_locks := (connection_locks p)(k \<mapsto> Some i)\<rparr>))
           else None)
      | Rechecking \<Rightarrow>
          (case cache p k of
             Some c \<Rightarrow> Some (set_phase i (Returned (Inr c)) (unlock k p))
           | None \<Rightarrow> Some (set_phase i Connecting p))
      | Connecting \<Rightarrow>
          (case connect_first net k (addresses (t_node t)) of
             Inl e \<Rightarrow> Some (set_phase i (Returned (Inl e)) (unlock k p))
           | Inr c \<Rightarrow>
               Some (set_phase i (Returned (Inr c))
                 (unlock k (p\<lparr>cache := (cache p)(k \<mapsto> c), opened := opened p @ [(k, c)]\<rparr>))))
      | Returned r \<Rightarrow> None)"

text \<open>
  What happens to the pool: a call, a step of a task under some behaviour of the network, a
  reverse connection, a removal.
\<close>

datatype ('a, 'k, 'p, 'c) pool_event =
    Call "('a, 'k) node_id"
  | Run nat "('a, 'k, 'p, 'c) network"
  | Inbound 'k 'c
  | Removal 'k

inductive pool_step ::
  "('a, 'k, 'c) pool \<Rightarrow> ('a, 'k, 'p, 'c) pool_event \<Rightarrow> ('a, 'k, 'c) pool \<Rightarrow> bool" where
  call: "pool_step p (Call n) (p\<lparr>conn_tasks := conn_tasks p @ [\<lparr>t_node = n, t_phase = Checking\<rparr>]\<rparr>)"
| run: "i < length (conn_tasks p) \<Longrightarrow> task_step net i p = Some p' \<Longrightarrow> pool_step p (Run i net) p'"
| inbound: "pool_step p (Inbound k c) (p\<lparr>cache := (cache p)(k \<mapsto> c)\<rparr>)"
| removal: "pool_step p (Removal k) (p\<lparr>cache := (cache p)(k := None)\<rparr>)"

inductive_cases pool_step_cases [elim!]: "pool_step p e p'"

inductive pool_run ::
  "('a, 'k, 'c) pool \<Rightarrow> ('a, 'k, 'p, 'c) pool_event list \<Rightarrow> ('a, 'k, 'c) pool \<Rightarrow> bool" where
  nil: "pool_run p [] p"
| snoc: "pool_run p es p' \<Longrightarrow> pool_step p' e p'' \<Longrightarrow> pool_run p (es @ [e]) p''"

definition pool_new :: "('a, 'k, 'c) pool" where
  "pool_new = \<lparr>cache = Map.empty, connection_locks = Map.empty, conn_tasks = [], opened = []\<rparr>"

section \<open>The lock\<close>

abbreviation task_key :: "('a, 'k, 'c) pool \<Rightarrow> nat \<Rightarrow> 'k" where
  "task_key p i \<equiv> local_id (t_node (conn_tasks p ! i))"

abbreviation task_phase :: "('a, 'k, 'c) pool \<Rightarrow> nat \<Rightarrow> 'c phase" where
  "task_phase p i \<equiv> t_phase (conn_tasks p ! i)"

definition in_lock :: "'c phase \<Rightarrow> bool" where
  "in_lock ph \<longleftrightarrow> ph = Rechecking \<or> ph = Connecting"

definition lock_inv :: "('a, 'k, 'c) pool \<Rightarrow> bool" where
  "lock_inv p \<longleftrightarrow>
     (\<forall>i < length (conn_tasks p).
        (task_phase p i = Waiting \<longrightarrow> connection_locks p (task_key p i) \<noteq> None) \<and>
        (in_lock (task_phase p i) \<longrightarrow> connection_locks p (task_key p i) = Some (Some i)))"

definition held_inv :: "('a, 'k, 'c) pool \<Rightarrow> bool" where
  "held_inv p \<longleftrightarrow>
     (\<forall>k i. connection_locks p k = Some (Some i) \<longrightarrow>
        i < length (conn_tasks p) \<and> in_lock (task_phase p i) \<and> task_key p i = k)"

lemma set_phase_simps [simp]:
  "cache (set_phase i ph p) = cache p" "connection_locks (set_phase i ph p) = connection_locks p"
  "opened (set_phase i ph p) = opened p" "length (conn_tasks (set_phase i ph p)) = length (conn_tasks p)"
  "i < length (conn_tasks p) \<Longrightarrow> j < length (conn_tasks p) \<Longrightarrow>
     t_node (conn_tasks (set_phase i ph p) ! j) = t_node (conn_tasks p ! j)"
  "i < length (conn_tasks p) \<Longrightarrow> j < length (conn_tasks p) \<Longrightarrow>
     t_phase (conn_tasks (set_phase i ph p) ! j) = (if j = i then ph else task_phase p j)"
  by (auto simp: set_phase_def nth_list_update)

lemma unlock_simps [simp]:
  "cache (unlock k p) = cache p" "conn_tasks (unlock k p) = conn_tasks p" "opened (unlock k p) = opened p"
  "connection_locks (unlock k p) = (connection_locks p)(k \<mapsto> None)"
  by (simp_all add: unlock_def)

lemma set_phase_update [simp]:
  "conn_tasks (set_phase i ph (p\<lparr>connection_locks := l\<rparr>)) = conn_tasks (set_phase i ph p)"
  "conn_tasks (set_phase i ph (p\<lparr>cache := h, opened := q\<rparr>)) = conn_tasks (set_phase i ph p)"
  "conn_tasks (set_phase i ph (unlock k p)) = conn_tasks (set_phase i ph p)"
  by (simp_all add: set_phase_def)

text \<open>The steps of a task, by the phase it is in.\<close>

lemma task_step_elim [consumes 1, case_names hit miss lock rehit remiss failed connected]:
  assumes "task_step net i p = Some p'"
  obtains c where "task_phase p i = Checking" "cache p (task_key p i) = Some c"
      "p' = set_phase i (Returned (Inr c)) p"
  | "task_phase p i = Checking" "cache p (task_key p i) = None"
      "p' = set_phase i Waiting (if connection_locks p (task_key p i) = None
         then p\<lparr>connection_locks := (connection_locks p)(task_key p i \<mapsto> None)\<rparr> else p)"
  | "task_phase p i = Waiting" "connection_locks p (task_key p i) = Some None"
      "p' = set_phase i Rechecking (p\<lparr>connection_locks := (connection_locks p)(task_key p i \<mapsto> Some i)\<rparr>)"
  | c where "task_phase p i = Rechecking" "cache p (task_key p i) = Some c"
      "p' = set_phase i (Returned (Inr c)) (unlock (task_key p i) p)"
  | "task_phase p i = Rechecking" "cache p (task_key p i) = None" "p' = set_phase i Connecting p"
  | e where "task_phase p i = Connecting" "p' = set_phase i (Returned (Inl e)) (unlock (task_key p i) p)"
  | c where "task_phase p i = Connecting"
      "connect_first net (task_key p i) (addresses (t_node (conn_tasks p ! i))) = Inr c"
      "p' = set_phase i (Returned (Inr c))
         (unlock (task_key p i) (p\<lparr>cache := (cache p)(task_key p i \<mapsto> c), opened := opened p @ [(task_key p i, c)]\<rparr>))"
  using assms by (auto simp: task_step_def Let_def split: phase.splits option.splits sum.splits if_splits)

lemma lock_invD:
  assumes "lock_inv p" "i < length (conn_tasks p)"
  shows "task_phase p i = Waiting \<Longrightarrow> connection_locks p (task_key p i) \<noteq> None"
    and "in_lock (task_phase p i) \<Longrightarrow> connection_locks p (task_key p i) = Some (Some i)"
  using assms unfolding lock_inv_def by blast+

lemma held_invD:
  "held_inv p \<Longrightarrow> connection_locks p k = Some (Some i) \<Longrightarrow>
     i < length (conn_tasks p) \<and> in_lock (task_phase p i) \<and> task_key p i = k"
  unfolding held_inv_def by blast

text \<open>
  A step changes the phase of its own task and the lock of its own node, and takes the lock
  from nobody else.
\<close>

definition lock_move :: "nat \<Rightarrow> ('a, 'k, 'c) pool \<Rightarrow> ('a, 'k, 'c) pool \<Rightarrow> bool" where
  "lock_move i p p' \<longleftrightarrow>
     (\<exists>ph. conn_tasks p' = conn_tasks (set_phase i ph p) \<and>
       (\<forall>k. k \<noteq> task_key p i \<longrightarrow> connection_locks p' k = connection_locks p k) \<and>
       (let l = connection_locks p (task_key p i); l' = connection_locks p' (task_key p i) in
          (ph = Waiting \<or> l \<noteq> None \<longrightarrow> l' \<noteq> None) \<and>
          (if in_lock ph then l' = Some (Some i) \<and> (l = l' \<or> l = Some None)
           else if in_lock (task_phase p i) then l' = Some None
           else l' = l \<or> l = None \<and> l' = Some None)))"

lemma task_step_move:
  "task_step net i p = Some p' \<Longrightarrow> i < length (conn_tasks p) \<Longrightarrow> lock_inv p \<Longrightarrow> lock_move i p p'"
  by (erule task_step_elim)
    (auto simp: lock_move_def in_lock_def Let_def dest: lock_invD(2) intro: exI [of _ "Waiting"]
      exI [of _ "Rechecking"] exI [of _ "Connecting"] exI [of _ "Returned _"])

lemma lock_moveE:
  assumes "lock_move i p p'"
  obtains ph where "conn_tasks p' = conn_tasks (set_phase i ph p)"
    "\<forall>k. k \<noteq> task_key p i \<longrightarrow> connection_locks p' k = connection_locks p k"
    "ph = Waiting \<or> connection_locks p (task_key p i) \<noteq> None \<longrightarrow> connection_locks p' (task_key p i) \<noteq> None"
    "if in_lock ph then connection_locks p' (task_key p i) = Some (Some i) \<and>
        (connection_locks p (task_key p i) = connection_locks p' (task_key p i) \<or> connection_locks p (task_key p i) = Some None)
      else if in_lock (task_phase p i) then connection_locks p' (task_key p i) = Some None
      else connection_locks p' (task_key p i) = connection_locks p (task_key p i) \<or>
        connection_locks p (task_key p i) = None \<and> connection_locks p' (task_key p i) = Some None"
  using assms unfolding lock_move_def Let_def by blast

lemma lock_move_lock_inv:
  assumes "lock_move i p p'" and i: "i < length (conn_tasks p)" and inv: "lock_inv p"
  shows "lock_inv p'"
proof -
  from assms(1) obtain ph where tasks: "conn_tasks p' = conn_tasks (set_phase i ph p)"
    and other: "\<forall>k. k \<noteq> task_key p i \<longrightarrow> connection_locks p' k = connection_locks p k"
    and wait: "ph = Waiting \<or> connection_locks p (task_key p i) \<noteq> None \<longrightarrow> connection_locks p' (task_key p i) \<noteq> None"
    and own: "if in_lock ph then connection_locks p' (task_key p i) = Some (Some i) \<and>
        (connection_locks p (task_key p i) = connection_locks p' (task_key p i) \<or> connection_locks p (task_key p i) = Some None)
      else if in_lock (task_phase p i) then connection_locks p' (task_key p i) = Some None
      else connection_locks p' (task_key p i) = connection_locks p (task_key p i) \<or>
        connection_locks p (task_key p i) = None \<and> connection_locks p' (task_key p i) = Some None"
    by (rule lock_moveE)
  have "(task_phase p' j = Waiting \<longrightarrow> connection_locks p' (task_key p' j) \<noteq> None) \<and>
      (in_lock (task_phase p' j) \<longrightarrow> connection_locks p' (task_key p' j) = Some (Some j))"
    if "j < length (conn_tasks p')" for j
  proof (cases "j = i")
    case True
    then show ?thesis using wait own i by (simp add: tasks)
  next
    case False
    have j: "j < length (conn_tasks p)" using that by (simp add: tasks)
    note old = lock_invD [OF inv j]
    show ?thesis
    proof (cases "task_key p j = task_key p i")
      case True
      have "in_lock (task_phase p j) \<Longrightarrow> connection_locks p' (task_key p i) = Some (Some j)"
        using old(2) own lock_invD(2) [OF inv i] True False by (auto split: if_splits)
      then show ?thesis using old(1) wait True False i j by (simp add: tasks)
    qed (use old other False i j in \<open>simp add: tasks\<close>)
  qed
  then show ?thesis by (simp add: lock_inv_def)
qed

lemma lock_move_held_inv:
  assumes "lock_move i p p'" and i: "i < length (conn_tasks p)" and inv: "lock_inv p" "held_inv p"
  shows "held_inv p'"
  unfolding held_inv_def
proof (intro allI impI)
  fix k j
  assume held: "connection_locks p' k = Some (Some j)"
  from assms(1) obtain ph where tasks: "conn_tasks p' = conn_tasks (set_phase i ph p)"
    and other: "\<forall>k. k \<noteq> task_key p i \<longrightarrow> connection_locks p' k = connection_locks p k"
    and own: "if in_lock ph then connection_locks p' (task_key p i) = Some (Some i) \<and>
        (connection_locks p (task_key p i) = connection_locks p' (task_key p i) \<or> connection_locks p (task_key p i) = Some None)
      else if in_lock (task_phase p i) then connection_locks p' (task_key p i) = Some None
      else connection_locks p' (task_key p i) = connection_locks p (task_key p i) \<or>
        connection_locks p (task_key p i) = None \<and> connection_locks p' (task_key p i) = Some None"
    by (rule lock_moveE)
  show "j < length (conn_tasks p') \<and> in_lock (task_phase p' j) \<and> task_key p' j = k"
  proof (cases "k = task_key p i \<and> in_lock ph")
    case True
    then show ?thesis using own held i by (simp add: tasks)
  next
    case False
    then have "connection_locks p k = Some (Some j)" and free: "k = task_key p i \<Longrightarrow> \<not> in_lock (task_phase p i)"
      using held own other by (cases "k = task_key p i"; force split: if_splits)+
    then have j: "j < length (conn_tasks p)" "in_lock (task_phase p j)" "task_key p j = k"
      using held_invD [OF inv(2)] by blast+
    then have "j \<noteq> i" using free by auto
    then show ?thesis using j i by (simp add: tasks)
  qed
qed

lemma task_step_inv:
  assumes "task_step net i p = Some p'" "i < length (conn_tasks p)" "lock_inv p"
  shows "lock_inv p' \<and> (held_inv p \<longrightarrow> held_inv p')"
  using task_step_move [OF assms] lock_move_lock_inv lock_move_held_inv assms(2,3) by blast

lemma pool_step_inv:
  assumes "pool_step p e p'" "lock_inv p" "held_inv p"
  shows "lock_inv p' \<and> held_inv p'"
  using assms
proof (induction rule: pool_step.induct)
  case (call p n)
  let ?ts = "conn_tasks p @ [\<lparr>t_node = n, t_phase = Checking\<rparr>]"
  have "lock_inv (p\<lparr>conn_tasks := ?ts\<rparr>)"
    using call(1) by (simp add: lock_inv_def nth_append in_lock_def All_less_Suc)
  moreover have "held_inv (p\<lparr>conn_tasks := ?ts\<rparr>)"
    unfolding held_inv_def
  proof (intro allI impI)
    fix k i
    assume "connection_locks (p\<lparr>conn_tasks := ?ts\<rparr>) k = Some (Some i)"
    then have "connection_locks p k = Some (Some i)" by simp
    from held_invD [OF call(2) this]
    show "i < length (conn_tasks (p\<lparr>conn_tasks := ?ts\<rparr>)) \<and> in_lock (task_phase (p\<lparr>conn_tasks := ?ts\<rparr>) i) \<and>
        task_key (p\<lparr>conn_tasks := ?ts\<rparr>) i = k" by (simp add: nth_append)
  qed
  ultimately show ?case by blast
next
  case (run i p net p')
  then show ?case using task_step_inv by blast
next
  case (inbound p k c)
  then show ?case unfolding lock_inv_def held_inv_def by simp
next
  case (removal p k)
  then show ?case unfolding lock_inv_def held_inv_def by simp
qed

lemma lock_inv_excludes:
  assumes "lock_inv p" "i < length (conn_tasks p)" "j < length (conn_tasks p)"
    "task_key p i = task_key p j" "in_lock (task_phase p i)" "in_lock (task_phase p j)"
  shows "i = j"
  using lock_invD(2) [OF assms(1,2,5)] lock_invD(2) [OF assms(1,3,6)] assms(4) by (metis option.inject)

section \<open>How many connections\<close>

definition opened_to :: "'k \<Rightarrow> ('a, 'k, 'c) pool \<Rightarrow> nat" where
  "opened_to k p = length (filter (\<lambda>(k', c). k' = k) (opened p))"

definition connecting_to :: "'k \<Rightarrow> ('a, 'k, 'c) pool \<Rightarrow> bool" where
  "connecting_to k p \<longleftrightarrow> (\<exists>i < length (conn_tasks p). task_key p i = k \<and> task_phase p i = Connecting)"

definition removals :: "'k \<Rightarrow> ('a, 'k, 'p, 'c) pool_event list \<Rightarrow> nat" where
  "removals k es = length (filter (\<lambda>e. case e of Removal k' \<Rightarrow> k' = k | _ \<Rightarrow> False) es)"

text \<open>Before a connection is opened another removal has made room for it.\<close>

definition count_inv :: "'k \<Rightarrow> nat \<Rightarrow> ('a, 'k, 'c) pool \<Rightarrow> bool" where
  "count_inv k r p \<longleftrightarrow>
     opened_to k p \<le> r + (if cache p k \<noteq> None \<and> \<not> connecting_to k p then 1 else 0)"

lemma connecting_set_phase:
  assumes "i < length (conn_tasks p)"
  shows "connecting_to k (set_phase i ph p) \<longleftrightarrow>
    task_key p i = k \<and> ph = Connecting \<or>
    (\<exists>j < length (conn_tasks p). j \<noteq> i \<and> task_key p j = k \<and> task_phase p j = Connecting)"
  using assms by (auto simp: connecting_to_def split: if_splits)

lemma connecting_split:
  assumes "i < length (conn_tasks p)"
  shows "connecting_to k p \<longleftrightarrow> task_key p i = k \<and> task_phase p i = Connecting \<or>
    (\<exists>j < length (conn_tasks p). j \<noteq> i \<and> task_key p j = k \<and> task_phase p j = Connecting)"
  using assms by (auto simp: connecting_to_def)

lemma connecting_tasks: "conn_tasks p = conn_tasks q \<Longrightarrow> connecting_to k p = connecting_to k q"
  by (simp add: connecting_to_def)

lemma task_step_count_inv:
  assumes step: "task_step net i p = Some p'" and i: "i < length (conn_tasks p)"
    and inv: "lock_inv p" "count_inv k r p"
  shows "count_inv k r p'"
proof -
  have alone: "connecting_to (task_key p i) (set_phase i ph p) \<longleftrightarrow> ph = Connecting"
    if "in_lock (task_phase p i)" for ph
    using lock_inv_excludes [OF inv(1) i] that unfolding connecting_set_phase [OF i] in_lock_def
    by metis
  have other: "connecting_to k (set_phase i ph p) \<longleftrightarrow> connecting_to k p"
    if "task_key p i \<noteq> k \<or> task_phase p i \<noteq> Connecting \<and> ph \<noteq> Connecting" for ph
    using that unfolding connecting_set_phase [OF i] connecting_split [OF i] by blast
  have now: "connecting_to (task_key p i) p" if "task_phase p i = Connecting"
    using that i by (auto simp: connecting_to_def)
  note shape = connecting_tasks [OF set_phase_update(1)] connecting_tasks [OF set_phase_update(2)]
    connecting_tasks [OF set_phase_update(3)]
  from step show ?thesis
  proof (cases rule: task_step_elim)
    case (hit c)
    then show ?thesis using inv(2) by (simp add: count_inv_def opened_to_def other)
  next
    case miss
    then show ?thesis using inv(2)
      by (cases "connection_locks p (task_key p i)") (simp_all add: count_inv_def opened_to_def other shape)
  next
    case lock
    then show ?thesis using inv(2) by (simp add: count_inv_def opened_to_def other shape)
  next
    case (rehit c)
    then show ?thesis using inv(2) by (simp add: count_inv_def opened_to_def other shape)
  next
    case remiss
    then show ?thesis using inv(2)
      by (cases "task_key p i = k") (simp_all add: count_inv_def opened_to_def other)
  next
    case (failed e)
    then show ?thesis using inv(2) now
      by (cases "task_key p i = k") (auto simp: count_inv_def opened_to_def other shape split: if_splits)
  next
    case (connected c)
    then show ?thesis using inv(2) now
      by (cases "task_key p i = k")
        (auto simp: count_inv_def opened_to_def other shape alone in_lock_def split: if_splits)
  qed
qed

lemma pool_step_count_inv:
  assumes "pool_step p e p'" "lock_inv p" "count_inv k r p"
  shows "count_inv k (r + removals k [e]) p'"
  using assms
proof (induction rule: pool_step.induct)
  case (call p n)
  have "connecting_to k (p\<lparr>conn_tasks := conn_tasks p @ [\<lparr>t_node = n, t_phase = Checking\<rparr>]\<rparr>) = connecting_to k p"
    by (auto simp: connecting_to_def nth_append less_Suc_eq)
  then show ?case using call by (simp add: count_inv_def opened_to_def removals_def)
next
  case (run i p net p')
  then show ?case using task_step_count_inv by (simp add: removals_def)
next
  case (inbound p k' c)
  then show ?case by (auto simp: count_inv_def opened_to_def removals_def connecting_to_def split: if_splits)
next
  case (removal p k')
  then show ?case by (auto simp: count_inv_def opened_to_def removals_def connecting_to_def split: if_splits)
qed

lemma pool_run_inv:
  "pool_run p es p' \<Longrightarrow> p = pool_new \<Longrightarrow> lock_inv p' \<and> held_inv p' \<and> count_inv k (removals k es) p'"
proof (induction rule: pool_run.induct)
  case (nil p)
  then show ?case
    by (simp add: pool_new_def lock_inv_def held_inv_def count_inv_def opened_to_def)
next
  case (snoc p es p' e p'')
  then have inv: "lock_inv p'" "held_inv p'" "count_inv k (removals k es) p'" by blast+
  have "removals k (es @ [e]) = removals k es + removals k [e]" by (simp add: removals_def)
  then show ?case
    using pool_step_inv [OF snoc(2) inv(1,2)] pool_step_count_inv [OF snoc(2) inv(1,3)] by simp
qed

text \<open>
  C20. The double-checked lock works, whatever calls, replies of the network, reverse connections
  and removals come in whatever order: at most one task at a time is connecting to a node, and
  the tasks open at most one connection to it more than connections to it were removed.
\<close>

theorem one_connection_per_node:
  assumes "pool_run pool_new es p"
  shows "(\<forall>i < length (conn_tasks p). \<forall>j < length (conn_tasks p).
      task_phase p i = Connecting \<longrightarrow> task_phase p j = Connecting \<longrightarrow> task_key p i = task_key p j \<longrightarrow> i = j) \<and>
    (\<forall>k. opened_to k p \<le> removals k es + 1)"
proof (intro conjI allI impI)
  fix i j
  assume "i < length (conn_tasks p)" "j < length (conn_tasks p)" "task_phase p i = Connecting"
    "task_phase p j = Connecting" "task_key p i = task_key p j"
  then show "i = j"
    using lock_inv_excludes [of p i j] pool_run_inv [OF assms refl] by (simp add: in_lock_def)
next
  fix k
  have "count_inv k (removals k es) p" using pool_run_inv [OF assms refl] by blast
  then show "opened_to k p \<le> removals k es + 1" by (simp add: count_inv_def split: if_splits)
qed

definition good_network :: "(nat, nat, string, nat) network" where
  "good_network = \<lparr>net_encodes = (\<lambda>_. True), net_connect = (\<lambda>a _. Connected a), net_transmit = (\<lambda>_ _. True)\<rparr>"

text \<open>Two calls for the same node: the second waits for the lock and finds the cached connection.\<close>

definition two_calls :: "(nat, nat, string, nat) pool_event list" where
  "two_calls = [Call \<lparr>addresses = [7], local_id = 1\<rparr>, Call \<lparr>addresses = [8], local_id = 1\<rparr>,
     Run 0 good_network, Run 1 good_network, Run 0 good_network, Run 0 good_network, Run 0 good_network,
     Run 1 good_network, Run 1 good_network]"

definition two_calls_pool :: "(nat, nat, nat) pool" where
  "two_calls_pool = \<lparr>cache = [1 \<mapsto> 7], connection_locks = [1 \<mapsto> None],
     conn_tasks = [\<lparr>t_node = \<lparr>addresses = [7], local_id = 1\<rparr>, t_phase = Returned (Inr 7)\<rparr>,
       \<lparr>t_node = \<lparr>addresses = [8], local_id = 1\<rparr>, t_phase = Returned (Inr 7)\<rparr>], opened = [(1, 7)]\<rparr>"

fun run_events ::
  "('a, 'k, 'p, 'c) pool_event list \<Rightarrow> ('a, 'k, 'c) pool \<Rightarrow> ('a, 'k, 'c) pool option" where
  "run_events [] p = Some p"
| "run_events (Call n # es) p = run_events es (p\<lparr>conn_tasks := conn_tasks p @ [\<lparr>t_node = n, t_phase = Checking\<rparr>]\<rparr>)"
| "run_events (Run i net # es) p =
     (if i < length (conn_tasks p) then Option.bind (task_step net i p) (run_events es) else None)"
| "run_events (Inbound k c # es) p = run_events es (p\<lparr>cache := (cache p)(k \<mapsto> c)\<rparr>)"
| "run_events (Removal k # es) p = run_events es (p\<lparr>cache := (cache p)(k := None)\<rparr>)"

lemma run_events_run:
  "run_events es p = Some p' \<Longrightarrow> pool_run p0 es0 p \<Longrightarrow> pool_run p0 (es0 @ es) p'"
proof (induction es p arbitrary: es0 rule: run_events.induct)
  case (2 n es p)
  then show ?case using pool_run.snoc [OF "2.prems"(2) pool_step.call] by fastforce
next
  case (3 i net es p)
  then obtain q where q: "i < length (conn_tasks p)" "task_step net i p = Some q" "run_events es q = Some p'"
    by (auto split: if_splits Option.bind_splits)
  then show ?case using "3.IH" pool_run.snoc [OF "3.prems"(2) pool_step.run [OF q(1,2)]] by fastforce
next
  case (4 k c es p)
  then show ?case using pool_run.snoc [OF "4.prems"(2) pool_step.inbound] by fastforce
next
  case (5 k es p)
  then show ?case using pool_run.snoc [OF "5.prems"(2) pool_step.removal] by fastforce
qed simp

lemma two_calls_run: "pool_run pool_new two_calls two_calls_pool"
proof -
  have "run_events two_calls pool_new = Some two_calls_pool"
    by (simp add: two_calls_def pool_new_def two_calls_pool_def task_step_def set_phase_def unlock_def good_network_def)
  from run_events_run [OF this pool_run.nil] show ?thesis by simp
qed

theorem one_connection_per_node_witness:
  "pool_run pool_new two_calls two_calls_pool \<and> opened_to 1 two_calls_pool \<le> 1"
  using one_connection_per_node [OF two_calls_run] two_calls_run
  by (auto simp: two_calls_def removals_def dest: spec [of _ 1])

section \<open>Progress\<close>

lemma task_step_None:
  "task_step net i p = None \<longleftrightarrow> (\<exists>r. task_phase p i = Returned r) \<or>
     task_phase p i = Waiting \<and> connection_locks p (task_key p i) \<noteq> Some None"
  by (cases "task_phase p i") (simp_all add: task_step_def Let_def split: option.split sum.split)

fun rank :: "'c phase \<Rightarrow> nat" where
  "rank Checking = 4"
| "rank Waiting = 3"
| "rank Rechecking = 2"
| "rank Connecting = 1"
| "rank (Returned r) = 0"

definition work :: "('a, 'k, 'c) pool \<Rightarrow> nat" where
  "work p = sum_list (map (rank \<circ> t_phase) (conn_tasks p))"

lemma work_set_phase:
  assumes "i < length (conn_tasks p)" "rank ph < rank (task_phase p i)"
  shows "work (set_phase i ph p) < work p"
proof -
  have "\<And>xs :: nat list. \<And>j v. j < length xs \<Longrightarrow> v < xs ! j \<Longrightarrow> sum_list (xs[j := v]) < sum_list xs"
    by (subst sum_list_update) (auto simp: member_le_sum_list less_imp_le intro: diff_less add_less_le_mono
        dest: elem_le_sum_list)
  then show ?thesis using assms
    by (simp add: work_def set_phase_def map_update)
qed

lemma work_bound: "work (p :: ('a, 'b, 'c) pool) \<le> 4 * length (conn_tasks p)"
proof -
  have "rank ph \<le> 4" for ph :: "'c phase" by (cases ph) simp_all
  then have "sum_list (map (rank \<circ> t_phase) ts) \<le> 4 * length ts" for ts :: "('a, 'b, 'c) conn_task list"
    by (induction ts) (auto simp: add_mono)
  then show ?thesis by (simp add: work_def)
qed

lemma work_tasks: "conn_tasks p = conn_tasks q \<Longrightarrow> work p = work q"
  by (simp add: work_def)

lemma task_step_work:
  assumes "task_step net i p = Some p'" "i < length (conn_tasks p)"
  shows "work p' < work p"
proof -
  note shape = work_tasks [OF set_phase_update(1)] work_tasks [OF set_phase_update(2)]
    work_tasks [OF set_phase_update(3)]
  show ?thesis using assms(1)
    by (cases rule: task_step_elim) (use assms(2) in \<open>simp_all add: shape work_set_phase\<close>)
qed

lemma task_step_rank:
  assumes "task_step net i p = Some p'" "i < length (conn_tasks p)"
  shows "length (conn_tasks p') = length (conn_tasks p) \<and> rank (task_phase p' i) < rank (task_phase p i) \<and>
    (\<forall>j. j \<noteq> i \<longrightarrow> conn_tasks p' ! j = conn_tasks p ! j)"
proof -
  have other: "conn_tasks (set_phase i ph p) ! j = conn_tasks p ! j" if "j \<noteq> i" for ph j
    using that by (simp add: set_phase_def)
  show ?thesis using assms(1)
    by (cases rule: task_step_elim) (use assms(2) in \<open>simp_all add: other\<close>)
qed

text \<open>How often a task was run.\<close>

definition runs_of :: "nat \<Rightarrow> ('a, 'k, 'p, 'c) pool_event list \<Rightarrow> nat" where
  "runs_of i es = length (filter (\<lambda>e. case e of Run j net \<Rightarrow> j = i | _ \<Rightarrow> False) es)"

lemma runs_of_simps [simp]:
  "runs_of i [] = 0" "runs_of i (es @ es') = runs_of i es + runs_of i es'"
  "runs_of i [Call n] = 0" "runs_of i [Run j net] = (if j = i then 1 else 0)" "runs_of i [Inbound k c] = 0"
  "runs_of i [Removal k] = 0"
  by (simp_all add: runs_of_def)

definition runs_inv :: "('a, 'k, 'p, 'c) pool_event list \<Rightarrow> ('a, 'k, 'c) pool \<Rightarrow> bool" where
  "runs_inv es p \<longleftrightarrow>
     (\<forall>i < length (conn_tasks p). runs_of i es + rank (task_phase p i) \<le> 4) \<and>
     (\<forall>i \<ge> length (conn_tasks p). runs_of i es = 0)"

lemma pool_run_runs: "pool_run p es p' \<Longrightarrow> p = pool_new \<Longrightarrow> runs_inv es p'"
proof (induction rule: pool_run.induct)
  case (nil p)
  then show ?case by (simp add: runs_inv_def pool_new_def)
next
  case (snoc p es p' e p'')
  then have inv: "runs_inv es p'" by blast
  from snoc(2) show ?case
  proof (cases rule: pool_step.cases)
    case (call n)
    then show ?thesis using inv by (auto simp: runs_inv_def nth_append less_Suc_eq)
  next
    case (run i net)
    note rank = task_step_rank [OF run(3,2)]
    have "runs_of j (es @ [e]) + rank (task_phase p'' j) \<le> 4" if "j < length (conn_tasks p')" for j
    proof -
      have "runs_of j es + rank (task_phase p' j) \<le> 4" using inv that by (simp add: runs_inv_def)
      then show ?thesis using rank run(1) by (cases "j = i") simp_all
    qed
    moreover have "runs_of j (es @ [e]) = 0" if "j \<ge> length (conn_tasks p')" for j
      using inv that run(1,2) by (simp add: runs_inv_def)
    ultimately show ?thesis using rank by (simp add: runs_inv_def)
  qed (use inv in \<open>simp_all add: runs_inv_def\<close>)
qed

text \<open>A task that cannot take its next step waits for the lock that another one holds, and that one can.\<close>

lemma someone_runs:
  assumes inv: "lock_inv p" "held_inv p" and i: "i < length (conn_tasks p)" "\<nexists>r. task_phase p i = Returned r"
  shows "\<exists>j < length (conn_tasks p). task_key p j = task_key p i \<and>
    (j = i \<or> task_phase p i = Waiting \<and> in_lock (task_phase p j)) \<and> (\<forall>net. task_step net j p \<noteq> None)"
proof (cases "task_phase p i = Waiting \<and> connection_locks p (task_key p i) \<noteq> Some None")
  case True
  then obtain j where held: "connection_locks p (task_key p i) = Some (Some j)"
    using lock_invD(1) [OF inv(1) i(1)] by (metis not_None_eq)
  from held_invD [OF inv(2) held]
  have j: "j < length (conn_tasks p)" "in_lock (task_phase p j)" "task_key p j = task_key p i" by blast+
  then have "\<forall>net. task_step net j p \<noteq> None" by (auto simp: task_step_None in_lock_def)
  then show ?thesis using j True by blast
next
  case False
  then have "\<forall>net. task_step net i p \<noteq> None" using i(2) by (simp add: task_step_None)
  then show ?thesis using i(1) by blast
qed

lemma all_return:
  assumes "pool_run p0 es p" "lock_inv p" "held_inv p"
  shows "\<exists>es' p'. length es' \<le> work p \<and> (\<forall>e \<in> set es'. \<exists>i. e = Run i net) \<and> pool_run p0 (es @ es') p' \<and>
    length (conn_tasks p') = length (conn_tasks p) \<and>
    (\<forall>i < length (conn_tasks p'). \<exists>r. task_phase p' i = Returned r)"
  using assms
proof (induction "work p" arbitrary: p es rule: less_induct)
  case less
  show ?case
  proof (cases "\<forall>i < length (conn_tasks p). \<exists>r. task_phase p i = Returned r")
    case True
    then show ?thesis using less.prems(1) by (intro exI [of _ "[]"] exI [of _ p]) simp
  next
    case False
    then obtain j q where j: "j < length (conn_tasks p)" "task_step net j p = Some q"
      using someone_runs [OF less.prems(2,3)] by (metis option.exhaust)
    have less_work: "work q < work p" by (rule task_step_work [OF j(2,1)])
    have run: "pool_run p0 (es @ [Run j net]) q"
      by (rule pool_run.snoc [OF less.prems(1) pool_step.run [OF j]])
    have inv: "lock_inv q" "held_inv q" using task_step_inv [OF j(2,1) less.prems(2)] less.prems(3) by blast+
    from less.hyps [OF less_work run inv] obtain es' p' where *: "length es' \<le> work q"
      "\<forall>e \<in> set es'. \<exists>i. e = Run i net" "pool_run p0 ((es @ [Run j net]) @ es') p'"
      "length (conn_tasks p') = length (conn_tasks q)"
      "\<forall>i < length (conn_tasks p'). \<exists>r. task_phase p' i = Returned r" by blast
    then show ?thesis using less_work task_step_rank [OF j(2,1)]
      by (intro exI [of _ "Run j net # es'"] exI [of _ p']) auto
  qed
qed

text \<open>
  C21. No call waits forever.  However the calls interleave and whatever the network does, the
  task of a call runs at most four times, and after the fourth it has returned.  A call that
  has not returned can take its next step, or it waits for the lock of its node and the task
  inside that lock can take its next step.  So running the tasks, in no more steps than four
  for each, brings every call to its return.
\<close>

theorem get_connection_calls_return:
  assumes "pool_run pool_new es p"
  shows "(\<forall>i < length (conn_tasks p). runs_of i es \<le> 4 \<and>
      (runs_of i es = 4 \<longrightarrow> (\<exists>r. task_phase p i = Returned r))) \<and>
    (\<forall>i < length (conn_tasks p). (\<exists>r. task_phase p i = Returned r) \<or>
      (\<exists>j < length (conn_tasks p). task_key p j = task_key p i \<and>
         (j = i \<or> task_phase p i = Waiting \<and> in_lock (task_phase p j)) \<and> (\<forall>net. task_step net j p \<noteq> None))) \<and>
    (\<forall>net. \<exists>es' p'. length es' \<le> 4 * length (conn_tasks p) \<and> (\<forall>e \<in> set es'. \<exists>i. e = Run i net) \<and>
      pool_run pool_new (es @ es') p' \<and> length (conn_tasks p') = length (conn_tasks p) \<and>
      (\<forall>i < length (conn_tasks p'). \<exists>r. task_phase p' i = Returned r))"
proof (intro conjI allI impI)
  have inv: "lock_inv p" "held_inv p" using pool_run_inv [OF assms refl] by blast+
  fix i assume i: "i < length (conn_tasks p)"
  have runs: "runs_of i es + rank (task_phase p i) \<le> 4"
    using pool_run_runs [OF assms refl] i by (simp add: runs_inv_def)
  then show "runs_of i es \<le> 4" by simp
  show "\<exists>r. task_phase p i = Returned r" if "runs_of i es = 4"
    using runs that by (cases "task_phase p i") simp_all
  show "(\<exists>r. task_phase p i = Returned r) \<or>
      (\<exists>j < length (conn_tasks p). task_key p j = task_key p i \<and>
         (j = i \<or> task_phase p i = Waiting \<and> in_lock (task_phase p j)) \<and> (\<forall>net. task_step net j p \<noteq> None))"
    using someone_runs [OF inv i] by blast
next
  fix net
  have inv: "lock_inv p" "held_inv p" using pool_run_inv [OF assms refl] by blast+
  from all_return [OF assms inv, of net]
  show "\<exists>es' p'. length es' \<le> 4 * length (conn_tasks p) \<and> (\<forall>e \<in> set es'. \<exists>i. e = Run i net) \<and>
      pool_run pool_new (es @ es') p' \<and> length (conn_tasks p') = length (conn_tasks p) \<and>
      (\<forall>i < length (conn_tasks p'). \<exists>r. task_phase p' i = Returned r)"
    using work_bound [of p] order_trans by blast
qed

text \<open>The first call is inside the lock, the second waits for it; eight more steps are enough for both.\<close>

definition waiting_pool :: "(nat, nat, nat) pool" where
  "waiting_pool = \<lparr>cache = Map.empty, connection_locks = [1 \<mapsto> Some 0],
     conn_tasks = [\<lparr>t_node = \<lparr>addresses = [7], local_id = 1\<rparr>, t_phase = Rechecking\<rparr>,
       \<lparr>t_node = \<lparr>addresses = [8], local_id = 1\<rparr>, t_phase = Waiting\<rparr>], opened = []\<rparr>"

theorem get_connection_calls_return_witness:
  "task_step good_network 1 waiting_pool = None \<and> task_step good_network 0 waiting_pool \<noteq> None \<and>
   (\<exists>es' p'. length es' \<le> 8 \<and> (\<forall>e \<in> set es'. \<exists>i. e = Run i good_network) \<and>
      pool_run pool_new (take 5 two_calls @ es') p' \<and> length (conn_tasks p') = 2 \<and>
      (\<forall>i < length (conn_tasks p'). \<exists>r. task_phase p' i = Returned r))"
proof -
  have "run_events (take 5 two_calls) pool_new = Some waiting_pool"
    by (simp add: two_calls_def pool_new_def waiting_pool_def task_step_def set_phase_def good_network_def
        eval_nat_numeral)
  from run_events_run [OF this pool_run.nil] have run: "pool_run pool_new (take 5 two_calls) waiting_pool" by simp
  have len: "length (conn_tasks waiting_pool) = 2" by (simp add: waiting_pool_def)
  have "task_step good_network 1 waiting_pool = None" "task_step good_network 0 waiting_pool \<noteq> None"
    by (simp_all add: waiting_pool_def task_step_def)
  with get_connection_calls_return [OF run] len show ?thesis by fastforce
qed

section \<open>Refinement\<close>

text \<open>A task that runs without interruption.\<close>

fun task_steps ::
  "nat \<Rightarrow> ('a, 'k, 'p, 'c) network \<Rightarrow> nat \<Rightarrow> ('a, 'k, 'c) pool \<Rightarrow> ('a, 'k, 'c) pool" where
  "task_steps 0 net i p = p"
| "task_steps (Suc n) net i p =
     (case task_step net i p of None \<Rightarrow> p | Some p' \<Rightarrow> task_steps n net i p')"

lemma task_steps_returned:
  "task_phase p i = Returned r \<Longrightarrow> task_steps n net i p = p"
  by (cases n) (simp_all add: task_step_def)

text \<open>The task is in a phase, the lock of its node has a value, the cache is given and the other tasks are as before.\<close>

definition task_at ::
  "('a, 'k, 'c) conn_task list \<Rightarrow> nat \<Rightarrow> 'c phase \<Rightarrow> nat option option \<Rightarrow> ('k \<rightharpoonup> 'c) \<Rightarrow>
   ('a, 'k, 'c) pool \<Rightarrow> bool" where
  "task_at ts i ph l h p \<longleftrightarrow>
     i < length ts \<and> conn_tasks p = ts[i := (ts ! i)\<lparr>t_phase := ph\<rparr>] \<and>
     connection_locks p (local_id (t_node (ts ! i))) = l \<and> cache p = h"

lemma alone_miss:
  "task_at ts i Checking l h p \<Longrightarrow> l \<in> {None, Some None} \<Longrightarrow> h (local_id (t_node (ts ! i))) = None \<Longrightarrow>
     \<exists>q. task_step net i p = Some q \<and> task_at ts i Waiting (Some None) h q"
  by (cases l) (simp_all add: task_at_def task_step_def set_phase_def)

lemma alone_lock:
  "task_at ts i Waiting (Some None) h p \<Longrightarrow>
     \<exists>q. task_step net i p = Some q \<and> task_at ts i Rechecking (Some (Some i)) h q"
  by (simp add: task_at_def task_step_def set_phase_def)

lemma alone_remiss:
  "task_at ts i Rechecking l h p \<Longrightarrow> h (local_id (t_node (ts ! i))) = None \<Longrightarrow>
     \<exists>q. task_step net i p = Some q \<and> task_at ts i Connecting l h q"
  by (simp add: task_at_def task_step_def set_phase_def)

lemma alone_connect:
  "task_at ts i Connecting l h p \<Longrightarrow>
     \<exists>q. task_step net i p = Some q \<and>
       (case connect_first net (local_id (t_node (ts ! i))) (addresses (t_node (ts ! i))) of
          Inl e \<Rightarrow> task_at ts i (Returned (Inl e)) (Some None) h q
        | Inr c \<Rightarrow> task_at ts i (Returned (Inr c)) (Some None) (h(local_id (t_node (ts ! i)) \<mapsto> c)) q)"
  by (cases "connect_first net (local_id (t_node (ts ! i))) (addresses (t_node (ts ! i)))")
    (simp_all add: task_at_def task_step_def set_phase_def unlock_def Let_def)

text \<open>
  The interleaved function implements the sequential one: a task whose node's lock is free
  and that runs without interruption returns, within four steps, exactly what
  \<^verbatim>\<open>get_connection\<close> returns from the same cache, leaves the same cache behind, the lock free and
  the other tasks as they were.
\<close>

theorem task_refines_get_connection:
  assumes "i < length (conn_tasks p)" "task_phase p i = Checking" "t_node (conn_tasks p ! i) = n"
    and "connection_locks p (local_id n) \<in> {None, Some None}"
    and "cache p = remote_nodes s" "get_connection net n s = Some (r, s')"
  shows "\<exists>p'. task_steps 4 net i p = p' \<and> task_phase p' i = Returned r \<and> cache p' = remote_nodes s' \<and>
    connection_locks p' (local_id n) \<in> {None, Some None} \<and>
    (\<forall>j < length (conn_tasks p). j \<noteq> i \<longrightarrow> conn_tasks p' ! j = conn_tasks p ! j)"
proof -
  have four: "task_steps 4 net i q = (case task_step net i q of None \<Rightarrow> q | Some q \<Rightarrow>
      (case task_step net i q of None \<Rightarrow> q | Some q \<Rightarrow>
        (case task_step net i q of None \<Rightarrow> q | Some q \<Rightarrow>
          (case task_step net i q of None \<Rightarrow> q | Some q \<Rightarrow> q))))" for q
    by (simp add: eval_nat_numeral split: option.split)
  let ?ts = "conn_tasks p" and ?k = "local_id n"
  have at: "task_at ?ts i Checking (connection_locks p ?k) (remote_nodes s) p"
  proof -
    have "(conn_tasks p ! i)\<lparr>t_phase := Checking\<rparr> = conn_tasks p ! i"
      using assms(2) by (cases "conn_tasks p ! i") simp
    then show ?thesis using assms(1,3,5) by (simp add: task_at_def)
  qed
  have result: ?thesis
    if "task_at ?ts i (Returned r) l (remote_nodes s') (task_steps 4 net i p)" "l \<in> {None, Some None}" for l
    using that assms(1,3) by (auto simp: task_at_def)
  show ?thesis
  proof (cases "remote_nodes s ?k")
    case (Some c)
    then have "r = Inr c" "s' = s" using assms(6) by (auto simp: get_connection_def split: option.splits)
    then show ?thesis unfolding four using assms Some
      by (simp add: task_step_def set_phase_def Let_def)
  next
    case None
    obtain q1 where q1: "task_step net i p = Some q1" "task_at ?ts i Waiting (Some None) (remote_nodes s) q1"
      using alone_miss [OF at assms(4)] None assms(3) by auto
    obtain q2 where q2: "task_step net i q1 = Some q2" "task_at ?ts i Rechecking (Some (Some i)) (remote_nodes s) q2"
      using alone_lock [OF q1(2)] by auto
    obtain q3 where q3: "task_step net i q2 = Some q3" "task_at ?ts i Connecting (Some (Some i)) (remote_nodes s) q3"
      using alone_remiss [OF q2(2)] None assms(3) by auto
    obtain q4 where q4: "task_step net i q3 = Some q4"
      "case connect_first net ?k (addresses n) of
         Inl e \<Rightarrow> task_at ?ts i (Returned (Inl e)) (Some None) (remote_nodes s) q4
       | Inr c \<Rightarrow> task_at ?ts i (Returned (Inr c)) (Some None) ((remote_nodes s)(?k \<mapsto> c)) q4"
      using alone_connect [OF q3(2), of net] assms(3) by auto
    have "task_steps 4 net i p = q4" unfolding four using q1(1) q2(1) q3(1) q4(1) by simp
    moreover have "task_at ?ts i (Returned r) (Some None) (remote_nodes s') q4"
      using assms(6) None q4(2) by (auto simp: get_connection_def split: option.splits sum.splits)
    ultimately show ?thesis using result [of "Some None"] by simp
  qed
qed

definition calling_pool :: "(nat, nat, nat) pool" where
  "calling_pool = pool_new\<lparr>conn_tasks := [\<lparr>t_node = \<lparr>addresses = [7], local_id = 1\<rparr>, t_phase = Checking\<rparr>]\<rparr>"

definition calling_server :: "(nat, nat, string, nat) server_handle" where
  "calling_server = register_local_node (node_handle_new 0) server_new"

theorem task_refines_get_connection_witness:
  "\<exists>p'. task_steps 4 good_network 0 calling_pool = p' \<and> task_phase p' 0 = Returned (Inr 7) \<and>
     cache p' 1 = Some 7 \<and> connection_locks p' 1 \<in> {None, Some None}"
proof -
  let ?n = "\<lparr>addresses = [7], local_id = 1\<rparr> :: (nat, nat) node_id"
  have "get_connection good_network ?n calling_server =
      Some (Inr 7, calling_server\<lparr>remote_nodes := [1 \<mapsto> 7]\<rparr>)"
    by (simp add: get_connection_def get_local_nodeid_def calling_server_def register_local_node_def
        node_handle_new_def server_new_def good_network_def)
  moreover have "cache calling_pool = remote_nodes calling_server"
    by (simp add: calling_pool_def pool_new_def calling_server_def register_local_node_def server_new_def)
  ultimately show ?thesis
    using task_refines_get_connection [of 0 calling_pool ?n calling_server good_network]
    by (fastforce simp: calling_pool_def pool_new_def)
qed

end
