(* ===== verification/Connection_Listener.thy ===== *)
theory Connection_Listener
  imports Node_Server "HOL-Library.Sublist"
begin

text \<open>
  What the server does with a connection (\<^verbatim>\<open>ServerHandle::handle_connection\<close> and
  \<^verbatim>\<open>handle_recv_stream\<close>).  The peer opens one-way streams; a task per stream reads frames,
  decodes them and passes the messages on to the local node.  The first sender of a message is
  announced over a channel of capacity one to a further task, which caches the connection as
  a reverse connection to that node, notes the node and closes the channel.  When the
  connection ends, a disconnect of the noted node is sent to the local node.

  The tasks interleave at their await points; the framing and the JSON decoder are library
  code, so a frame of the model is what they make of it.
\<close>

section \<open>Tasks of a connection\<close>

datatype ('a, 'k, 'p) frame =
    Decoded "('a, 'k, 'p) p2p_message"
  | BadFrame
  | BadJson

datatype ('a, 'k, 'p) stream_phase =
    Reading
  | Announcing "('a, 'k, 'p) p2p_message" "('a, 'k) node_id"
  | Delivering "('a, 'k, 'p) p2p_message"
  | StreamDone
  | StreamFailed

datatype ('a, 'k) id_phase =
    AwaitingId
  | StoringId "('a, 'k) node_id"
  | IdKnown "('a, 'k) node_id"

text \<open>
  A stream keeps all its frames and how many of them it has consumed.  \<open>received\<close> is a history
  of what was put into the local node's channel: the stream it came from, or none for the
  disconnect at the end.
\<close>

record ('a, 'k, 'p) stream_task =
  st_frames :: "('a, 'k, 'p) frame list"
  st_pos :: nat
  st_phase :: "('a, 'k, 'p) stream_phase"

record ('a, 'k, 'p, 'c) listener =
  l_handle :: "('a, 'k, 'p, 'c) server_handle"
  l_conn :: 'c
  id_channel :: "('a, 'k) node_id list"
  id_closed :: bool
  id_task :: "('a, 'k) id_phase"
  node_id_op :: "('a, 'k) node_id option"
  l_streams :: "('a, 'k, 'p) stream_task list"
  accepting :: bool
  received :: "(nat option \<times> ('a, 'k, 'p) p2p_message) list"

definition handle_connection ::
  "('a, 'k, 'p, 'c) server_handle \<Rightarrow> 'c \<Rightarrow> ('a, 'k, 'p, 'c) listener" where
  "handle_connection s conn =
     \<lparr>l_handle = s, l_conn = conn, id_channel = [], id_closed = False, id_task = AwaitingId,
      node_id_op = None, l_streams = [], accepting = True, received = []\<rparr>"

fun message_sender :: "('a, 'k, 'p) p2p_message \<Rightarrow> ('a, 'k) node_id option" where
  "message_sender (MHyparview m) = Some (hv_sender m)"
| "message_sender (MPlumtree m) = Some (pt_sender m)"
| "message_sender (MPlumtreeStream m) = None"

definition set_stream ::
  "nat \<Rightarrow> nat \<Rightarrow> ('a, 'k, 'p) stream_phase \<Rightarrow> ('a, 'k, 'p, 'c) listener \<Rightarrow> ('a, 'k, 'p, 'c) listener" where
  "set_stream i pos ph l =
     l\<lparr>l_streams := (l_streams l)[i := (l_streams l ! i)\<lparr>st_pos := pos, st_phase := ph\<rparr>]\<rparr>"

text \<open>The next step of the stream's task; nothing when it has ended or the channel is full.\<close>

definition handle_recv_stream ::
  "nat \<Rightarrow> ('a, 'k, 'p, 'c) listener \<Rightarrow> ('a, 'k, 'p, 'c) listener option" where
  "handle_recv_stream i l =
     (let st = l_streams l ! i; pos = st_pos st in
      case st_phase st of
        Reading \<Rightarrow>
          (if pos \<ge> length (st_frames st) then Some (set_stream i pos StreamDone l)
           else case st_frames st ! pos of
             BadFrame \<Rightarrow> Some (set_stream i pos StreamFailed l)
           | BadJson \<Rightarrow> Some (set_stream i pos StreamFailed l)
           | Decoded m \<Rightarrow>
               (case message_sender m of
                  Some n \<Rightarrow> Some (set_stream i (pos + 1) (if id_closed l then Delivering m else Announcing m n) l)
                | None \<Rightarrow> Some (set_stream i (pos + 1) (Delivering m) l)))
      | Announcing m n \<Rightarrow>
          (if id_closed l then Some (set_stream i pos (Delivering m) l)
           else if id_channel l = []
           then Some (set_stream i pos (Delivering m) (l\<lparr>id_channel := [n]\<rparr>))
           else None)
      | Delivering m \<Rightarrow>
          Some (set_stream i pos Reading
            (l\<lparr>l_handle := deliver_local m (l_handle l), received := received l @ [(Some i, m)]\<rparr>))
      | StreamDone \<Rightarrow> None
      | StreamFailed \<Rightarrow> None)"

text \<open>The task that waits for the first sender.\<close>

definition id_step :: "('a, 'k, 'p, 'c) listener \<Rightarrow> ('a, 'k, 'p, 'c) listener option" where
  "id_step l =
     (case id_task l of
        AwaitingId \<Rightarrow>
          (case id_channel l of
             [] \<Rightarrow> None
           | n # ns \<Rightarrow>
               Some (l\<lparr>id_channel := ns, id_task := StoringId n,
                 l_handle := (l_handle l)\<lparr>remote_nodes := (remote_nodes (l_handle l))(local_id n \<mapsto> l_conn l)\<rparr>\<rparr>))
      | StoringId n \<Rightarrow> Some (l\<lparr>node_id_op := Some n, id_closed := True, id_task := IdKnown n\<rparr>)
      | IdKnown n \<Rightarrow> None)"

text \<open>The connection ends, with or without an error.\<close>

definition connection_ends :: "('a, 'k, 'p, 'c) listener \<Rightarrow> ('a, 'k, 'p, 'c) listener" where
  "connection_ends l =
     (case node_id_op l of
        None \<Rightarrow> l\<lparr>accepting := False\<rparr>
      | Some n \<Rightarrow>
          l\<lparr>accepting := False, node_id_op := None, l_handle := notify_self_disconnect n (l_handle l),
            received := received l @ [(None, MHyparview (Disconnect \<lparr>dc_sender = n, dc_alive = False\<rparr>))]\<rparr>)"

datatype ('a, 'k, 'p) listener_event =
    Accept "('a, 'k, 'p) frame list"
  | StreamStep nat
  | IdStep
  | Close

definition listener_step ::
  "('a, 'k, 'p) listener_event \<Rightarrow> ('a, 'k, 'p, 'c) listener \<Rightarrow> ('a, 'k, 'p, 'c) listener option" where
  "listener_step e l =
     (case e of
        Accept fs \<Rightarrow>
          if accepting l then Some (l\<lparr>l_streams := l_streams l @ [\<lparr>st_frames = fs, st_pos = 0, st_phase = Reading\<rparr>]\<rparr>)
          else None
      | StreamStep i \<Rightarrow> if i < length (l_streams l) then handle_recv_stream i l else None
      | IdStep \<Rightarrow> id_step l
      | Close \<Rightarrow> if accepting l then Some (connection_ends l) else None)"

fun listener_run ::
  "('a, 'k, 'p) listener_event list \<Rightarrow> ('a, 'k, 'p, 'c) listener \<Rightarrow> ('a, 'k, 'p, 'c) listener option" where
  "listener_run [] l = Some l"
| "listener_run (e # es) l = Option.bind (listener_step e l) (listener_run es)"

section \<open>Messages of a stream\<close>

definition of_stream :: "nat \<Rightarrow> ('a, 'k, 'p, 'c) listener \<Rightarrow> ('a, 'k, 'p) p2p_message list" where
  "of_stream i l = map snd (filter (\<lambda>(j, m). j = Some i) (received l))"

definition in_flight :: "('a, 'k, 'p) stream_phase \<Rightarrow> ('a, 'k, 'p) p2p_message list" where
  "in_flight ph = (case ph of Announcing m n \<Rightarrow> [m] | Delivering m \<Rightarrow> [m] | _ \<Rightarrow> [])"

definition stream_inv :: "('a, 'k, 'p, 'c) listener \<Rightarrow> bool" where
  "stream_inv l \<longleftrightarrow>
     (\<forall>i < length (l_streams l). let st = l_streams l ! i in
        map Decoded (of_stream i l @ in_flight (st_phase st)) = take (st_pos st) (st_frames st) \<and>
        st_pos st \<le> length (st_frames st) \<and>
        (st_phase st = StreamDone \<longrightarrow> st_pos st = length (st_frames st)) \<and>
        (st_phase st = StreamFailed \<longrightarrow> st_pos st < length (st_frames st) \<and> st_frames st ! st_pos st \<in> {BadFrame, BadJson})) \<and>
     (\<forall>i \<ge> length (l_streams l). of_stream i l = [])"

definition inbox_inv :: "('a, 'k, 'p, 'c) server_handle \<Rightarrow> ('a, 'k, 'p, 'c) listener \<Rightarrow> bool" where
  "inbox_inv s l \<longleftrightarrow> local_node (l_handle l) \<noteq> None \<and> inbox (l_handle l) = inbox s @ map snd (received l)"

lemma set_stream_simps [simp]:
  "l_handle (set_stream i pos ph l) = l_handle l" "received (set_stream i pos ph l) = received l"
  "id_task (set_stream i pos ph l) = id_task l" "id_channel (set_stream i pos ph l) = id_channel l"
  "id_closed (set_stream i pos ph l) = id_closed l" "node_id_op (set_stream i pos ph l) = node_id_op l"
  "accepting (set_stream i pos ph l) = accepting l" "l_conn (set_stream i pos ph l) = l_conn l"
  "length (l_streams (set_stream i pos ph l)) = length (l_streams l)"
  "l_streams (set_stream i pos ph (l\<lparr>id_channel := q\<rparr>)) = l_streams (set_stream i pos ph l)"
  "l_streams (set_stream i pos ph (l\<lparr>l_handle := h, received := r\<rparr>)) = l_streams (set_stream i pos ph l)"
  by (simp_all add: set_stream_def)

lemma set_stream_nth:
  "i < length (l_streams l) \<Longrightarrow> l_streams (set_stream i pos ph l) ! j =
     (if j = i then (l_streams l ! i)\<lparr>st_pos := pos, st_phase := ph\<rparr> else l_streams l ! j)"
  by (simp add: set_stream_def nth_list_update)

text \<open>The steps of a stream's task, by its phase.\<close>

lemma handle_recv_stream_elim [consumes 1, case_names finished bad anonymous named announced_late announced delivered]:
  assumes "handle_recv_stream i l = Some l'"
  obtains "st_phase (l_streams l ! i) = Reading" "st_pos (l_streams l ! i) \<ge> length (st_frames (l_streams l ! i))"
      "l' = set_stream i (st_pos (l_streams l ! i)) StreamDone l"
  | "st_phase (l_streams l ! i) = Reading" "st_pos (l_streams l ! i) < length (st_frames (l_streams l ! i))"
      "st_frames (l_streams l ! i) ! st_pos (l_streams l ! i) \<in> {BadFrame, BadJson}"
      "l' = set_stream i (st_pos (l_streams l ! i)) StreamFailed l"
  | m where "st_phase (l_streams l ! i) = Reading" "st_pos (l_streams l ! i) < length (st_frames (l_streams l ! i))"
      "st_frames (l_streams l ! i) ! st_pos (l_streams l ! i) = Decoded m"
      "message_sender m = None \<or> id_closed l"
      "l' = set_stream i (st_pos (l_streams l ! i) + 1) (Delivering m) l"
  | m n where "st_phase (l_streams l ! i) = Reading" "st_pos (l_streams l ! i) < length (st_frames (l_streams l ! i))"
      "st_frames (l_streams l ! i) ! st_pos (l_streams l ! i) = Decoded m"
      "message_sender m = Some n" "\<not> id_closed l"
      "l' = set_stream i (st_pos (l_streams l ! i) + 1) (Announcing m n) l"
  | m n where "st_phase (l_streams l ! i) = Announcing m n" "id_closed l"
      "l' = set_stream i (st_pos (l_streams l ! i)) (Delivering m) l"
  | m n where "st_phase (l_streams l ! i) = Announcing m n" "\<not> id_closed l" "id_channel l = []"
      "l' = set_stream i (st_pos (l_streams l ! i)) (Delivering m) (l\<lparr>id_channel := [n]\<rparr>)"
  | m where "st_phase (l_streams l ! i) = Delivering m"
      "l' = set_stream i (st_pos (l_streams l ! i)) Reading
         (l\<lparr>l_handle := deliver_local m (l_handle l), received := received l @ [(Some i, m)]\<rparr>)"
proof (cases "st_phase (l_streams l ! i)")
  case Reading
  then show thesis using assms that(1-4)
    by (cases "st_frames (l_streams l ! i) ! st_pos (l_streams l ! i)")
      (auto simp: handle_recv_stream_def Let_def split: if_splits option.splits)
next
  case (Announcing m n)
  then show thesis using assms that(5,6) by (auto simp: handle_recv_stream_def Let_def split: if_splits)
next
  case (Delivering m)
  then show thesis using assms that(7) by (simp add: handle_recv_stream_def Let_def)
qed (use assms in \<open>simp_all add: handle_recv_stream_def Let_def\<close>)

lemma take_frame:
  "pos < length fs \<Longrightarrow> fs ! pos = Decoded m \<Longrightarrow> map Decoded ms = take pos fs \<Longrightarrow>
     map Decoded (ms @ [m]) = take (Suc pos) fs"
  by (simp add: take_Suc_conv_app_nth)

text \<open>What the invariant says of one stream.\<close>

definition stream_ok :: "('a, 'k, 'p) p2p_message list \<Rightarrow> ('a, 'k, 'p) stream_task \<Rightarrow> bool" where
  "stream_ok ms st \<longleftrightarrow>
     map Decoded (ms @ in_flight (st_phase st)) = take (st_pos st) (st_frames st) \<and>
     st_pos st \<le> length (st_frames st) \<and>
     (st_phase st = StreamDone \<longrightarrow> st_pos st = length (st_frames st)) \<and>
     (st_phase st = StreamFailed \<longrightarrow>
        st_pos st < length (st_frames st) \<and> st_frames st ! st_pos st \<in> {BadFrame, BadJson})"

lemma stream_inv_iff:
  "stream_inv l \<longleftrightarrow> (\<forall>i < length (l_streams l). stream_ok (of_stream i l) (l_streams l ! i)) \<and>
     (\<forall>i \<ge> length (l_streams l). of_stream i l = [])"
  by (simp add: stream_inv_def stream_ok_def Let_def)

lemma stream_inv_set:
  assumes "stream_inv l" "i < length (l_streams l)" "received l' = received l @ map (Pair (Some i)) ms"
    "l_streams l' = l_streams (set_stream i pos ph l)"
    "stream_ok (of_stream i l @ ms) ((l_streams l ! i)\<lparr>st_pos := pos, st_phase := ph\<rparr>)"
  shows "stream_inv l'"
proof -
  have new: "of_stream i l' = of_stream i l @ ms" "j \<noteq> i \<Longrightarrow> of_stream j l' = of_stream j l" for j
    using assms(3) by (simp_all add: of_stream_def filter_map comp_def)
  show ?thesis
    using assms(1,2,4,5) by (auto simp: stream_inv_iff new set_stream_nth)
qed

lemma handle_recv_stream_inv:
  assumes step: "handle_recv_stream i l = Some l'" and i: "i < length (l_streams l)" and inv: "stream_inv l"
  shows "stream_inv l'"
proof -
  have ok: "stream_ok (of_stream i l) (l_streams l ! i)" using inv i by (simp add: stream_inv_iff)
  note set0 = stream_inv_set [OF inv i, of _ "[]", simplified] and set1 = stream_inv_set [OF inv i, of _ "[_]", simplified]
  from step show ?thesis
  proof (cases rule: handle_recv_stream_elim)
    case finished
    then show ?thesis using ok by (auto simp: stream_ok_def in_flight_def intro!: set0)
  next
    case bad
    then show ?thesis using ok by (auto simp: stream_ok_def in_flight_def intro!: set0)
  next
    case (anonymous m)
    then show ?thesis using ok take_frame [OF anonymous(2,3)]
      by (auto simp: stream_ok_def in_flight_def intro!: set0)
  next
    case (named m n)
    then show ?thesis using ok take_frame [OF named(2,3)]
      by (auto simp: stream_ok_def in_flight_def intro!: set0)
  next
    case (announced_late m n)
    then show ?thesis using ok by (auto simp: stream_ok_def in_flight_def intro!: set0)
  next
    case (announced m n)
    then show ?thesis using ok by (auto simp: stream_ok_def in_flight_def intro!: set0)
  next
    case (delivered m)
    then show ?thesis using ok by (auto simp: stream_ok_def in_flight_def intro!: set1)
  qed
qed

lemma local_node_simps [simp]:
  "local_node (deliver_local m s) = None \<longleftrightarrow> local_node s = None"
  "local_node (remove_remote_node k s) = local_node s"
  by (simp_all add: deliver_local_def remove_remote_node_def split: option.split)

lemma handle_recv_stream_inbox:
  "handle_recv_stream i l = Some l' \<Longrightarrow> inbox_inv s l \<Longrightarrow> inbox_inv s l'"
  by (erule handle_recv_stream_elim) (simp_all add: inbox_inv_def)

lemma id_step_frame:
  "id_step l = Some l' \<Longrightarrow> received l' = received l \<and> l_streams l' = l_streams l \<and>
     inbox (l_handle l') = inbox (l_handle l) \<and> local_node (l_handle l') = local_node (l_handle l)"
  by (auto simp: id_step_def split: id_phase.splits list.splits)

lemma connection_ends_frame: "l_streams (connection_ends l) = l_streams l" "of_stream i (connection_ends l) = of_stream i l"
  by (simp_all add: connection_ends_def of_stream_def split: option.split)

lemma listener_step_inv:
  assumes "listener_step e l = Some l'" "stream_inv l" "inbox_inv s l"
  shows "stream_inv l' \<and> inbox_inv s l'"
proof (cases e)
  case (Accept fs)
  then have l': "l' = l\<lparr>l_streams := l_streams l @ [\<lparr>st_frames = fs, st_pos = 0, st_phase = Reading\<rparr>]\<rparr>"
    using assms(1) by (simp add: listener_step_def split: if_splits)
  have "of_stream i l' = of_stream i l" for i by (simp add: l' of_stream_def)
  then show ?thesis using assms(2,3)
    by (auto simp: l' stream_inv_iff inbox_inv_def nth_append stream_ok_def in_flight_def less_Suc_eq)
next
  case (StreamStep i)
  then show ?thesis using assms handle_recv_stream_inv handle_recv_stream_inbox
    by (auto simp: listener_step_def split: if_splits)
next
  case IdStep
  then show ?thesis using assms id_step_frame [of l l']
    by (simp add: listener_step_def stream_inv_iff inbox_inv_def of_stream_def)
next
  case Close
  then have l': "l' = connection_ends l" using assms(1) by (simp add: listener_step_def split: if_splits)
  have "stream_inv l'" using assms(2) by (simp add: l' stream_inv_iff connection_ends_frame)
  moreover have "inbox_inv s l'" using assms(3)
    by (simp add: l' inbox_inv_def connection_ends_def notify_self_disconnect_def del: not_None_eq
        split: option.split)
  ultimately show ?thesis by blast
qed

lemma listener_run_inv:
  "listener_run es l = Some l' \<Longrightarrow> stream_inv l \<Longrightarrow> inbox_inv s l \<Longrightarrow> stream_inv l' \<and> inbox_inv s l'"
  by (induction es arbitrary: l) (auto split: Option.bind_splits dest: listener_step_inv)

lemma handle_connection_inv:
  "local_node s \<noteq> None \<Longrightarrow> stream_inv (handle_connection s c) \<and> inbox_inv s (handle_connection s c)"
  by (simp add: handle_connection_def stream_inv_def inbox_inv_def of_stream_def)

text \<open>The messages of a stream before the first frame that is not one.\<close>

fun decoded_prefix :: "('a, 'k, 'p) frame list \<Rightarrow> ('a, 'k, 'p) p2p_message list" where
  "decoded_prefix (Decoded m # fs) = m # decoded_prefix fs"
| "decoded_prefix fs = []"

lemma decoded_prefix_take:
  "map Decoded ms = take n fs \<Longrightarrow> n \<le> length fs \<Longrightarrow>
     decoded_prefix fs = ms @ decoded_prefix (drop n fs)"
proof (induction ms arbitrary: n fs)
  case (Cons m ms)
  then show ?case by (cases n; cases fs) auto
qed auto

text \<open>
  C22. No message is lost, duplicated or reordered within its stream.  However the tasks of a
  connection interleave, what they add to the local node's inbox is, for each stream, a
  prefix of the messages the peer wrote to it before the first malformed frame, and all of
  them once the stream's task has ended.
\<close>

theorem stream_messages_in_order:
  assumes "local_node s \<noteq> None" "listener_run es (handle_connection s conn) = Some l"
  shows "inbox (l_handle l) = inbox s @ map snd (received l) \<and>
    (\<forall>i < length (l_streams l). prefix (of_stream i l) (decoded_prefix (st_frames (l_streams l ! i))) \<and>
       (st_phase (l_streams l ! i) \<in> {StreamDone, StreamFailed} \<longrightarrow>
          of_stream i l = decoded_prefix (st_frames (l_streams l ! i))))"
proof -
  have inv: "stream_inv l" "inbox_inv s l"
    using listener_run_inv [OF assms(2)] handle_connection_inv [OF assms(1)] by blast+
  have "prefix (of_stream i l) (decoded_prefix (st_frames st)) \<and>
      (st_phase st \<in> {StreamDone, StreamFailed} \<longrightarrow> of_stream i l = decoded_prefix (st_frames st))"
    if "i < length (l_streams l)" "st = l_streams l ! i" for i st
  proof -
    have ok: "stream_ok (of_stream i l) st" using inv(1) that by (simp add: stream_inv_iff)
    then have eq: "decoded_prefix (st_frames st) =
        of_stream i l @ in_flight (st_phase st) @ decoded_prefix (drop (st_pos st) (st_frames st))"
      using decoded_prefix_take [of "of_stream i l @ in_flight (st_phase st)" "st_pos st" "st_frames st"]
      by (simp add: stream_ok_def)
    have "decoded_prefix (drop (st_pos st) (st_frames st)) = []" if "st_phase st = StreamFailed"
      using ok that by (subst Cons_nth_drop_Suc [symmetric]) (auto simp: stream_ok_def)
    then have "decoded_prefix (drop (st_pos st) (st_frames st)) = []" if "st_phase st \<in> {StreamDone, StreamFailed}"
      using ok that by (auto simp: stream_ok_def)
    then show ?thesis using eq by (auto simp: in_flight_def)
  qed
  then show ?thesis using inv(2) by (simp add: inbox_inv_def)
qed

section \<open>The reverse connection\<close>

definition notices :: "('a, 'k, 'p, 'c) listener \<Rightarrow> ('a, 'k, 'p) p2p_message list" where
  "notices l = map snd (filter (\<lambda>(j, m). j = None) (received l))"

definition senders :: "('a, 'k, 'p, 'c) listener \<Rightarrow> ('a, 'k) node_id set" where
  "senders l = {n. \<exists>fs \<in> st_frames ` set (l_streams l). \<exists>m. Decoded m \<in> set fs \<and> message_sender m = Some n}"

definition id_inv :: "('a, 'k, 'p, 'c) server_handle \<Rightarrow> 'c \<Rightarrow> ('a, 'k, 'p, 'c) listener \<Rightarrow> bool" where
  "id_inv s conn l \<longleftrightarrow> l_conn l = conn \<and>
     (case id_task l of
        AwaitingId \<Rightarrow> remote_nodes (l_handle l) = remote_nodes s \<and> node_id_op l = None \<and> notices l = []
      | StoringId n \<Rightarrow> n \<in> senders l \<and> remote_nodes (l_handle l) = (remote_nodes s)(local_id n \<mapsto> conn) \<and>
          node_id_op l = None \<and> notices l = []
      | IdKnown n \<Rightarrow> n \<in> senders l \<and>
          (if node_id_op l = None
           then \<not> accepting l \<and> remote_nodes (l_handle l) = (remote_nodes s)(local_id n := None) \<and>
             notices l = [MHyparview (Disconnect \<lparr>dc_sender = n, dc_alive = False\<rparr>)]
           else node_id_op l = Some n \<and> remote_nodes (l_handle l) = (remote_nodes s)(local_id n \<mapsto> conn) \<and>
             notices l = []))"

text \<open>Every name on its way to the noting task was the sender of a message.\<close>

definition named_inv :: "('a, 'k, 'p, 'c) listener \<Rightarrow> bool" where
  "named_inv l \<longleftrightarrow> set (id_channel l) \<subseteq> senders l \<and>
     (\<forall>st \<in> set (l_streams l). \<forall>m n. st_phase st = Announcing m n \<longrightarrow> n \<in> senders l)"

lemma senders_streams: "l_streams l' = l_streams (set_stream i pos ph l) \<Longrightarrow> senders l' = senders l"
proof -
  assume l': "l_streams l' = l_streams (set_stream i pos ph l)"
  have "map st_frames (l_streams l') = map st_frames (l_streams l)"
    by (cases "i < length (l_streams l)")
      (simp_all add: l' set_stream_def map_update list_update_same_conv list_update_beyond)
  then have "st_frames ` set (l_streams l') = st_frames ` set (l_streams l)" by (metis list.set_map)
  then show ?thesis by (simp only: senders_def)
qed

lemma senders_nth:
  "i < length (l_streams l) \<Longrightarrow> pos < length (st_frames (l_streams l ! i)) \<Longrightarrow>
     st_frames (l_streams l ! i) ! pos = Decoded m \<Longrightarrow> message_sender m = Some n \<Longrightarrow> n \<in> senders l"
  unfolding senders_def by (metis (mono_tags, lifting) image_eqI mem_Collect_eq nth_mem)

lemma handle_recv_stream_ids:
  assumes step: "handle_recv_stream i l = Some l'" and i: "i < length (l_streams l)"
    and inv: "named_inv l" "id_inv s c l"
  shows "named_inv l' \<and> id_inv s c l'"
proof -
  obtain pos ph where str: "l_streams l' = l_streams (set_stream i pos ph l)"
    and ph: "\<And>m n. ph = Announcing m n \<Longrightarrow> n \<in> senders l"
    and chan: "set (id_channel l') \<subseteq> senders l"
    using step
  proof (cases rule: handle_recv_stream_elim)
    case (named m n)
    then show thesis using that [of _ "Announcing m n"] senders_nth [OF i named(2,3,4)] inv(1)
      by (auto simp: named_inv_def)
  next
    case (announced m n)
    then show thesis using that [of _ "Delivering m"] inv(1) i by (auto simp: named_inv_def) (metis nth_mem subsetD)
  qed (use that inv(1) in \<open>auto simp: named_inv_def\<close>)
  have "set (l_streams l') \<subseteq> insert ((l_streams l ! i)\<lparr>st_pos := pos, st_phase := ph\<rparr>) (set (l_streams l))"
    unfolding str set_stream_def by (simp add: set_update_subset_insert)
  then have "named_inv l'" using inv(1) ph chan by (auto simp: named_inv_def senders_streams [OF str])
  moreover have "id_inv s c l'"
    using step
    by (cases rule: handle_recv_stream_elim)
      (use inv(2) senders_streams [OF str] in \<open>auto simp: id_inv_def notices_def deliver_local_def
        split: id_phase.splits option.split\<close>)
  ultimately show ?thesis by blast
qed

lemma listener_step_ids:
  assumes "listener_step e l = Some l'" "named_inv l" "id_inv s c l"
  shows "named_inv l' \<and> id_inv s c l'"
proof (cases e)
  case (Accept fs)
  then have l': "l' = l\<lparr>l_streams := l_streams l @ [\<lparr>st_frames = fs, st_pos = 0, st_phase = Reading\<rparr>]\<rparr>"
    using assms(1) by (simp add: listener_step_def split: if_splits)
  have "senders l \<subseteq> senders l'" by (auto simp: l' senders_def)
  then show ?thesis using assms(2,3)
    by (auto simp: l' named_inv_def id_inv_def notices_def split: id_phase.splits)
next
  case (StreamStep i)
  then have "handle_recv_stream i l = Some l'" "i < length (l_streams l)"
    using assms(1) by (simp_all add: listener_step_def split: if_splits)
  then show ?thesis using assms(2,3) by (rule handle_recv_stream_ids)
next
  case IdStep
  have "senders l' = senders l"
    using id_step_frame [of l l'] assms(1) IdStep by (simp add: listener_step_def senders_def)
  then show ?thesis using assms IdStep
    by (auto simp: listener_step_def id_step_def named_inv_def id_inv_def notices_def
        split: id_phase.splits list.splits)
next
  case Close
  then have l': "l' = connection_ends l" using assms(1) by (simp add: listener_step_def split: if_splits)
  have "senders l' = senders l" by (simp add: l' senders_def connection_ends_frame)
  then show ?thesis using assms(2,3)
    by (auto simp: l' named_inv_def id_inv_def notices_def connection_ends_def notify_self_disconnect_def
        remove_remote_node_def deliver_local_def split: id_phase.splits option.splits)
qed

lemma listener_run_ids:
  "listener_run es l = Some l' \<Longrightarrow> named_inv l \<Longrightarrow> id_inv s c l \<Longrightarrow> named_inv l' \<and> id_inv s c l'"
  by (induction es arbitrary: l) (auto split: Option.bind_splits dest: listener_step_ids)


text \<open>
  C28. The reverse connection.  Whatever streams a peer opens and however the tasks interleave, a
  connection is cached under at most one node, the sender of a message that came over it, and
  the rest of the cache is left alone.  If the connection ends after that node was noted, the
  entry is dropped and exactly one disconnect of that node goes to the local node.
\<close>

theorem reverse_connection_registered:
  assumes "listener_run es (handle_connection s conn) = Some l"
  shows "(remote_nodes (l_handle l) = remote_nodes s \<and> notices l = [] \<or>
      (\<exists>n \<in> senders l. remote_nodes (l_handle l) = (remote_nodes s)(local_id n \<mapsto> conn) \<and> notices l = []) \<or>
      (\<exists>n \<in> senders l. \<not> accepting l \<and> remote_nodes (l_handle l) = (remote_nodes s)(local_id n := None) \<and>
         notices l = [MHyparview (Disconnect \<lparr>dc_sender = n, dc_alive = False\<rparr>)])) \<and>
    (\<forall>n. id_task l = IdKnown n \<and> accepting l \<longrightarrow>
      (\<exists>l'. listener_step Close l = Some l' \<and> remote_nodes (l_handle l') (local_id n) = None \<and>
         notices l' = [MHyparview (Disconnect \<lparr>dc_sender = n, dc_alive = False\<rparr>)]))"
proof -
  have "named_inv (handle_connection s conn)" "id_inv s conn (handle_connection s conn)"
    by (simp_all add: named_inv_def id_inv_def handle_connection_def notices_def)
  then have inv: "id_inv s conn l" using listener_run_ids [OF assms] by blast
  have "\<exists>l'. listener_step Close l = Some l' \<and> remote_nodes (l_handle l') (local_id n) = None \<and>
      notices l' = [MHyparview (Disconnect \<lparr>dc_sender = n, dc_alive = False\<rparr>)]"
    if "id_task l = IdKnown n" "accepting l" for n
    using inv that
    by (auto simp: id_inv_def listener_step_def connection_ends_def notify_self_disconnect_def
        remove_remote_node_def notices_def split: if_splits)
  then show ?thesis using inv by (auto simp: id_inv_def split: id_phase.splits if_splits)
qed


definition peer_message :: "(nat, nat, string) p2p_message" where
  "peer_message = MHyparview (mk_join \<lparr>addresses = [3], local_id = 9\<rparr>)"

definition example_events :: "(nat, nat, string) listener_event list" where
  "example_events = [Accept [Decoded peer_message, BadJson, Decoded peer_message], StreamStep 0, StreamStep 0,
     StreamStep 0, IdStep, IdStep, StreamStep 0]"

definition example_listener :: "(nat, nat, string, nat) listener" where
  "example_listener = handle_connection (register_local_node (node_handle_new 0) server_new) 5"

lemmas listener_evaluate = example_events_def peer_message_def example_listener_def handle_connection_def
  listener_step_def handle_recv_stream_def set_stream_def id_step_def deliver_local_def register_local_node_def
  node_handle_new_def server_new_def

theorem stream_messages_in_order_witness:
  "\<exists>l. listener_run example_events example_listener = Some l \<and> inbox (l_handle l) = [peer_message] \<and>
     prefix (of_stream 0 l) [peer_message]"
proof -
  obtain l where l: "listener_run example_events example_listener = Some l"
    and len: "length (l_streams l) = 1" "st_frames (l_streams l ! 0) = [Decoded peer_message, BadJson, Decoded peer_message]"
    and rec: "received l = [(Some 0, peer_message)]"
    by (simp add: listener_evaluate)
  have s: "local_node (register_local_node (node_handle_new 0) server_new :: (nat, nat, string, nat) server_handle) \<noteq> None"
    "inbox (register_local_node (node_handle_new 0) server_new :: (nat, nat, string, nat) server_handle) = []"
    by (simp_all add: register_local_node_def inbox_def node_handle_new_def)
  show ?thesis
    using stream_messages_in_order [OF s(1) l [unfolded example_listener_def]] l len rec s(2) by simp
qed

theorem reverse_connection_registered_witness:
  "\<exists>l. listener_run example_events example_listener = Some l \<and>
     (\<exists>l'. listener_step Close l = Some l' \<and> remote_nodes (l_handle l') 9 = None)"
proof -
  obtain l where l: "listener_run example_events example_listener = Some l"
    and id: "id_task l = IdKnown \<lparr>addresses = [3], local_id = 9\<rparr>" "accepting l"
    by (simp add: listener_evaluate)
  then show ?thesis
    using reverse_connection_registered [OF l [unfolded example_listener_def]] by fastforce
qed


end
