(* ===== verification/Tls_Identity.thy ===== *)
theory Tls_Identity
  imports Prelude "HOL-Library.Sublist"
begin

text \<open>
  Identities: the keys of \<^verbatim>\<open>node_id.rs\<close> with their textual forms, the server names of
  \<^verbatim>\<open>tls/name.rs\<close>, the certificate a node presents (\<^verbatim>\<open>tls/resolver.rs\<close>), what a node accepts
  (\<^verbatim>\<open>tls/verifier.rs\<close>) and the configurations built from them (\<^verbatim>\<open>tls.rs\<close>).

  The elliptic curve, the encodings and the key containers are library code.  They are the
  parameter \<open>crypto\<close>; what the program relies on is the predicate \<open>crypto_ok\<close>: parsing
  undoes printing, the lengths are the documented ones, the base 32 alphabet has no dot, and
  the certified key of a secret key is the container of its public key.  Signatures are ideal
  (\<open>signatures_ok\<close>): the library accepts exactly those made with the secret key.
\<close>

type_synonym bytes = "u8 list"

record ('v, 's) crypto =
  vk_from_bytes :: "bytes \<Rightarrow> 'v option"
  vk_as_bytes :: "'v \<Rightarrow> bytes"
  verifying_key :: "'s \<Rightarrow> 'v"
  sk_from_bytes :: "bytes \<Rightarrow> 's"
  base32_encode :: "bytes \<Rightarrow> string"
  base32_decode :: "string \<Rightarrow> bytes option"
  hex_encode :: "bytes \<Rightarrow> string"
  hex_decode_mut :: "string \<Rightarrow> nat \<Rightarrow> bytes option option"
  to_public_key_der :: "'v \<Rightarrow> bytes"
  certified_public_key :: "'s \<Rightarrow> bytes option option"
  signature_of :: "'s \<Rightarrow> bytes \<Rightarrow> bytes \<Rightarrow> bool"
  sign :: "'s \<Rightarrow> bytes \<Rightarrow> bytes"
  verify_with_raw_key :: "bytes \<Rightarrow> bytes \<Rightarrow> bytes \<Rightarrow> bool"

text \<open>
  \<^verbatim>\<open>HEXLOWER.decode_mut\<close> panics (the outer \<^const>\<open>None\<close>) when the length of the output does not
  fit the length of the input, two digits per byte.  \<open>certified_public_key\<close> is the public key
  that the TLS library reports for a secret key after the round through its PEM container:
  \<^const>\<open>None\<close> when it does not accept the key, \<open>Some None\<close> when it reports no public key.

  The last three fields are about signatures.  \<open>signature_of C s m d\<close> says that \<open>d\<close> is a
  signature over \<open>m\<close> made with the secret key \<open>s\<close>; \<open>sign C s m\<close> is the one the library makes;
  \<open>verify_with_raw_key C m der d\<close> is the answer of the library to whether \<open>d\<close> is a signature
  over \<open>m\<close> for the raw public key in \<open>der\<close>.
\<close>

definition crypto_ok :: "('v, 's) crypto \<Rightarrow> bool" where
  "crypto_ok C \<longleftrightarrow>
     (\<forall>v. vk_from_bytes C (vk_as_bytes C v) = Some v \<and> length (vk_as_bytes C v) = 32) \<and>
     (\<forall>b. base32_decode C (base32_encode C b) = Some b \<and> CHR ''.'' \<notin> set (base32_encode C b)) \<and>
     (\<forall>b. length (hex_encode C b) = 2 * length b \<and>
        hex_decode_mut C (hex_encode C b) (length b) = Some (Some b)) \<and>
     (\<forall>s n. hex_decode_mut C s n = None \<longleftrightarrow> length s \<noteq> 2 * n) \<and>
     (\<forall>s. certified_public_key C s = Some (Some (to_public_key_der C (verifying_key C s)))) \<and>
     inj (to_public_key_der C)"

text \<open>
  What signatures are for: one that a secret key made is accepted under its public key, and
  one that is accepted under the container of a public key was made with a secret key of it.
\<close>

definition signatures_ok :: "('v, 's) crypto \<Rightarrow> bool" where
  "signatures_ok C \<longleftrightarrow>
     (\<forall>s m. signature_of C s m (sign C s m)) \<and>
     (\<forall>m v d. verify_with_raw_key C m (to_public_key_der C v) d \<longleftrightarrow>
        (\<exists>s. verifying_key C s = v \<and> signature_of C s m d))"

section \<open>Keys\<close>

datatype 'v public_key = PublicKey (key_of: 'v)

datatype 's secret_key = SecretKey (secret: 's)

datatype 'v local_node_id = LocalNodeId (public: "'v public_key")

datatype key_parsing_error = DecodeError | SignatureError

definition pk_as_bytes :: "('v, 's) crypto \<Rightarrow> 'v public_key \<Rightarrow> bytes" where
  "pk_as_bytes C k = vk_as_bytes C (key_of k)"

definition pk_try_from :: "('v, 's) crypto \<Rightarrow> bytes \<Rightarrow> key_parsing_error + 'v public_key" where
  "pk_try_from C b = (case vk_from_bytes C b of None \<Rightarrow> Inl SignatureError | Some v \<Rightarrow> Inr (PublicKey v))"

definition pk_from_str :: "('v, 's) crypto \<Rightarrow> string \<Rightarrow> (key_parsing_error + 'v public_key) option" where
  "pk_from_str C s =
     (case hex_decode_mut C s 32 of
        None \<Rightarrow> None
      | Some None \<Rightarrow> Some (Inl DecodeError)
      | Some (Some b) \<Rightarrow> Some (pk_try_from C b))"

definition sk_public :: "('v, 's) crypto \<Rightarrow> 's secret_key \<Rightarrow> 'v public_key" where
  "sk_public C s = PublicKey (verifying_key C (secret s))"

text \<open>Thirty-two random bytes; the generator's bytes are the argument.\<close>

fun fill_random :: "nat \<Rightarrow> nat \<Rightarrow> (nat \<Rightarrow> u8) \<Rightarrow> bytes \<Rightarrow> bytes" where
  "fill_random 0 i rnd b = b"
| "fill_random (Suc n) i rnd b = fill_random n (Suc i) rnd (b[i := rnd i])"

definition sk_generate :: "('v, 's) crypto \<Rightarrow> (nat \<Rightarrow> u8) \<Rightarrow> 's secret_key" where
  "sk_generate C rnd = SecretKey (sk_from_bytes C (fill_random 32 0 rnd (replicate 32 0)))"

definition local_node_id_display :: "('v, 's) crypto \<Rightarrow> 'v local_node_id \<Rightarrow> string" where
  "local_node_id_display C k = hex_encode C (pk_as_bytes C (public k))"

text \<open>\<^verbatim>\<open>split_at(5)\<close> panics on a shorter string.\<close>

definition local_node_id_short :: "('v, 's) crypto \<Rightarrow> 'v local_node_id \<Rightarrow> string option" where
  "local_node_id_short C k =
     (let s = local_node_id_display C k in if 5 \<le> length s then Some (take 5 s) else None)"

text \<open>The derived order on byte arrays is lexicographic.\<close>

fun bytes_cmp :: "bytes \<Rightarrow> bytes \<Rightarrow> int" where
  "bytes_cmp [] [] = 0"
| "bytes_cmp [] (y # ys) = - 1"
| "bytes_cmp (x # xs) [] = 1"
| "bytes_cmp (x # xs) (y # ys) = (if x < y then - 1 else if y < x then 1 else bytes_cmp xs ys)"

definition pk_cmp :: "('v, 's) crypto \<Rightarrow> 'v public_key \<Rightarrow> 'v public_key \<Rightarrow> int" where
  "pk_cmp C a b = bytes_cmp (vk_as_bytes C (key_of a)) (vk_as_bytes C (key_of b))"

section \<open>Server names\<close>

text \<open>\<^verbatim>\<open>str::split\<close> at a character: the pieces between its occurrences, at least one.\<close>

fun split_char :: "char \<Rightarrow> string \<Rightarrow> string list" where
  "split_char c [] = [[]]"
| "split_char c (x # xs) =
     (if x = c then [] # split_char c xs
      else case split_char c xs of [] \<Rightarrow> [[x]] | y # ys \<Rightarrow> (x # y) # ys)"

definition name_encode :: "('v, 's) crypto \<Rightarrow> 'v public_key \<Rightarrow> string" where
  "name_encode C k = base32_encode C (pk_as_bytes C k) @ ''.upaomo.invalid''"

definition name_decode :: "('v, 's) crypto \<Rightarrow> string \<Rightarrow> 'v option" where
  "name_decode C name =
     (case split_char (CHR ''.'') name of
        [base32_node_id, p, q] \<Rightarrow>
          (if p = ''upaomo'' \<and> q = ''invalid''
           then do {
             b \<leftarrow> base32_decode C base32_node_id;
             (if length b = 32 then vk_from_bytes C b else None)
           }
           else None)
      | _ \<Rightarrow> None)"

section \<open>Certificates\<close>

datatype tls_error =
    UnsupportedNameType
  | NotValidForName
  | UnknownIssuer
  | Tls12NotOffered
  | InvalidKey
  | BadSignature

datatype server_name = DnsName string | IpAddressName

definition verify_server_cert ::
  "('v, 's) crypto \<Rightarrow> bytes \<Rightarrow> bytes list \<Rightarrow> server_name \<Rightarrow> tls_error + unit" where
  "verify_server_cert C end_entity intermediates server_name =
     (case server_name of
        IpAddressName \<Rightarrow> Inl UnsupportedNameType
      | DnsName dns_name \<Rightarrow>
          (case name_decode C dns_name of
             None \<Rightarrow> Inl NotValidForName
           | Some remote_peer_id \<Rightarrow>
               if intermediates \<noteq> [] then Inl UnknownIssuer
               else if to_public_key_der C remote_peer_id \<noteq> end_entity then Inl UnknownIssuer
               else Inr ()))"

definition verify_client_cert :: "bytes \<Rightarrow> bytes list \<Rightarrow> tls_error + unit" where
  "verify_client_cert end_entity intermediates =
     (if intermediates \<noteq> [] then Inl UnknownIssuer else Inr ())"

text \<open>
  TLS 1.2 is refused; a signature of TLS 1.3 is checked by the library under the raw key in the
  certificate.
\<close>

definition verify_tls12_signature :: "bytes \<Rightarrow> bytes \<Rightarrow> bytes \<Rightarrow> tls_error + unit" where
  "verify_tls12_signature message cert dss = Inl Tls12NotOffered"

definition verify_tls13_signature ::
  "('v, 's) crypto \<Rightarrow> bytes \<Rightarrow> bytes \<Rightarrow> bytes \<Rightarrow> tls_error + unit" where
  "verify_tls13_signature C message cert dss =
     (if verify_with_raw_key C message cert dss then Inr () else Inl BadSignature)"

definition client_verify_tls12_signature :: "bytes \<Rightarrow> bytes \<Rightarrow> bytes \<Rightarrow> tls_error + unit" where
  "client_verify_tls12_signature message cert dss = Inl Tls12NotOffered"

definition client_verify_tls13_signature ::
  "('v, 's) crypto \<Rightarrow> bytes \<Rightarrow> bytes \<Rightarrow> bytes \<Rightarrow> tls_error + unit" where
  "client_verify_tls13_signature C message cert dss =
     (if verify_with_raw_key C message cert dss then Inr () else Inl BadSignature)"

definition requires_raw_public_keys :: bool where
  "requires_raw_public_keys = True"

definition client_requires_raw_public_keys :: bool where
  "client_requires_raw_public_keys = True"

definition root_hint_subjects :: "bytes list" where
  "root_hint_subjects = []"

text \<open>
  The two verifiers as the configurations hold them, behind the interface of the library: the
  operations that the handshake calls.
\<close>

record server_cert_verifier =
  on_server_cert :: "bytes \<Rightarrow> bytes list \<Rightarrow> server_name \<Rightarrow> tls_error + unit"
  on_server_tls12 :: "bytes \<Rightarrow> bytes \<Rightarrow> bytes \<Rightarrow> tls_error + unit"
  on_server_tls13 :: "bytes \<Rightarrow> bytes \<Rightarrow> bytes \<Rightarrow> tls_error + unit"
  wants_server_raw_key :: bool

record client_cert_verifier =
  on_client_cert :: "bytes \<Rightarrow> bytes list \<Rightarrow> tls_error + unit"
  on_client_tls12 :: "bytes \<Rightarrow> bytes \<Rightarrow> bytes \<Rightarrow> tls_error + unit"
  on_client_tls13 :: "bytes \<Rightarrow> bytes \<Rightarrow> bytes \<Rightarrow> tls_error + unit"
  wants_client_raw_key :: bool
  client_root_hints :: "bytes list"

definition server_certificate_verifier :: "('v, 's) crypto \<Rightarrow> server_cert_verifier" where
  "server_certificate_verifier C =
     \<lparr>on_server_cert = verify_server_cert C, on_server_tls12 = verify_tls12_signature,
      on_server_tls13 = verify_tls13_signature C, wants_server_raw_key = requires_raw_public_keys\<rparr>"

definition client_certificate_verifier :: "('v, 's) crypto \<Rightarrow> client_cert_verifier" where
  "client_certificate_verifier C =
     \<lparr>on_client_cert = verify_client_cert, on_client_tls12 = client_verify_tls12_signature,
      on_client_tls13 = client_verify_tls13_signature C,
      wants_client_raw_key = client_requires_raw_public_keys, client_root_hints = root_hint_subjects\<rparr>"

text \<open>
  The certificate chain a node presents, as a client and as a server: the container of its
  public key and nothing else.  Creating it fails when the library does not accept the key and
  panics when the library has no public key for it; a configuration insists on it.
\<close>

record 's always_resolves_cert =
  cert_chain :: "bytes list"
  cert_key :: 's

definition always_resolves_cert_new ::
  "('v, 's) crypto \<Rightarrow> 's secret_key \<Rightarrow> (tls_error + 's always_resolves_cert) option" where
  "always_resolves_cert_new C s =
     (case certified_public_key C (secret s) of
        None \<Rightarrow> Some (Inl InvalidKey)
      | Some None \<Rightarrow> None
      | Some (Some der) \<Rightarrow> Some (Inr \<lparr>cert_chain = [der], cert_key = secret s\<rparr>))"

text \<open>As a client the root hints and the signature schemes are ignored, as a server the hello is.\<close>

definition resolve_client_cert ::
  "'s always_resolves_cert \<Rightarrow> bytes list \<Rightarrow> nat list \<Rightarrow> 's always_resolves_cert option" where
  "resolve_client_cert r root_hints schemes = Some r"

definition client_only_raw_public_keys :: bool where
  "client_only_raw_public_keys = True"

definition has_certs :: bool where
  "has_certs = True"

definition resolve_cert :: "'s always_resolves_cert \<Rightarrow> 'h \<Rightarrow> 's always_resolves_cert option" where
  "resolve_cert r client_hello = Some r"

definition only_raw_public_keys :: bool where
  "only_raw_public_keys = True"

record 's tls_config =
  tls_secret_key :: "'s secret_key"
  cert_resolver :: "'s always_resolves_cert"
  server_verifier :: server_cert_verifier
  client_verifier :: client_cert_verifier

definition tls_config_new :: "('v, 's) crypto \<Rightarrow> 's secret_key \<Rightarrow> 's tls_config option" where
  "tls_config_new C s =
     (case always_resolves_cert_new C s of
        Some (Inr r) \<Rightarrow>
          Some \<lparr>tls_secret_key = s, cert_resolver = r,
            server_verifier = server_certificate_verifier C, client_verifier = client_certificate_verifier C\<rparr>
      | _ \<Rightarrow> None)"

text \<open>
  The configurations of the two sides of a connection.  Whether QUIC accepts the protocols is an
  argument.  The transport configuration was just made, so it is changed in place.
\<close>

record 's client_config =
  cl_certificate_verifier :: server_cert_verifier
  cl_cert_resolver :: "'s always_resolves_cert"
  cl_alpn_protocols :: "string list"

record 's server_config =
  sv_client_cert_verifier :: client_cert_verifier
  sv_cert_resolver :: "'s always_resolves_cert"
  sv_alpn_protocols :: "string list"
  keep_alive_interval :: "duration option"

definition make_client_config ::
  "(string list \<Rightarrow> bool) \<Rightarrow> 's tls_config \<Rightarrow> string list \<Rightarrow> 's client_config option" where
  "make_client_config accepts t alpn_protocols =
     (if accepts alpn_protocols
      then Some \<lparr>cl_certificate_verifier = server_verifier t, cl_cert_resolver = cert_resolver t,
        cl_alpn_protocols = alpn_protocols\<rparr>
      else None)"

definition make_server_config ::
  "(string list \<Rightarrow> bool) \<Rightarrow> 's tls_config \<Rightarrow> string list \<Rightarrow> 's server_config option" where
  "make_server_config accepts t alpn_protocols =
     (if accepts alpn_protocols
      then Some \<lparr>sv_client_cert_verifier = client_verifier t, sv_cert_resolver = cert_resolver t,
        sv_alpn_protocols = alpn_protocols, keep_alive_interval = Some (from_secs 2)\<rparr> else None)"

text \<open>
  The part of a handshake that the program decides.  The flight of a side is whether it agreed
  to raw keys, the version, the chain of certificates, the end entity first, and its signature
  over the transcript \<open>m\<close>.  A side that has no certificate to give sends none.
\<close>

datatype tls_version = TLS12 | TLS13

record flight =
  fl_raw_keys :: bool
  fl_version :: tls_version
  fl_chain :: "bytes list"
  fl_signature :: bytes

definition client_accepts :: "'s client_config \<Rightarrow> string \<Rightarrow> bytes \<Rightarrow> flight \<Rightarrow> bool" where
  "client_accepts client name m fl \<longleftrightarrow>
     (let v = cl_certificate_verifier client in
      (wants_server_raw_key v \<longrightarrow> fl_raw_keys fl) \<and>
      (case fl_chain fl of
         [] \<Rightarrow> False
       | end_entity # intermediates \<Rightarrow>
           on_server_cert v end_entity intermediates (DnsName name) = Inr () \<and>
           (case fl_version fl of
              TLS12 \<Rightarrow> on_server_tls12 v m end_entity (fl_signature fl) = Inr ()
            | TLS13 \<Rightarrow> on_server_tls13 v m end_entity (fl_signature fl) = Inr ())))"

definition server_accepts :: "'s server_config \<Rightarrow> bytes \<Rightarrow> flight \<Rightarrow> bool" where
  "server_accepts server m fl \<longleftrightarrow>
     (let v = sv_client_cert_verifier server in
      (wants_client_raw_key v \<longrightarrow> fl_raw_keys fl) \<and>
      (case fl_chain fl of
         [] \<Rightarrow> False
       | end_entity # intermediates \<Rightarrow>
           on_client_cert v end_entity intermediates = Inr () \<and>
           (case fl_version fl of
              TLS12 \<Rightarrow> on_client_tls12 v m end_entity (fl_signature fl) = Inr ()
            | TLS13 \<Rightarrow> on_client_tls13 v m end_entity (fl_signature fl) = Inr ())))"

text \<open>The flights of the program itself: QUIC runs TLS 1.3, and the resolvers choose the certificate.\<close>

definition server_flight :: "('v, 's) crypto \<Rightarrow> 's server_config \<Rightarrow> bytes \<Rightarrow> flight option" where
  "server_flight C server m =
     (case resolve_cert (sv_cert_resolver server) () of
        None \<Rightarrow> None
      | Some r \<Rightarrow>
          Some \<lparr>fl_raw_keys = only_raw_public_keys, fl_version = TLS13, fl_chain = cert_chain r,
            fl_signature = sign C (cert_key r) m\<rparr>)"

definition client_flight ::
  "('v, 's) crypto \<Rightarrow> 's client_config \<Rightarrow> 's server_config \<Rightarrow> bytes \<Rightarrow> flight option" where
  "client_flight C client server m =
     (if has_certs
      then case resolve_client_cert (cl_cert_resolver client) (client_root_hints (sv_client_cert_verifier server)) [] of
          None \<Rightarrow> None
        | Some r \<Rightarrow>
            Some \<lparr>fl_raw_keys = client_only_raw_public_keys, fl_version = TLS13, fl_chain = cert_chain r,
              fl_signature = sign C (cert_key r) m\<rparr>
      else None)"

text \<open>
  What a stranger can send that holds the secret keys \<open>held\<close>: any chain of certificates, copied
  ones included, in any version, but over the transcript of this handshake, which is fresh, no
  signature made with a key that it does not hold.
\<close>

definition can_send :: "('v, 's) crypto \<Rightarrow> 's set \<Rightarrow> bytes \<Rightarrow> flight \<Rightarrow> bool" where
  "can_send C held m fl \<longleftrightarrow> (\<forall>s. signature_of C s m (fl_signature fl) \<longrightarrow> s \<in> held)"

section \<open>Names and keys\<close>

lemma crypto_okD:
  assumes "crypto_ok C"
  shows "vk_from_bytes C (vk_as_bytes C v) = Some v" "length (vk_as_bytes C v) = 32"
    "base32_decode C (base32_encode C b) = Some b" "CHR ''.'' \<notin> set (base32_encode C b)"
    "length (hex_encode C b) = 2 * length b" "hex_decode_mut C (hex_encode C b) (length b) = Some (Some b)"
    "hex_decode_mut C s n = None \<longleftrightarrow> length s \<noteq> 2 * n"
    "certified_public_key C sk = Some (Some (to_public_key_der C (verifying_key C sk)))"
    "to_public_key_der C v = to_public_key_der C w \<longleftrightarrow> v = w"
  using assms unfolding crypto_ok_def by (auto dest: injD)

lemma split_char_append:
  "c \<notin> set xs \<Longrightarrow> split_char c (xs @ c # ys) = xs # split_char c ys"
  by (induction xs) auto

lemma split_char_none: "c \<notin> set xs \<Longrightarrow> split_char c xs = [xs]"
  by (induction xs) auto

lemma name_decode_encode:
  assumes "crypto_ok C"
  shows "name_decode C (name_encode C k) = Some (key_of k)"
proof -
  have "split_char (CHR ''.'') (name_encode C k) = [base32_encode C (pk_as_bytes C k), ''upaomo'', ''invalid'']"
    using split_char_append [OF crypto_okD(4) [OF assms]] by (simp add: name_encode_def)
  then show ?thesis using crypto_okD [OF assms] by (simp add: name_decode_def pk_as_bytes_def)
qed

lemma pk_from_str_display:
  assumes "crypto_ok C"
  shows "pk_from_str C (local_node_id_display C (LocalNodeId k)) = Some (Inr k)"
proof -
  have "hex_decode_mut C (hex_encode C (vk_as_bytes C (key_of k))) 32 = Some (Some (vk_as_bytes C (key_of k)))"
    using crypto_okD(6) [OF assms, of "vk_as_bytes C (key_of k)"] crypto_okD(2) [OF assms] by simp
  then show ?thesis
    using crypto_okD(1) [OF assms]
    by (simp add: pk_from_str_def local_node_id_display_def pk_as_bytes_def pk_try_from_def)
qed

lemma pk_from_str_None:
  assumes "crypto_ok C"
  shows "pk_from_str C s = None \<longleftrightarrow> length s \<noteq> 64"
  using crypto_okD(7) [OF assms, of s 32] by (auto simp: pk_from_str_def split: option.split)

text \<open>
  C30. Names and keys survive being written and read.  Decoding the server name of a key gives
  the key back, and parsing the hexadecimal form of a node identifier gives its key back.
  Parsing text of any other length than 64 panics, whatever it contains; text of that length
  gives a key or an error.
\<close>

theorem names_and_keys_round_trip:
  assumes "crypto_ok C"
  shows "name_decode C (name_encode C k) = Some (key_of k) \<and>
    pk_from_str C (local_node_id_display C (LocalNodeId k)) = Some (Inr k) \<and>
    (\<forall>s. pk_from_str C s = None \<longleftrightarrow> length s \<noteq> 64)"
proof (intro conjI allI)
  fix s
  show "pk_from_str C s = None \<longleftrightarrow> length s \<noteq> 64"
    by (rule pk_from_str_None [OF assms])
qed (rule name_decode_encode [OF assms] pk_from_str_display [OF assms])+

lemma make_configs:
  assumes "crypto_ok C"
  obtains t client server where "tls_config_new C s = Some t"
    "make_client_config accepts t alpn = (if accepts alpn then Some client else None)"
    "make_server_config accepts t alpn = (if accepts alpn then Some server else None)"
    "client = \<lparr>cl_certificate_verifier = server_certificate_verifier C, cl_cert_resolver = cert_resolver t,
       cl_alpn_protocols = alpn\<rparr>"
    "server = \<lparr>sv_client_cert_verifier = client_certificate_verifier C, sv_cert_resolver = cert_resolver t,
       sv_alpn_protocols = alpn, keep_alive_interval = Some (from_secs 2)\<rparr>"
    "cert_resolver t = \<lparr>cert_chain = [to_public_key_der C (verifying_key C (secret s))], cert_key = secret s\<rparr>"
  using crypto_okD(8) [OF assms]
  by (auto simp: tls_config_new_def always_resolves_cert_new_def make_client_config_def make_server_config_def)

lemma client_accepts_iff:
  assumes "crypto_ok C" "cl_certificate_verifier client = server_certificate_verifier C"
  shows "client_accepts client (name_encode C k) m fl \<longleftrightarrow>
    fl_raw_keys fl \<and> fl_version fl = TLS13 \<and> fl_chain fl = [to_public_key_der C (key_of k)] \<and>
    verify_with_raw_key C m (to_public_key_der C (key_of k)) (fl_signature fl)"
  using assms(2)
  by (auto simp: client_accepts_def server_certificate_verifier_def requires_raw_public_keys_def verify_server_cert_def
      name_decode_encode [OF assms(1)] verify_tls12_signature_def verify_tls13_signature_def Let_def
      split: list.splits tls_version.splits if_splits)

lemma server_accepts_iff:
  assumes "sv_client_cert_verifier server = client_certificate_verifier C"
  shows "server_accepts server m fl \<longleftrightarrow>
    fl_raw_keys fl \<and> fl_version fl = TLS13 \<and>
    (\<exists>end_entity. fl_chain fl = [end_entity] \<and> verify_with_raw_key C m end_entity (fl_signature fl))"
  using assms
  by (auto simp: server_accepts_def client_certificate_verifier_def client_requires_raw_public_keys_def
      verify_client_cert_def client_verify_tls12_signature_def client_verify_tls13_signature_def Let_def
      split: list.splits tls_version.splits if_splits)

text \<open>
  C23. A connection reaches the node it is meant for.  Every node can build its configurations
  for the protocols that QUIC accepts.  Whatever a stranger answers to a client that dials a
  node identifier, with whatever certificate: when the client accepts the answer, the stranger
  holds a secret key of that identifier.  The answer of a node of this program, whose secret
  key is \<open>s'\<close>, is accepted exactly under the identifier of \<open>s'\<close>.  The server in turn accepts the
  program's client whatever its key is, keeps the connection alive every two seconds, and
  accepts nobody who presents a public key without holding a secret key of it.
\<close>

theorem dialled_node_is_authenticated:
  assumes "crypto_ok C" "signatures_ok C"
  shows "\<exists>t t'. tls_config_new C s = Some t \<and> tls_config_new C s' = Some t' \<and>
    (if accepts alpn
     then \<exists>client server. make_client_config accepts t alpn = Some client \<and>
       make_server_config accepts t' alpn = Some server \<and>
       (\<forall>expected held m fl. can_send C held m fl \<and> client_accepts client (name_encode C (public expected)) m fl \<longrightarrow>
          (\<exists>k \<in> held. sk_public C (SecretKey k) = public expected)) \<and>
       (\<forall>expected m. \<exists>fl. server_flight C server m = Some fl \<and>
          (client_accepts client (name_encode C (public expected)) m fl \<longleftrightarrow> public expected = sk_public C s')) \<and>
       (\<forall>held m fl v. can_send C held m fl \<and> fl_chain fl = [to_public_key_der C v] \<and> server_accepts server m fl \<longrightarrow>
          (\<exists>k \<in> held. sk_public C (SecretKey k) = PublicKey v)) \<and>
       (\<forall>m. \<exists>fl. client_flight C client server m = Some fl \<and> server_accepts server m fl) \<and>
       keep_alive_interval server = Some (from_secs 2) \<and>
       cl_alpn_protocols client = alpn \<and> sv_alpn_protocols server = alpn
     else make_client_config accepts t alpn = None \<and> make_server_config accepts t' alpn = None)"
proof -
  note sig = assms(2) [unfolded signatures_ok_def]
  obtain t client and unused :: "'s server_config" where c: "tls_config_new C s = Some t"
    "make_client_config accepts t alpn = (if accepts alpn then Some client else None)"
    "client = \<lparr>cl_certificate_verifier = server_certificate_verifier C, cl_cert_resolver = cert_resolver t,
       cl_alpn_protocols = alpn\<rparr>"
    "cert_resolver t = \<lparr>cert_chain = [to_public_key_der C (verifying_key C (secret s))], cert_key = secret s\<rparr>"
    by (rule make_configs [OF assms(1)])
  obtain t' server where v: "tls_config_new C s' = Some t'"
    "make_server_config accepts t' alpn = (if accepts alpn then Some server else None)"
    "server = \<lparr>sv_client_cert_verifier = client_certificate_verifier C, sv_cert_resolver = cert_resolver t',
       sv_alpn_protocols = alpn, keep_alive_interval = Some (from_secs 2)\<rparr>"
    "cert_resolver t' = \<lparr>cert_chain = [to_public_key_der C (verifying_key C (secret s'))], cert_key = secret s'\<rparr>"
    by (rule make_configs [OF assms(1)])
  have acc: "client_accepts client (name_encode C k) m fl \<longleftrightarrow>
      fl_raw_keys fl \<and> fl_version fl = TLS13 \<and> fl_chain fl = [to_public_key_der C (key_of k)] \<and>
      (\<exists>x. verifying_key C x = key_of k \<and> signature_of C x m (fl_signature fl))" for k m fl
    using sig c(3) by (simp add: client_accepts_iff [OF assms(1)])
  have acc': "server_accepts server m fl \<longleftrightarrow> fl_raw_keys fl \<and> fl_version fl = TLS13 \<and>
      (\<exists>e. fl_chain fl = [e] \<and> verify_with_raw_key C m e (fl_signature fl))" for m fl
    using v(3) by (simp add: server_accepts_iff)
  have safe: "\<exists>k \<in> held. sk_public C (SecretKey k) = public expected"
    if "can_send C held m fl" "client_accepts client (name_encode C (public expected)) m fl" for expected held m fl
    using that unfolding acc can_send_def sk_public_def by (cases "public expected") auto
  have safe': "\<exists>k \<in> held. sk_public C (SecretKey k) = PublicKey x"
    if "can_send C held m fl" "fl_chain fl = [to_public_key_der C x]" "server_accepts server m fl" for held m fl x
    using that sig unfolding acc' can_send_def sk_public_def by auto
  have own: "\<exists>fl. server_flight C server m = Some fl \<and>
      (client_accepts client (name_encode C (public expected)) m fl \<longleftrightarrow> public expected = sk_public C s')"
    for expected m
    using sig crypto_okD(9) [OF assms(1)]
    by (cases "public expected")
      (auto simp: server_flight_def resolve_cert_def v acc only_raw_public_keys_def sk_public_def)
  have own': "\<exists>fl. client_flight C client server m = Some fl \<and> server_accepts server m fl" for m
    using sig by (auto simp: client_flight_def resolve_client_cert_def c acc' client_only_raw_public_keys_def has_certs_def)
  show ?thesis
    using safe safe' own own' c v by auto
qed

section \<open>An instance\<close>

text \<open>
  A concrete parameter for which the hypotheses hold: two keys, and bytes written as two
  letters between a and p.
\<close>

definition write_byte :: "u8 \<Rightarrow> string" where
  "write_byte b = [char_of (unat b div 16 + 97), char_of (unat b mod 16 + 97)]"

fun read_bytes :: "string \<Rightarrow> bytes" where
  "read_bytes (x # y # s) = word_of_nat ((of_char x - 97) * 16 + (of_char y - 97)) # read_bytes s"
| "read_bytes s = []"

lemma read_write: "read_bytes (concat (map write_byte b)) = b"
proof (induction b)
  case (Cons x b)
  have "unat x < 256" using unsigned_less [of x, where 'a = nat] by simp
  then have "unat x div 16 + 97 < 256" "unat x mod 16 + 97 < 256"
    by (simp_all add: less_mult_imp_div_less)
  then show ?case using Cons by (simp add: write_byte_def)
qed simp

lemma write_no_dot: "CHR ''.'' \<notin> set (write_byte x)"
proof -
  have "CHR ''.'' \<noteq> char_of (n + 97)" if "n < 16" for n :: nat
  proof
    assume "CHR ''.'' = char_of (n + 97)"
    then have "of_char (CHR ''.'') = (of_char (char_of (n + 97)) :: nat)" by simp
    then show False using that by simp
  qed
  moreover have "unat x div 16 < 16" "unat x mod 16 < 16" for x :: u8
    using unsigned_less [of x, where 'a = nat] by (simp_all add: less_mult_imp_div_less)
  ultimately show ?thesis by (simp add: write_byte_def)
qed

definition demo_crypto :: "(bool, bool) crypto" where
  "demo_crypto =
     \<lparr>vk_from_bytes = (\<lambda>b. if b = replicate 32 1 then Some True else if b = replicate 32 0 then Some False else None),
      vk_as_bytes = (\<lambda>v. replicate 32 (if v then 1 else 0)),
      verifying_key = id,
      sk_from_bytes = (\<lambda>b. b \<noteq> replicate 32 0),
      base32_encode = (\<lambda>b. concat (map write_byte b)),
      base32_decode = (\<lambda>s. Some (read_bytes s)),
      hex_encode = (\<lambda>b. concat (map write_byte b)),
      hex_decode_mut = (\<lambda>s n. if length s = 2 * n then Some (Some (read_bytes s)) else None),
      to_public_key_der = (\<lambda>v. [if v then 1 else 0]),
      certified_public_key = (\<lambda>v. Some (Some [if v then 1 else 0])),
      signature_of = (\<lambda>s m d. d = (if s then 1 else 0) # m),
      sign = (\<lambda>s m. (if s then 1 else 0) # m),
      verify_with_raw_key = (\<lambda>m der d. length der = 1 \<and> d = der @ m)\<rparr>"

lemma length_write: "length (concat (map write_byte b)) = 2 * length b"
  by (induction b) (simp_all add: write_byte_def)

lemma demo_crypto_ok: "crypto_ok demo_crypto"
proof -
  have "replicate 32 0 \<noteq> replicate 32 (1 :: u8)" by (simp add: eval_nat_numeral)
  then show ?thesis
    by (auto simp: crypto_ok_def demo_crypto_def read_write write_no_dot length_write inj_def)
qed

theorem names_and_keys_round_trip_witness:
  "name_decode demo_crypto (name_encode demo_crypto (PublicKey True)) = Some True \<and>
   pk_from_str demo_crypto ''abc'' = None"
  using names_and_keys_round_trip [OF demo_crypto_ok, of "PublicKey True"] by auto

lemma demo_signatures_ok: "signatures_ok demo_crypto"
  by (auto simp: signatures_ok_def demo_crypto_def)

text \<open>
  Node one dials node zero.  It accepts node zero and not the server of a third party, and it does not accept one
  that shows the certificate of node zero without its key.
\<close>

theorem dialled_node_is_authenticated_witness:
  "\<exists>t t' client server fl. tls_config_new demo_crypto (SecretKey True) = Some t \<and>
     tls_config_new demo_crypto (SecretKey False) = Some t' \<and>
     make_client_config (\<lambda>_. True) t [''quic-p2p-v2''] = Some client \<and>
     make_server_config (\<lambda>_. True) t' [''quic-p2p-v2''] = Some server \<and>
     server_flight demo_crypto server [7] = Some fl \<and>
     client_accepts client (name_encode demo_crypto (PublicKey False)) [7] fl \<and>
     \<not> client_accepts client (name_encode demo_crypto (PublicKey True)) [7] fl \<and>
     \<not> client_accepts client (name_encode demo_crypto (PublicKey False)) [7]
         \<lparr>fl_raw_keys = True, fl_version = TLS13, fl_chain = [[0]], fl_signature = [1, 7]\<rparr>"
proof -
  let ?fake = "\<lparr>fl_raw_keys = True, fl_version = TLS13, fl_chain = [[0]], fl_signature = [1, 7]\<rparr>"
  have fake: "can_send demo_crypto {True} [7] ?fake" by (auto simp: can_send_def demo_crypto_def split: if_splits)
  have key: "sk_public demo_crypto (SecretKey x) = PublicKey x" for x
    by (simp add: sk_public_def demo_crypto_def)
  obtain t t' client server where *: "tls_config_new demo_crypto (SecretKey True) = Some t"
    "tls_config_new demo_crypto (SecretKey False) = Some t'"
    "make_client_config (\<lambda>_. True) t [''quic-p2p-v2''] = Some client"
    "make_server_config (\<lambda>_. True) t' [''quic-p2p-v2''] = Some server"
    and safe: "\<forall>expected held m fl. can_send demo_crypto held m fl \<and>
       client_accepts client (name_encode demo_crypto (public expected)) m fl \<longrightarrow>
       (\<exists>k \<in> held. sk_public demo_crypto (SecretKey k) = public expected)"
    and own: "\<forall>expected m. \<exists>fl. server_flight demo_crypto server m = Some fl \<and>
       (client_accepts client (name_encode demo_crypto (public expected)) m fl \<longleftrightarrow>
        public expected = sk_public demo_crypto (SecretKey False))"
    using dialled_node_is_authenticated [OF demo_crypto_ok demo_signatures_ok,
        of "SecretKey True" "SecretKey False" "\<lambda>_. True" "[''quic-p2p-v2'']"]
    unfolding if_True by blast
  obtain fl where fl: "server_flight demo_crypto server [7] = Some fl"
    using own by blast
  have "client_accepts client (name_encode demo_crypto k) [7] fl \<longleftrightarrow> k = PublicKey False" for k
    using spec [OF spec [OF own, of "LocalNodeId k"], of "[7]"] fl by (auto simp: key)
  moreover have "\<not> client_accepts client (name_encode demo_crypto (PublicKey False)) [7] ?fake"
    using safe [rule_format, of "{True}" "[7]" ?fake "LocalNodeId (PublicKey False)"] fake
    by (auto simp: key)
  ultimately show ?thesis using * fl by blast
qed

end
