(* ===== verification/Server_Setup.thy ===== *)
theory Server_Setup
  imports Connection_Listener Tls_Identity
begin

text \<open>
  Setting a server up: the search for the public address through STUN servers and the creation
  of the endpoint (\<^verbatim>\<open>net.rs\<close>), the builder that turns a key into a server
  (\<^verbatim>\<open>P2PNodeServerBuilder\<close>), the loop that accepts connections and the future that starts it
  once (\<^verbatim>\<open>ServerHandle::start_server\<close>, \<^verbatim>\<open>P2PNodeServer::poll\<close>).

  Name resolution, sockets and the QUIC endpoint are parameters.
\<close>

section \<open>Public address\<close>

definition PUB_STUN :: "string list" where
  "PUB_STUN = [''stun.chat.bilibili.com:3478'', ''stun.miwifi.com:3478'', ''stun.hitv.com:3478'',
     ''stun.cdnbye.com:3478'']"

datatype 'a stun_attribute = XorMappedAddress 'a | MappedAddress 'a | OtherAttribute

text \<open>What sending the request and decoding the answer gives.\<close>

datatype 'a stun_exchange =
    ExchangeFailed
  | BrokenResponse
  | StunResponse bool "'a stun_attribute list"

datatype setup_error =
    ResolveFailed string
  | NoValidAddress string
  | StunFailed
  | StunServerError
  | NoMappedAddress
  | NoStunServer
  | SocketFailed
  | ConfigFailed
  | EndpointFailed
  | LocalIpFailed

record 'a setup_io =
  to_socket_addrs :: "string \<Rightarrow> 'a list option"
  stun_request :: "'a \<Rightarrow> 'a stun_exchange"

fun find_xor_mapped :: "'a stun_attribute list \<Rightarrow> 'a option" where
  "find_xor_mapped [] = None"
| "find_xor_mapped (XorMappedAddress a # as) = Some a"
| "find_xor_mapped (_ # as) = find_xor_mapped as"

fun find_mapped :: "'a stun_attribute list \<Rightarrow> 'a option" where
  "find_mapped [] = None"
| "find_mapped (MappedAddress a # as) = Some a"
| "find_mapped (_ # as) = find_mapped as"

definition get_external_ip_from_stun :: "'a setup_io \<Rightarrow> string \<Rightarrow> setup_error + 'a" where
  "get_external_ip_from_stun io server_addr =
     (case to_socket_addrs io server_addr of
        None \<Rightarrow> Inl (ResolveFailed server_addr)
      | Some [] \<Rightarrow> Inl (NoValidAddress server_addr)
      | Some (addr # _) \<Rightarrow>
          (case stun_request io addr of
             ExchangeFailed \<Rightarrow> Inl StunFailed
           | BrokenResponse \<Rightarrow> Inl NoMappedAddress
           | StunResponse success attrs \<Rightarrow>
               if \<not> success then Inl StunServerError
               else case find_xor_mapped attrs of
                 Some a \<Rightarrow> Inr a
               | None \<Rightarrow> (case find_mapped attrs of Some a \<Rightarrow> Inr a | None \<Rightarrow> Inl NoMappedAddress)))"

fun try_stun_servers :: "'a setup_io \<Rightarrow> string list \<Rightarrow> setup_error option \<Rightarrow> setup_error + 'a" where
  "try_stun_servers io [] last_err = (case last_err of Some e \<Rightarrow> Inl e | None \<Rightarrow> Inl NoStunServer)"
| "try_stun_servers io (server # servers) last_err =
     (case get_external_ip_from_stun io server of
        Inr ip \<Rightarrow> Inr ip
      | Inl e \<Rightarrow> try_stun_servers io servers (Some e))"

definition stun_addr :: "'a setup_io \<Rightarrow> setup_error + 'a" where
  "stun_addr io = try_stun_servers io PUB_STUN None"

section \<open>Endpoint and builder\<close>

record ('i, 'e) endpoint_io =
  unspecified :: "'i \<times> nat"
  bind_socket :: "'i \<times> nat \<Rightarrow> 'e option"
  socket_io :: "'e \<Rightarrow> ('i \<times> nat) setup_io"
  endpoint_of :: "'e \<Rightarrow> bool"
  local_port :: "'e \<Rightarrow> nat option"
  get_local_ip :: "'i option"
  config_accepts :: "string list \<Rightarrow> bool"

text \<open>
  The result of the search is looked at only after the endpoint was made, so a failing endpoint
  is reported first.
\<close>

definition create_endpoint ::
  "('i, 'e) endpoint_io \<Rightarrow> ('i \<times> nat) option \<Rightarrow> setup_error + ('e \<times> 'i \<times> nat)" where
  "create_endpoint io addr =
     (let bind_addr = (case addr of Some a \<Rightarrow> a | None \<Rightarrow> unspecified io) in
      case bind_socket io bind_addr of
        None \<Rightarrow> Inl SocketFailed
      | Some socket \<Rightarrow>
          (let ip = stun_addr (socket_io io socket) in
           if \<not> endpoint_of io socket then Inl EndpointFailed
           else case ip of Inl e \<Rightarrow> Inl e | Inr a \<Rightarrow> Inr (socket, a)))"

record 's server_builder =
  b_secret_key :: "'s secret_key option"
  b_tls_config :: "'s tls_config option"
  b_alpn_protocols :: "string list"

definition builder_default :: "'s server_builder" where
  "builder_default = \<lparr>b_secret_key = None, b_tls_config = None, b_alpn_protocols = []\<rparr>"

definition builder_secret_key :: "'s secret_key \<Rightarrow> 's server_builder \<Rightarrow> 's server_builder" where
  "builder_secret_key s b = b\<lparr>b_secret_key := Some s\<rparr>"

definition builder_tls_config :: "'s tls_config \<Rightarrow> 's server_builder \<Rightarrow> 's server_builder" where
  "builder_tls_config t b = b\<lparr>b_tls_config := Some t\<rparr>"

definition builder_alpn_protocols :: "string list \<Rightarrow> 's server_builder \<Rightarrow> 's server_builder" where
  "builder_alpn_protocols ps b = b\<lparr>b_alpn_protocols := ps\<rparr>"

text \<open>The two configurations, which the code gives to the endpoint, are kept with the server.\<close>

record ('i, 's, 'a, 'k, 'p, 'c) p2p_server =
  srv_addresses :: "('i \<times> nat) set"
  srv_tls_config :: "'s tls_config"
  srv_client_config :: "'s client_config"
  srv_server_config :: "'s server_config"
  server_is_running :: bool
  srv_handle :: "('a, 'k, 'p, 'c) server_handle"

text \<open>A configuration is made from the key unless one was given; a builder with neither panics.\<close>

definition builder_bind ::
  "('v, 's) crypto \<Rightarrow> ('i, 'e) endpoint_io \<Rightarrow> ('i \<times> nat) option \<Rightarrow> 's server_builder \<Rightarrow>
   (setup_error + ('i, 's, 'a, 'k, 'p, 'c) p2p_server) option" where
  "builder_bind C io addr b =
     do {
       tls \<leftarrow> (case b_tls_config b of
                Some t \<Rightarrow> Some t
              | None \<Rightarrow> Option.bind (b_secret_key b) (tls_config_new C));
       Some (case (make_client_config (config_accepts io) tls (b_alpn_protocols b),
                   make_server_config (config_accepts io) tls (b_alpn_protocols b)) of
               (Some client_config, Some server_config) \<Rightarrow>
                 (case create_endpoint io addr of
                    Inl e \<Rightarrow> Inl e
                  | Inr (endpoint, stun) \<Rightarrow>
                      (case get_local_ip io of
                         None \<Rightarrow> Inl LocalIpFailed
                       | Some local_ip \<Rightarrow>
                           (case local_port io endpoint of
                              None \<Rightarrow> Inl LocalIpFailed
                            | Some port \<Rightarrow>
                                Inr \<lparr>srv_addresses = {stun, (local_ip, port)}, srv_tls_config = tls,
                                  srv_client_config = client_config, srv_server_config = server_config,
                                  server_is_running = False, srv_handle = server_new\<rparr>)))
             | _ \<Rightarrow> Inl ConfigFailed)
     }"

section \<open>Accepting connections\<close>

text \<open>What the endpoint yields: a connection, a handshake that failed, or its end.\<close>

datatype 'c incoming = Established 'c | HandshakeFailed | EndpointClosed

text \<open>The connections for which a handler was spawned, and whether the loop has ended.\<close>

fun start_server :: "'c incoming list \<Rightarrow> 'c list \<times> bool" where
  "start_server [] = ([], False)"
| "start_server (Established c # xs) = (let (cs, done) = start_server xs in (c # cs, done))"
| "start_server (HandshakeFailed # xs) = start_server xs"
| "start_server (EndpointClosed # xs) = ([], True)"

text \<open>Polling spawns the loop the first time only; the state says how many loops were spawned.\<close>

definition server_poll ::
  "('i, 's, 'a, 'k, 'p, 'c) p2p_server \<times> nat \<Rightarrow> ('i, 's, 'a, 'k, 'p, 'c) p2p_server \<times> nat" where
  "server_poll ps =
     (let (server, loops) = ps in
      if \<not> server_is_running server then (server\<lparr>server_is_running := True\<rparr>, loops + 1) else (server, loops))"

section \<open>What set-up gives\<close>

definition first_answer :: "'a setup_io \<Rightarrow> string list \<Rightarrow> 'a \<Rightarrow> bool" where
  "first_answer io servers ip \<longleftrightarrow>
     (\<exists>pre x post. servers = pre @ x # post \<and> (\<forall>y \<in> set pre. \<exists>e. get_external_ip_from_stun io y = Inl e) \<and>
        get_external_ip_from_stun io x = Inr ip)"

lemma first_answer_Cons:
  "first_answer io (x # xs) ip \<longleftrightarrow> get_external_ip_from_stun io x = Inr ip \<or>
     (\<exists>e. get_external_ip_from_stun io x = Inl e) \<and> first_answer io xs ip"
proof
  assume "first_answer io (x # xs) ip"
  then obtain pre y post where h: "x # xs = pre @ y # post" "get_external_ip_from_stun io y = Inr ip"
    "\<forall>y \<in> set pre. \<exists>e. get_external_ip_from_stun io y = Inl e" unfolding first_answer_def by blast
  then show "get_external_ip_from_stun io x = Inr ip \<or>
     (\<exists>e. get_external_ip_from_stun io x = Inl e) \<and> first_answer io xs ip"
    by (cases pre) (auto simp: first_answer_def)
next
  assume "get_external_ip_from_stun io x = Inr ip \<or>
     (\<exists>e. get_external_ip_from_stun io x = Inl e) \<and> first_answer io xs ip"
  then show "first_answer io (x # xs) ip"
    unfolding first_answer_def by (metis append_Cons append_Nil empty_iff list.set(1) set_ConsD)
qed

lemma try_stun_servers_Inr: "try_stun_servers io servers e = Inr ip \<longleftrightarrow> first_answer io servers ip"
proof (induction servers arbitrary: e)
  case Nil
  then show ?case by (simp add: first_answer_def split: option.split)
next
  case (Cons x xs)
  then show ?case by (cases "get_external_ip_from_stun io x") (auto simp: first_answer_Cons)
qed

lemma try_stun_servers_Inl:
  "try_stun_servers io (servers @ [s]) e = Inl err \<longleftrightarrow>
     (\<forall>x \<in> set servers. \<exists>e. get_external_ip_from_stun io x = Inl e) \<and> get_external_ip_from_stun io s = Inl err"
  by (induction servers arbitrary: e) (auto split: sum.split)

text \<open>What binding a builder that has a key comes to, and the server that comes out of it.\<close>

definition bound_server ::
  "('i \<times> nat) \<Rightarrow> ('i \<times> nat) \<Rightarrow> 's tls_config \<Rightarrow> string list \<Rightarrow> ('i, 's, 'a, 'k, 'p, 'c) p2p_server" where
  "bound_server stun local tls ps =
     \<lparr>srv_addresses = {stun, local}, srv_tls_config = tls,
      srv_client_config = \<lparr>cl_certificate_verifier = server_verifier tls, cl_cert_resolver = cert_resolver tls,
        cl_alpn_protocols = ps\<rparr>,
      srv_server_config = \<lparr>sv_client_cert_verifier = client_verifier tls, sv_cert_resolver = cert_resolver tls,
        sv_alpn_protocols = ps, keep_alive_interval = Some (from_secs 2)\<rparr>,
      server_is_running = False, srv_handle = server_new\<rparr>"

definition keyed_builder :: "'s secret_key \<Rightarrow> string list \<Rightarrow> 's server_builder" where
  "keyed_builder s ps = builder_alpn_protocols ps (builder_secret_key s builder_default)"

lemma tls_config_new_returns:
  assumes "crypto_ok C"
  obtains tls where "tls_config_new C s = Some tls"
  using crypto_okD(8) [OF assms] by (auto simp: tls_config_new_def always_resolves_cert_new_def)

lemma create_endpoint_Inr:
  "create_endpoint io addr = Inr (socket, stun) \<longleftrightarrow>
     bind_socket io (case addr of Some a \<Rightarrow> a | None \<Rightarrow> unspecified io) = Some socket \<and> endpoint_of io socket \<and>
     first_answer (socket_io io socket) PUB_STUN stun"
  unfolding try_stun_servers_Inr [where e = None, symmetric]
  by (auto simp: create_endpoint_def stun_addr_def Let_def split: option.split sum.split)

lemma builder_bind_returns:
  assumes "crypto_ok C"
  obtains r where "builder_bind C io addr (keyed_builder s ps) = Some r"
proof -
  obtain tls where "tls_config_new C s = Some tls" by (rule tls_config_new_returns [OF assms])
  then show thesis
    by (intro that) (simp add: builder_bind_def keyed_builder_def builder_alpn_protocols_def builder_secret_key_def
        builder_default_def)
qed

lemma builder_bind_Inr:
  "builder_bind C io addr (keyed_builder s ps) = Some (Inr server) \<longleftrightarrow>
     (\<exists>socket stun ip port tls. config_accepts io ps \<and> create_endpoint io addr = Inr (socket, stun) \<and>
        get_local_ip io = Some ip \<and> local_port io socket = Some port \<and> tls_config_new C s = Some tls \<and>
        server = bound_server stun (ip, port) tls ps)"
  by (cases "config_accepts io ps"; cases "tls_config_new C s")
    (auto simp: builder_bind_def keyed_builder_def builder_alpn_protocols_def builder_secret_key_def
      builder_default_def bound_server_def make_client_config_def make_server_config_def
      split: option.splits sum.splits)

lemma server_poll_once:
  assumes "\<not> server_is_running server"
  shows "(server_poll ^^ Suc n) (server, 0) = (server\<lparr>server_is_running := True\<rparr>, 1)"
  using assms by (induction n) (simp_all add: server_poll_def)

text \<open>
  Setting a server up.  With a key the builder never panics; it gives a server exactly when
  the protocols are accepted, a socket, an endpoint, a local address and a public address can be
  had, and the server is then known under the public and the local address, is not yet running
  and has no node and no connection; both its configurations present the key.  The public address is the
  answer of the first STUN server that gives one; the loop that accepts connections is
  started once, however often the server is polled.
\<close>

theorem builder_binds_server:
  assumes "crypto_ok C"
  shows "\<exists>r. (builder_bind C io addr (keyed_builder s ps) ::
      (setup_error + ('i, 's, 'a, 'k, 'p, 'c) p2p_server) option) = Some r \<and>
    (\<forall>server. r = Inr server \<longleftrightarrow>
      (\<exists>socket stun ip port tls. config_accepts io ps \<and>
         bind_socket io (case addr of Some a \<Rightarrow> a | None \<Rightarrow> unspecified io) = Some socket \<and> endpoint_of io socket \<and>
         first_answer (socket_io io socket) PUB_STUN stun \<and>
         get_local_ip io = Some ip \<and> local_port io socket = Some port \<and> tls_config_new C s = Some tls \<and>
         server = bound_server stun (ip, port) tls ps)) \<and>
    (\<forall>server n. r = Inr server \<longrightarrow> snd ((server_poll ^^ Suc n) (server, 0)) = 1)"
proof -
  obtain r where r: "(builder_bind C io addr (keyed_builder s ps) ::
      (setup_error + ('i, 's, 'a, 'k, 'p, 'c) p2p_server) option) = Some r"
    by (rule builder_bind_returns [OF assms])
  have iff: "r = Inr server \<longleftrightarrow> (\<exists>socket stun ip port tls. config_accepts io ps \<and>
      create_endpoint io addr = Inr (socket, stun) \<and> get_local_ip io = Some ip \<and>
      local_port io socket = Some port \<and> tls_config_new C s = Some tls \<and>
      server = bound_server stun (ip, port) tls ps)" for server
    using builder_bind_Inr [of C io addr s ps server] by (simp add: r)
  have once: "snd ((server_poll ^^ Suc n) (server, 0)) = 1" if "r = Inr server" for server n
  proof -
    have "\<not> server_is_running server" using that by (auto simp: iff bound_server_def)
    from server_poll_once [OF this, of n] show ?thesis by (simp only: snd_conv)
  qed
  show ?thesis using r iff [unfolded create_endpoint_Inr conj_assoc] once by blast
qed

definition demo_stun :: "(nat \<times> nat) setup_io" where
  "demo_stun = \<lparr>to_socket_addrs = (\<lambda>s. if s = ''stun.chat.bilibili.com:3478'' then None else Some [(1, 3478)]),
     stun_request = (\<lambda>_. StunResponse True [OtherAttribute, MappedAddress (7, 7), XorMappedAddress (8, 4433)])\<rparr>"

definition demo_io :: "(nat, nat) endpoint_io" where
  "demo_io = \<lparr>unspecified = (0, 0), bind_socket = (\<lambda>_. Some 3), socket_io = (\<lambda>_. demo_stun),
     endpoint_of = (\<lambda>_. True), local_port = (\<lambda>_. Some 4433), get_local_ip = Some 5, config_accepts = (\<lambda>_. True)\<rparr>"

lemma demo_builder_bind:
  "\<exists>tls. builder_bind demo_crypto demo_io None (keyed_builder (SecretKey True) ps) =
     Some (Inr (bound_server (8, 4433) (5, 4433) tls ps))"
proof -
  obtain tls where "tls_config_new demo_crypto (SecretKey True) = Some tls"
    by (rule tls_config_new_returns [OF demo_crypto_ok])
  moreover have "create_endpoint demo_io None = Inr (3, 8, 4433)" by code_simp
  ultimately show ?thesis by (intro exI [of _ tls]) (simp add: builder_bind_Inr, simp add: demo_io_def)
qed

theorem builder_binds_server_witness:
  "\<exists>server. (builder_bind demo_crypto demo_io None (keyed_builder (SecretKey True) [''quic-p2p-v2'']) ::
        (setup_error + (nat, bool, nat, nat, string, nat) p2p_server) option) = Some (Inr server) \<and>
     srv_addresses server = {(8, 4433), (5, 4433)} \<and> snd ((server_poll ^^ 3) (server, 0)) = 1"
proof -
  obtain tls where server: "(builder_bind demo_crypto demo_io None (keyed_builder (SecretKey True) [''quic-p2p-v2'']) ::
      (setup_error + (nat, bool, nat, nat, string, nat) p2p_server) option) =
        Some (Inr (bound_server (8, 4433) (5, 4433) tls [''quic-p2p-v2'']))"
    using demo_builder_bind by blast
  have "\<exists>r. (builder_bind demo_crypto demo_io None (keyed_builder (SecretKey True) [''quic-p2p-v2'']) ::
      (setup_error + (nat, bool, nat, nat, string, nat) p2p_server) option) = Some r \<and>
      (\<forall>server n. r = Inr server \<longrightarrow> snd ((server_poll ^^ Suc n) (server, 0)) = 1)"
    using builder_binds_server [OF demo_crypto_ok, of demo_io None "SecretKey True" "[''quic-p2p-v2'']"]
    by (elim exE conjE) (intro exI conjI; assumption)
  then have "snd ((server_poll ^^ Suc 2) (bound_server (8, 4433) (5, 4433) tls [''quic-p2p-v2''] ::
      (nat, bool, nat, nat, string, nat) p2p_server, 0)) = 1" unfolding server option.inject by blast
  then show ?thesis using server by (simp add: eval_nat_numeral bound_server_def)
qed

end
