(* ===== verification/Text_Input.thy ===== *)
theory Text_Input
  imports Prelude
begin

text \<open>
  The input line of the user interface (\<^verbatim>\<open>model/input_view_model.rs\<close>).  A Rust \<^verbatim>\<open>String\<close> is UTF-8
  text: its characters are code points, and \<^verbatim>\<open>String::insert\<close> works on byte offsets and panics
  between two bytes of a character.  The editor keeps its cursor as a number of characters and
  converts it to a byte offset when it inserts.
\<close>

section \<open>Text\<close>

type_synonym rchar = nat
type_synonym rstring = "rchar list"

definition utf8_len :: "rchar \<Rightarrow> nat" where
  "utf8_len c = (if c < 128 then 1 else if c < 2048 then 2 else if c < 65536 then 3 else 4)"

definition str_len :: "rstring \<Rightarrow> nat" where
  "str_len s = sum_list (map utf8_len s)"

fun char_indices :: "nat \<Rightarrow> rstring \<Rightarrow> (nat \<times> rchar) list" where
  "char_indices off [] = []"
| "char_indices off (c # cs) = (off, c) # char_indices (off + utf8_len c) cs"

fun str_insert :: "nat \<Rightarrow> rchar \<Rightarrow> rstring \<Rightarrow> rstring option" where
  "str_insert 0 c s = Some (c # s)"
| "str_insert (Suc n) c [] = None"
| "str_insert (Suc n) c (x # xs) =
     (if utf8_len x \<le> Suc n then map_option (Cons x) (str_insert (Suc n - utf8_len x) c xs) else None)"

definition USIZE_MAX :: nat where
  "USIZE_MAX = 2 ^ 64 - 1"

definition usize_saturating_add :: "nat \<Rightarrow> nat \<Rightarrow> nat" where
  "usize_saturating_add a b = min (a + b) USIZE_MAX"

section \<open>The editor\<close>

datatype input_mode = Normal | Editing

record input_vm =
  in_myself_id :: rstring
  input :: rstring
  input_mode :: input_mode
  character_index :: nat

definition input_vm_new :: "rstring \<Rightarrow> input_vm" where
  "input_vm_new myself_id = \<lparr>in_myself_id = myself_id, input = [], input_mode = Normal, character_index = 0\<rparr>"

definition clamp_cursor :: "input_vm \<Rightarrow> nat \<Rightarrow> nat" where
  "clamp_cursor m new_cursor_pos = min new_cursor_pos (length (input m))"

definition move_cursor_left :: "input_vm \<Rightarrow> input_vm" where
  "move_cursor_left m = m\<lparr>character_index := clamp_cursor m (character_index m - 1)\<rparr>"

definition move_cursor_right :: "input_vm \<Rightarrow> input_vm" where
  "move_cursor_right m = m\<lparr>character_index := clamp_cursor m (usize_saturating_add (character_index m) 1)\<rparr>"

definition byte_index :: "input_vm \<Rightarrow> nat" where
  "byte_index m =
     (let is = map fst (char_indices 0 (input m)) in
      if character_index m < length is then is ! character_index m else str_len (input m))"

definition enter_char :: "rchar \<Rightarrow> input_vm \<Rightarrow> input_vm option" where
  "enter_char new_char m =
     map_option (\<lambda>s. move_cursor_right (m\<lparr>input := s\<rparr>)) (str_insert (byte_index m) new_char (input m))"

definition delete_char :: "input_vm \<Rightarrow> input_vm" where
  "delete_char m =
     (if character_index m \<noteq> 0
      then move_cursor_left
        (m\<lparr>input := take (character_index m - 1) (input m) @ drop (character_index m) (input m)\<rparr>)
      else m)"

definition reset_cursor :: "input_vm \<Rightarrow> input_vm" where
  "reset_cursor m = m\<lparr>character_index := 0\<rparr>"

text \<open>The text that is sent, and the cleared editor.\<close>

definition submit_input :: "input_vm \<Rightarrow> rstring \<times> input_vm" where
  "submit_input m = (input m, reset_cursor (m\<lparr>input := []\<rparr>))"

section \<open>Correctness\<close>

definition editor_ok :: "input_vm \<Rightarrow> bool" where
  "editor_ok m \<longleftrightarrow> character_index m \<le> length (input m) \<and> length (input m) < 2 ^ 63"

lemma char_indices_offsets:
  "map fst (char_indices off s) = map (\<lambda>i. off + str_len (take i s)) [0..<length s]"
proof (induction s arbitrary: off)
  case (Cons c s)
  have "[0..<length (c # s)] = 0 # map Suc [0..<length s]" by (simp add: upt_conv_Cons map_Suc_upt del: upt_Suc)
  then show ?case using Cons by (simp add: str_len_def comp_def add.assoc del: upt_Suc)
qed simp

lemma byte_index_eq:
  "character_index m \<le> length (input m) \<Longrightarrow> byte_index m = str_len (take (character_index m) (input m))"
  using arg_cong [OF char_indices_offsets [of 0 "input m"], of length]
  by (simp add: byte_index_def char_indices_offsets)

lemma utf8_len_pos: "utf8_len c = Suc (utf8_len c - 1)"
  by (simp add: utf8_len_def)

lemma str_insert_at:
  "i \<le> length s \<Longrightarrow> str_insert (str_len (take i s)) c s = Some (take i s @ c # drop i s)"
proof (induction s arbitrary: i)
  case (Cons x s)
  show ?case
  proof (cases i)
    case (Suc j)
    have "str_len (take i (x # s)) = Suc (utf8_len x - 1 + str_len (take j s))"
      using utf8_len_pos [of x] Suc by (simp add: str_len_def)
    moreover have "utf8_len x \<le> Suc (utf8_len x - 1 + str_len (take j s))"
      "Suc (utf8_len x - 1 + str_len (take j s)) - utf8_len x = str_len (take j s)"
      using utf8_len_pos [of x] by linarith+
    ultimately show ?thesis using Cons Suc by simp
  qed (simp add: str_len_def)
qed (simp add: str_len_def)

text \<open>
  C32. The input line edits text correctly for every script.  The cursor never leaves the text.
  Typing a character never hits the middle of another one: it is inserted at the cursor,
  whatever the widths of the characters around it, and the cursor moves behind it; deleting
  it again gives back the text and the cursor as they were.  Submitting hands out the whole
  text and clears the line.
\<close>

theorem editing_is_correct:
  assumes "editor_ok m" "length (input m) + 1 < 2 ^ 63"
  shows "\<exists>m'. enter_char c m = Some m' \<and>
      input m' = take (character_index m) (input m) @ c # drop (character_index m) (input m) \<and>
      character_index m' = character_index m + 1 \<and> editor_ok m' \<and> delete_char m' = m \<and>
      editor_ok (move_cursor_left m) \<and> editor_ok (move_cursor_right m) \<and> editor_ok (delete_char m) \<and>
      (let (s, m'') = submit_input m' in s = input m' \<and> input m'' = [] \<and> editor_ok m'')"
proof -
  let ?i = "character_index m" and ?s = "take (character_index m) (input m) @ c # drop (character_index m) (input m)"
  have i: "?i \<le> length (input m)" using assms(1) by (simp add: editor_ok_def)
  have sat: "usize_saturating_add ?i 1 = ?i + 1"
    using i assms(2) by (simp add: usize_saturating_add_def USIZE_MAX_def)
  let ?m' = "m\<lparr>input := ?s, character_index := ?i + 1\<rparr>"
  have enter: "enter_char c m = Some ?m'"
    using i sat by (simp add: enter_char_def byte_index_eq str_insert_at move_cursor_right_def clamp_cursor_def)
  moreover have "delete_char ?m' = m"
    using i by (simp add: delete_char_def move_cursor_left_def clamp_cursor_def)
  moreover have "editor_ok ?m'" using i assms(2) by (simp add: editor_ok_def)
  moreover have "editor_ok (move_cursor_left m)" "editor_ok (move_cursor_right m)" "editor_ok (delete_char m)"
    using assms(1) by (auto simp: editor_ok_def move_cursor_left_def move_cursor_right_def delete_char_def
        clamp_cursor_def)
  ultimately show ?thesis by (auto simp: submit_input_def reset_cursor_def editor_ok_def)
qed

text \<open>The editor of the repository's own test: two Chinese characters around a Latin letter.\<close>

definition example_editor :: input_vm where
  "example_editor = \<lparr>in_myself_id = [49, 49], input = [20320, 22909], input_mode = Editing, character_index = 1\<rparr>"

theorem editing_is_correct_witness:
  "\<exists>m'. enter_char 104 example_editor = Some m' \<and> input m' = [20320, 104, 22909] \<and> character_index m' = 2 \<and>
     delete_char m' = example_editor"
  using editing_is_correct [of example_editor 104] by (auto simp: editor_ok_def example_editor_def)

end
