(* ===== verification/Markdown_Render.thy ===== *)
theory Markdown_Render
  imports Text_Input "HOL-Library.Sublist"
begin

text \<open>
  The terminal renderer for markdown (\<^verbatim>\<open>gpt/render.rs\<close>).  It walks over the JSON form of a
  syntax tree that a library made from the text, and keeps three global variables: a stack of
  item counters, a stack that says which of the open lists are ordered, and the indentation.

  The state of the model holds these variables and what was written to the terminal.  Failing
  writes and poisoned locks are not modelled.
\<close>

section \<open>JSON\<close>

datatype json =
    JNull
  | JBool bool
  | JNum nat
  | JStr rstring
  | JArr "json list"
  | JObj "(string \<times> json) list"

text \<open>Indexing a value by a key gives null when it is no object or has no such key.\<close>

definition json_get :: "string \<Rightarrow> json \<Rightarrow> json" where
  "json_get k v =
     (case v of
        JObj kvs \<Rightarrow> (case map_of kvs k of Some x \<Rightarrow> x | None \<Rightarrow> JNull)
      | _ \<Rightarrow> JNull)"

definition as_array :: "json \<Rightarrow> json list option" where
  "as_array v = (case v of JArr xs \<Rightarrow> Some xs | _ \<Rightarrow> None)"

definition as_str :: "json \<Rightarrow> rstring option" where
  "as_str v = (case v of JStr s \<Rightarrow> Some s | _ \<Rightarrow> None)"

definition as_bool :: "json \<Rightarrow> bool option" where
  "as_bool v = (case v of JBool b \<Rightarrow> Some b | _ \<Rightarrow> None)"

definition node_children :: "json \<Rightarrow> json list" where
  "node_children node = (case as_array (json_get ''children'' node) of Some xs \<Rightarrow> xs | None \<Rightarrow> [])"

section \<open>State\<close>

datatype style = HeadingStyle | StrongStyle | OrderedStyle | BulletStyle | CheckedStyle | UncheckedStyle

text \<open>\<open>ReportUnsupported\<close> is the line that names an unsupported node type.\<close>

datatype term_output = Print rstring | SetColor style | ResetColor | ReportUnsupported json

record renderer =
  LIST_STACK :: "nat list"
  ORDERED_LIST_STACK :: "bool list"
  CONTENT_INDENT_LEVEL :: nat
  written :: "term_output list"

definition emit :: "term_output list \<Rightarrow> renderer \<Rightarrow> renderer" where
  "emit os st = st\<lparr>written := written st @ os\<rparr>"

definition chars :: "string \<Rightarrow> rstring" where
  "chars s = map of_char s"

fun digits :: "nat \<Rightarrow> rstring" where
  "digits n = (if n < 10 then [48 + n] else digits (n div 10) @ [48 + n mod 10])"

text \<open>A number in a field of at least two characters.\<close>

definition pad2 :: "nat \<Rightarrow> rstring" where
  "pad2 n = (let d = digits n in if length d < 2 then 32 # d else d)"

definition get_indent :: "renderer \<Rightarrow> rstring" where
  "get_indent st = concat (replicate (CONTENT_INDENT_LEVEL st) [32, 32])"

definition is_whitespace :: "rchar \<Rightarrow> bool" where
  "is_whitespace c \<longleftrightarrow> 9 \<le> c \<and> c \<le> 13 \<or> c \<in> {32, 133, 160, 5760, 8232, 8233, 8239, 8287, 12288} \<or>
     8192 \<le> c \<and> c \<le> 8202"

fun split_words :: "rstring \<Rightarrow> rstring \<Rightarrow> rstring list" where
  "split_words acc [] = (if acc = [] then [] else [acc])"
| "split_words acc (c # cs) =
     (if is_whitespace c then (if acc = [] then [] else [acc]) @ split_words [] cs
      else split_words (acc @ [c]) cs)"

definition split_whitespace :: "rstring \<Rightarrow> rstring list" where
  "split_whitespace s = split_words [] s"

section \<open>Rendering\<close>

text \<open>The argument \<open>children\<close> renders the children of the node.\<close>

definition render_heading :: "(renderer \<Rightarrow> renderer) \<Rightarrow> renderer \<Rightarrow> renderer" where
  "render_heading children st =
     emit [ResetColor, Print [10]] (children (emit [SetColor HeadingStyle] st))"

definition render_text :: "json \<Rightarrow> renderer \<Rightarrow> renderer" where
  "render_text node st =
     (let text = (case as_str (json_get ''value'' node) of Some s \<Rightarrow> s | None \<Rightarrow> []);
          words = split_whitespace text
      in emit (concat (map (\<lambda>(i, word). (if i > 0 then [Print [32]] else []) @ [Print word]) (enumerate 0 words))) st)"

definition render_paragraph :: "(renderer \<Rightarrow> renderer) \<Rightarrow> renderer \<Rightarrow> renderer" where
  "render_paragraph children st =
     emit [Print [10]] (children (if LIST_STACK st = [] then emit [Print (get_indent st)] st else st))"

definition render_list :: "(renderer \<Rightarrow> renderer) \<Rightarrow> json \<Rightarrow> renderer \<Rightarrow> renderer" where
  "render_list children node st =
     (let is_ordered = (case as_bool (json_get ''ordered'' node) of Some b \<Rightarrow> b | None \<Rightarrow> False);
          st = children (st\<lparr>LIST_STACK := LIST_STACK st @ [0],
                 ORDERED_LIST_STACK := ORDERED_LIST_STACK st @ [is_ordered]\<rparr>)
      in st\<lparr>LIST_STACK := butlast (LIST_STACK st), ORDERED_LIST_STACK := butlast (ORDERED_LIST_STACK st)\<rparr>)"

definition render_task_list_item_checkbox :: "bool \<Rightarrow> renderer \<Rightarrow> renderer" where
  "render_task_list_item_checkbox checked st =
     emit [SetColor (if checked then CheckedStyle else UncheckedStyle), Print [32, 32], ResetColor] st"

text \<open>The item's number or bullet; the counter of the innermost list goes up.\<close>

definition item_mark :: "renderer \<Rightarrow> renderer" where
  "item_mark st =
     (if LIST_STACK st \<noteq> []
      then let index = last (LIST_STACK st) + 1;
               st' = st\<lparr>LIST_STACK := butlast (LIST_STACK st) @ [index]\<rparr>
           in if ORDERED_LIST_STACK st \<noteq> [] \<and> last (ORDERED_LIST_STACK st)
              then emit [SetColor OrderedStyle, Print (pad2 index @ chars ''. '')] st'
              else emit [SetColor BulletStyle, Print [8226, 32]] st'
      else emit [SetColor BulletStyle, Print [8226, 32]] st)"

definition render_list_item :: "(renderer \<Rightarrow> renderer) \<Rightarrow> json \<Rightarrow> renderer \<Rightarrow> renderer" where
  "render_list_item children node st =
     (let st = emit [ResetColor] (item_mark (emit [Print (get_indent st)] st));
          st = (case as_bool (json_get ''checked'' node) of
                  Some checked \<Rightarrow> render_task_list_item_checkbox checked st
                | None \<Rightarrow> st);
          st = children (st\<lparr>CONTENT_INDENT_LEVEL := CONTENT_INDENT_LEVEL st + 1\<rparr>)
      in st\<lparr>CONTENT_INDENT_LEVEL := CONTENT_INDENT_LEVEL st - 1\<rparr>)"

definition render_strong :: "(renderer \<Rightarrow> renderer) \<Rightarrow> renderer \<Rightarrow> renderer" where
  "render_strong children st = emit [ResetColor] (children (emit [SetColor StrongStyle] st))"

datatype kind = Root | Heading | Paragraph | Text | ListNode | ListItem | Strong | Unsupported

definition node_kind :: "json \<Rightarrow> kind" where
  "node_kind node =
     (case as_str (json_get ''type'' node) of
        None \<Rightarrow> Unsupported
      | Some s \<Rightarrow>
          if s = chars ''root'' then Root
          else if s = chars ''heading'' then Heading
          else if s = chars ''paragraph'' then Paragraph
          else if s = chars ''text'' then Text
          else if s = chars ''list'' then ListNode
          else if s = chars ''listItem'' then ListItem
          else if s = chars ''strong'' then Strong
          else Unsupported)"

definition render_one :: "(renderer \<Rightarrow> renderer) \<Rightarrow> json \<Rightarrow> renderer \<Rightarrow> renderer" where
  "render_one children node st =
     (case node_kind node of
        Root \<Rightarrow> children st
      | Heading \<Rightarrow> render_heading children st
      | Paragraph \<Rightarrow> render_paragraph children st
      | Text \<Rightarrow> render_text node st
      | ListNode \<Rightarrow> render_list children node st
      | ListItem \<Rightarrow> render_list_item children node st
      | Strong \<Rightarrow> render_strong children st
      | Unsupported \<Rightarrow> emit [ReportUnsupported (json_get ''type'' node)] st)"

lemma node_children_size: "size_list size (node_children node) \<le> size node"
proof -
  have "size_list size xs \<le> size (JObj kvs)" if "map_of kvs k = Some (JArr xs)" for kvs k xs
  proof -
    have "(k, JArr xs) \<in> set kvs" using that by (rule map_of_SomeD)
    then show ?thesis by (induction kvs) auto
  qed
  then show ?thesis
    by (auto simp: node_children_def as_array_def json_get_def split: json.split option.split)
qed

lemma node_children_less: "size_list size (node_children node) < Suc (size node + k)"
  using node_children_size [of node] by simp

text \<open>\<^verbatim>\<open>render_children\<close>: the nodes one after the other.\<close>

function render_nodes :: "json list \<Rightarrow> renderer \<Rightarrow> renderer" where
  "render_nodes [] st = st"
| "render_nodes (node # nodes) st =
     render_nodes nodes (render_one (\<lambda>st. render_nodes (node_children node) st) node st)"
  by pat_completeness auto
termination
  by (relation "measure (\<lambda>(ns, st). size_list size ns)") (auto simp: node_children_less)

definition render_node :: "json \<Rightarrow> renderer \<Rightarrow> renderer" where
  "render_node node st = render_one (render_nodes (node_children node)) node st"

section \<open>Correctness\<close>

text \<open>The list items that count in the innermost list open around the nodes.\<close>

function items_of :: "json list \<Rightarrow> nat" where
  "items_of [] = 0"
| "items_of (node # nodes) =
     (case node_kind node of
        Text \<Rightarrow> 0
      | ListNode \<Rightarrow> 0
      | Unsupported \<Rightarrow> 0
      | ListItem \<Rightarrow> Suc (items_of (node_children node))
      | _ \<Rightarrow> items_of (node_children node)) + items_of nodes"
  by pat_completeness auto
termination
  by (relation "measure (size_list size)") (auto simp: node_children_less)

text \<open>A rendering that leaves the variables as it found them, but for the counter of the innermost list.\<close>

definition balanced :: "nat \<Rightarrow> renderer \<Rightarrow> renderer \<Rightarrow> bool" where
  "balanced n st st' \<longleftrightarrow>
     LIST_STACK st' = (if LIST_STACK st = [] then [] else butlast (LIST_STACK st) @ [last (LIST_STACK st) + n]) \<and>
     ORDERED_LIST_STACK st' = ORDERED_LIST_STACK st \<and>
     CONTENT_INDENT_LEVEL st' = CONTENT_INDENT_LEVEL st \<and> prefix (written st) (written st')"

lemma balanced_refl [simp]: "balanced 0 st st"
  by (simp add: balanced_def)

lemma balanced_trans: "balanced m st st' \<Longrightarrow> balanced n st' st'' \<Longrightarrow> balanced (m + n) st st''"
  by (auto simp: balanced_def)

lemma balanced_emit: "balanced 0 st (emit os st)"
  by (simp add: balanced_def emit_def)

lemma balanced_emits:
  "balanced n (emit os st) st' \<Longrightarrow> balanced n st st'"
  "balanced n st st' \<Longrightarrow> balanced n st (emit os st')"
  using balanced_trans [OF balanced_emit, of n os st st'] balanced_trans [OF _ balanced_emit, of n st st' os] by simp_all

lemma item_mark_balanced: "balanced 1 st (item_mark st)"
  by (auto simp: item_mark_def balanced_def emit_def Let_def)

lemma render_list_balanced:
  assumes "\<And>st. balanced n st (children st)"
  shows "balanced 0 st (render_list children node st)"
proof -
  let ?o = "case as_bool (json_get ''ordered'' node) of Some b \<Rightarrow> b | None \<Rightarrow> False"
  let ?st = "st\<lparr>LIST_STACK := LIST_STACK st @ [0], ORDERED_LIST_STACK := ORDERED_LIST_STACK st @ [?o]\<rparr>"
  show ?thesis using assms [of ?st] by (auto simp: render_list_def balanced_def Let_def)
qed

lemma render_list_item_balanced:
  assumes "\<And>st. balanced n st (children st)"
  shows "balanced (Suc n) st (render_list_item children node st)"
proof -
  let ?st = "emit [ResetColor] (item_mark (emit [Print (get_indent st)] st))"
  let ?st2 = "case as_bool (json_get ''checked'' node) of
      Some checked \<Rightarrow> render_task_list_item_checkbox checked ?st | None \<Rightarrow> ?st"
  have 1: "balanced 1 st ?st" using balanced_emits item_mark_balanced by metis
  then have 2: "balanced 1 st ?st2"
    using balanced_emits(2) by (simp add: render_task_list_item_checkbox_def split: option.split)
  let ?st3 = "?st2\<lparr>CONTENT_INDENT_LEVEL := CONTENT_INDENT_LEVEL ?st2 + 1\<rparr>"
  have "balanced n ?st2 ((children ?st3)\<lparr>CONTENT_INDENT_LEVEL := CONTENT_INDENT_LEVEL (children ?st3) - 1\<rparr>)"
    using assms [of ?st3] by (simp add: balanced_def)
  with balanced_trans [OF 2 this] show ?thesis by (simp add: render_list_item_def Let_def)
qed

lemma render_one_balanced:
  assumes "\<And>st. balanced (items_of (node_children node)) st (children st)"
  shows "balanced (items_of [node]) st (render_one children node st)"
proof (cases "node_kind node")
  case Heading
  then show ?thesis
    by (simp add: render_one_def render_heading_def balanced_emits(2) balanced_emits(1) [OF assms] assms)
next
  case Paragraph
  then show ?thesis
    by (simp add: render_one_def render_paragraph_def balanced_emits(2) balanced_emits(1) [OF assms] assms)
next
  case Text
  then show ?thesis using balanced_emit by (simp add: render_one_def render_text_def Let_def)
next
  case ListNode
  then show ?thesis using render_list_balanced [OF assms] by (simp add: render_one_def)
next
  case ListItem
  then show ?thesis using render_list_item_balanced [OF assms] by (simp add: render_one_def)
next
  case Strong
  then show ?thesis
    by (simp add: render_one_def render_strong_def balanced_emits(2) balanced_emits(1) [OF assms] assms)
qed (use assms balanced_emit in \<open>simp_all add: render_one_def\<close>)

lemma render_nodes_balanced: "balanced (items_of nodes) st (render_nodes nodes st)"
proof (induction nodes st rule: render_nodes.induct)
  case (2 node nodes st)
  have "items_of (node # nodes) = items_of [node] + items_of nodes" by simp
  then show ?case
    using balanced_trans [OF render_one_balanced [OF "2.IH"(1)] "2.IH"(2)] by simp
qed simp

lemma render_nodes_append: "render_nodes (xs @ ys) st = render_nodes ys (render_nodes xs st)"
  by (induction xs arbitrary: st) simp_all

section \<open>The layout of a document\<close>

text \<open>
  What the renderer is for, without its global variables: the output of a node is a function of
  the indentation \<open>lv\<close> and of the innermost open list \<open>ol\<close>, whether it is ordered and how many of
  its items have been written.
\<close>

definition layout_mark :: "(bool \<times> nat) option \<Rightarrow> term_output list" where
  "layout_mark ol =
     (case ol of
        Some (True, k) \<Rightarrow> [SetColor OrderedStyle, Print (pad2 (k + 1) @ chars ''. '')]
      | _ \<Rightarrow> [SetColor BulletStyle, Print [8226, 32]])"

definition layout_checkbox :: "json \<Rightarrow> term_output list" where
  "layout_checkbox node =
     (case as_bool (json_get ''checked'' node) of
        Some c \<Rightarrow> [SetColor (if c then CheckedStyle else UncheckedStyle), Print [32, 32], ResetColor]
      | None \<Rightarrow> [])"

definition further :: "nat \<Rightarrow> (bool \<times> nat) option \<Rightarrow> (bool \<times> nat) option" where
  "further n ol = map_option (\<lambda>(ordered, k). (ordered, k + n)) ol"

definition indent_of :: "nat \<Rightarrow> rstring" where
  "indent_of lv = replicate (2 * lv) 32"

definition layout_one ::
  "(nat \<Rightarrow> (bool \<times> nat) option \<Rightarrow> term_output list) \<Rightarrow> nat \<Rightarrow> (bool \<times> nat) option \<Rightarrow> json \<Rightarrow> term_output list" where
  "layout_one kids lv ol node =
     (case node_kind node of
        Root \<Rightarrow> kids lv ol
      | Heading \<Rightarrow> [SetColor HeadingStyle] @ kids lv ol @ [ResetColor, Print [10]]
      | Paragraph \<Rightarrow> (if ol = None then [Print (indent_of lv)] else []) @ kids lv ol @ [Print [10]]
      | Text \<Rightarrow>
          (case as_str (json_get ''value'' node) of
             None \<Rightarrow> []
           | Some text \<Rightarrow>
               (case split_whitespace text of
                  [] \<Rightarrow> []
                | w # ws \<Rightarrow> Print w # concat (map (\<lambda>w. [Print [32], Print w]) ws)))
      | ListNode \<Rightarrow> kids lv (Some (as_bool (json_get ''ordered'' node) = Some True, 0))
      | ListItem \<Rightarrow>
          [Print (indent_of lv)] @ layout_mark ol @ [ResetColor] @ layout_checkbox node @ kids (lv + 1) (further 1 ol)
      | Strong \<Rightarrow> [SetColor StrongStyle] @ kids lv ol @ [ResetColor]
      | Unsupported \<Rightarrow> [ReportUnsupported (json_get ''type'' node)])"

function layout :: "nat \<Rightarrow> (bool \<times> nat) option \<Rightarrow> json list \<Rightarrow> term_output list" where
  "layout lv ol [] = []"
| "layout lv ol (node # nodes) =
     layout_one (\<lambda>lv ol. layout lv ol (node_children node)) lv ol node @
     layout lv (further (items_of [node]) ol) nodes"
  by pat_completeness auto
termination
  by (relation "measure (\<lambda>(lv, ol, ns). size_list size ns)") (auto simp: node_children_less)

definition open_list :: "renderer \<Rightarrow> (bool \<times> nat) option" where
  "open_list st =
     (if LIST_STACK st = [] then None
      else Some (ORDERED_LIST_STACK st \<noteq> [] \<and> last (ORDERED_LIST_STACK st), last (LIST_STACK st)))"

lemma open_list_balanced:
  "balanced n st st' \<Longrightarrow> open_list st' = further n (open_list st)"
  by (simp add: balanced_def open_list_def further_def)

lemma further_0 [simp]: "further 0 ol = ol"
  by (cases ol) (auto simp: further_def)

lemma further_further: "further m (further n ol) = further (n + m) ol"
  by (cases ol) (auto simp: further_def)

lemma get_indent_eq: "get_indent st = indent_of (CONTENT_INDENT_LEVEL st)"
proof -
  have "concat (replicate n [32, 32]) = (replicate (2 * n) 32 :: rstring)" for n by (induction n) simp_all
  then show ?thesis by (simp add: get_indent_def indent_of_def)
qed

lemma open_list_emit [simp]: "open_list (emit os st) = open_list st"
  by (simp add: open_list_def emit_def)

lemma emit_simps [simp]:
  "written (emit os st) = written st @ os" "CONTENT_INDENT_LEVEL (emit os st) = CONTENT_INDENT_LEVEL st"
  "LIST_STACK (emit os st) = LIST_STACK st" "ORDERED_LIST_STACK (emit os st) = ORDERED_LIST_STACK st"
  by (simp_all add: emit_def)

lemma item_mark_layout:
  "written (item_mark st) = written st @ layout_mark (open_list st)"
  "open_list (item_mark st) = further 1 (open_list st)"
  "CONTENT_INDENT_LEVEL (item_mark st) = CONTENT_INDENT_LEVEL st"
  by (auto simp: item_mark_def layout_mark_def open_list_def further_def Let_def split: bool.split)

lemma words_layout:
  "concat (map (\<lambda>(i, w). (if i > 0 then [Print [32]] else []) @ [Print w]) (enumerate (Suc n) ws)) =
   concat (map (\<lambda>w. [Print [32], Print w]) ws)"
  by (induction ws arbitrary: n) simp_all

text \<open>\<open>draws kids f\<close>: rendering the children writes what the layout \<open>f\<close> of the children says.\<close>

definition draws :: "(renderer \<Rightarrow> renderer) \<Rightarrow> (nat \<Rightarrow> (bool \<times> nat) option \<Rightarrow> term_output list) \<Rightarrow> bool" where
  "draws kids f \<longleftrightarrow> (\<forall>st. written (kids st) = written st @ f (CONTENT_INDENT_LEVEL st) (open_list st))"

lemma render_list_item_layout:
  assumes "draws kids f"
  shows "written (render_list_item kids node st) = written st @ [Print (indent_of (CONTENT_INDENT_LEVEL st))] @
    layout_mark (open_list st) @ [ResetColor] @ layout_checkbox node @
    f (CONTENT_INDENT_LEVEL st + 1) (further 1 (open_list st))"
proof -
  let ?st = "emit [ResetColor] (item_mark (emit [Print (get_indent st)] st))"
  let ?st2 = "case as_bool (json_get ''checked'' node) of
      Some checked \<Rightarrow> render_task_list_item_checkbox checked ?st | None \<Rightarrow> ?st"
  let ?st3 = "?st2\<lparr>CONTENT_INDENT_LEVEL := CONTENT_INDENT_LEVEL ?st2 + 1\<rparr>"
  have "written ?st2 = written ?st @ layout_checkbox node \<and> CONTENT_INDENT_LEVEL ?st2 = CONTENT_INDENT_LEVEL st \<and>
      open_list ?st2 = further 1 (open_list st)"
    by (simp add: render_task_list_item_checkbox_def layout_checkbox_def item_mark_layout split: option.split)
  moreover have "open_list ?st3 = open_list ?st2" by (simp add: open_list_def)
  ultimately have "written (kids ?st3) = written ?st @ layout_checkbox node @
      f (CONTENT_INDENT_LEVEL st + 1) (further 1 (open_list st))"
    using assms by (simp add: draws_def)
  then show ?thesis by (simp add: render_list_item_def item_mark_layout Let_def flip: get_indent_eq)
qed

lemma render_one_layout:
  assumes "draws kids f"
  shows "written (render_one kids node st) =
    written st @ layout_one f (CONTENT_INDENT_LEVEL st) (open_list st) node"
proof (cases "node_kind node")
  case ListNode
  let ?o = "case as_bool (json_get ''ordered'' node) of Some b \<Rightarrow> b | None \<Rightarrow> False"
  let ?st = "st\<lparr>LIST_STACK := LIST_STACK st @ [0], ORDERED_LIST_STACK := ORDERED_LIST_STACK st @ [?o]\<rparr>"
  have "open_list ?st = Some (as_bool (json_get ''ordered'' node) = Some True, 0)"
    by (simp add: open_list_def split: option.split)
  then show ?thesis
    using assms [unfolded draws_def, rule_format, of ?st] ListNode
    by (simp add: render_one_def render_list_def layout_one_def Let_def)
next
  case ListItem
  then show ?thesis using render_list_item_layout [OF assms] by (simp add: render_one_def layout_one_def)
next
  case Paragraph
  moreover have "open_list st = None \<longleftrightarrow> LIST_STACK st = []" by (simp add: open_list_def)
  ultimately show ?thesis
    using assms by (simp add: render_one_def render_paragraph_def layout_one_def draws_def get_indent_eq)
next
  case Text
  then show ?thesis
    by (auto simp: render_one_def render_text_def layout_one_def words_layout split_whitespace_def Let_def
        split: option.split list.split)
qed (use assms in \<open>simp_all add: render_one_def layout_one_def draws_def render_heading_def render_strong_def\<close>)

lemma render_nodes_layout:
  "written (render_nodes nodes st) = written st @ layout (CONTENT_INDENT_LEVEL st) (open_list st) nodes"
proof (induction nodes st rule: render_nodes.induct)
  case (2 node nodes st)
  let ?kids = "render_nodes (node_children node)"
  have "draws ?kids (\<lambda>lv ol. layout lv ol (node_children node))" using "2.IH"(1) by (simp add: draws_def)
  note one = render_one_layout [OF this, of node st]
  have "balanced (items_of [node]) st (render_one ?kids node st)"
    by (rule render_one_balanced) (rule render_nodes_balanced)
  then have "open_list (render_one ?kids node st) = further (items_of [node]) (open_list st)"
    "CONTENT_INDENT_LEVEL (render_one ?kids node st) = CONTENT_INDENT_LEVEL st"
    by (simp_all only: open_list_balanced) (simp add: balanced_def)
  then show ?case using "2.IH"(2) one by simp
qed simp

text \<open>A list whose nodes are items, none with a loose item in it that is not in a list of its own.\<close>

definition proper_items :: "json list \<Rightarrow> bool" where
  "proper_items nodes \<longleftrightarrow> (\<forall>y \<in> set nodes. node_kind y = ListItem \<and> items_of (node_children y) = 0)"

definition numbered_item :: "nat \<Rightarrow> nat \<Rightarrow> json \<Rightarrow> term_output list" where
  "numbered_item lv i item =
     [Print (indent_of lv), SetColor OrderedStyle, Print (pad2 i @ chars ''. ''), ResetColor] @
     layout_checkbox item @ layout (lv + 1) (Some (True, i)) (node_children item)"

lemma layout_items:
  "proper_items nodes \<Longrightarrow> layout lv (Some (True, k)) nodes =
     concat (map (\<lambda>(i, y). numbered_item lv (i + 1) y) (enumerate k nodes))"
  by (induction nodes arbitrary: k)
    (auto simp: proper_items_def layout_one_def layout_mark_def further_def numbered_item_def)

text \<open>
  C35. Markdown is laid out properly.  Whatever the state of its variables is, rendering a node
  leaves the indentation and the two stacks as they were, but for the counter of the innermost
  list when the node is or holds an item of it, and writes the layout of the node.  The layout of an ordered list is
  that of its items one after the other: each has the indentation of the list, then its own
  number, counted from one whatever lists are nested in the items before it, then its check
  box, and after these its contents, one step further in.
\<close>

theorem ordered_items_are_numbered:
  "written (render_node node st) = written st @ layout (CONTENT_INDENT_LEVEL st) (open_list st) [node] \<and>
   (items_of [node] = 0 \<longrightarrow> LIST_STACK (render_node node st) = LIST_STACK st) \<and>
   length (LIST_STACK (render_node node st)) = length (LIST_STACK st) \<and>
   ORDERED_LIST_STACK (render_node node st) = ORDERED_LIST_STACK st \<and>
   CONTENT_INDENT_LEVEL (render_node node st) = CONTENT_INDENT_LEVEL st \<and>
   (node_kind node = ListNode \<and> json_get ''ordered'' node = JBool True \<and> proper_items (node_children node) \<longrightarrow>
      written (render_node node st) = written st @
        concat (map (\<lambda>(i, item). numbered_item (CONTENT_INDENT_LEVEL st) (i + 1) item) (enumerate 0 (node_children node))))"
proof -
  have node: "render_node node st = render_nodes [node] st" by (simp add: render_node_def)
  have bal: "balanced (items_of [node]) st (render_node node st)" unfolding node by (rule render_nodes_balanced)
  have "LIST_STACK (render_node node st) = LIST_STACK st" if "items_of [node] = 0"
    using bal that by (simp add: balanced_def)
  moreover have "layout lv ol [node] =
      concat (map (\<lambda>(i, item). numbered_item lv (i + 1) item) (enumerate 0 (node_children node)))"
    if "node_kind node = ListNode" "json_get ''ordered'' node = JBool True" "proper_items (node_children node)" for lv ol
    using that layout_items [OF that(3), of lv 0] by (simp add: layout_one_def as_bool_def)
  moreover have "written (render_node node st) = written st @ layout (CONTENT_INDENT_LEVEL st) (open_list st) [node]"
    unfolding node by (rule render_nodes_layout)
  ultimately show ?thesis using bal by (auto simp: balanced_def)
qed

definition text_item :: "string \<Rightarrow> json" where
  "text_item s = JObj [(''type'', JStr (chars ''listItem'')), (''children'',
     JArr [JObj [(''type'', JStr (chars ''text'')), (''value'', JStr (chars s))]])]"

definition ordered_list :: json where
  "ordered_list = JObj [(''type'', JStr (chars ''list'')), (''ordered'', JBool True),
     (''children'', JArr [text_item ''a'', text_item ''b''])]"

theorem ordered_items_are_numbered_witness:
  "written (render_node ordered_list \<lparr>LIST_STACK = [], ORDERED_LIST_STACK = [], CONTENT_INDENT_LEVEL = 1, written = []\<rparr>)
     = [Print [32, 32], SetColor OrderedStyle, Print (chars '' 1. ''), ResetColor, Print (chars ''a''),
        Print [32, 32], SetColor OrderedStyle, Print (chars '' 2. ''), ResetColor, Print (chars ''b'')]"
proof -
  let ?st = "\<lparr>LIST_STACK = [], ORDERED_LIST_STACK = [], CONTENT_INDENT_LEVEL = 1, written = []\<rparr>"
  have kids: "node_children ordered_list = [text_item ''a'', text_item ''b'']"
    by (simp add: ordered_list_def json_get_def as_array_def node_children_def)
  have kind: "node_kind ordered_list = ListNode" "json_get ''ordered'' ordered_list = JBool True"
    by (simp_all add: ordered_list_def node_kind_def json_get_def as_str_def chars_def)
  have "proper_items (node_children ordered_list)"
    unfolding kids
    by (simp add: proper_items_def text_item_def node_kind_def json_get_def as_str_def as_array_def
        node_children_def chars_def)
  then have "written (render_node ordered_list ?st) = written ?st @ concat (map (\<lambda>(i, item).
      numbered_item (CONTENT_INDENT_LEVEL ?st) (i + 1) item) (enumerate 0 (node_children ordered_list)))"
    using ordered_items_are_numbered [of ordered_list ?st] kind by blast
  then have "written (render_node ordered_list ?st) =
      numbered_item 1 1 (text_item ''a'') @ numbered_item 1 2 (text_item ''b'')" by (simp add: kids flip: numeral_2_eq_2)
  then show ?thesis
    by (simp add: numbered_item_def layout_checkbox_def layout_one_def text_item_def node_kind_def json_get_def
        as_str_def as_bool_def as_array_def node_children_def chars_def indent_of_def pad2_def split_whitespace_def
        is_whitespace_def eval_nat_numeral)
qed

end
