(* ===== verification/Gpt_Chat.thy ===== *)
theory Gpt_Chat
  imports Markdown_Render
begin

text \<open>
  The language model client (\<^verbatim>\<open>gpt/common.rs\<close>, \<^verbatim>\<open>gpt/deepseek_v3.rs\<close>): a bounded history of
  messages per user, the request made from it, and the words taken from the answer, in one
  piece or as a stream.

  The HTTP exchange is a parameter, as is the JSON decoder; JSON values are those of the
  renderer.
\<close>

section \<open>History\<close>

datatype role = UserRole | AssistantRole | SystemRole

record gpt_message =
  gm_role :: role
  gm_content :: rstring

type_synonym history = "gpt_message list"

definition add_user_msg :: "rstring \<Rightarrow> history \<Rightarrow> history" where
  "add_user_msg content ms =
     (if length ms > 50 then tl ms else ms) @ [\<lparr>gm_role = UserRole, gm_content = content\<rparr>]"

definition add_assistant_msg :: "rstring \<Rightarrow> history \<Rightarrow> history" where
  "add_assistant_msg content ms =
     (if length ms > 50 then tl ms else ms) @ [\<lparr>gm_role = AssistantRole, gm_content = content\<rparr>]"

definition add_system_msg :: "rstring \<Rightarrow> history \<Rightarrow> history" where
  "add_system_msg content ms =
     (if length ms > 50 then tl ms else ms) @ [\<lparr>gm_role = SystemRole, gm_content = content\<rparr>]"

definition role_name :: "role \<Rightarrow> rstring" where
  "role_name r = chars (case r of UserRole \<Rightarrow> ''user'' | AssistantRole \<Rightarrow> ''assistant'' | SystemRole \<Rightarrow> ''system'')"

definition history_to_json :: "history \<Rightarrow> json" where
  "history_to_json ms =
     JObj [(''messages'', JArr (map (\<lambda>m.
       JObj [(''role'', JStr (role_name (gm_role m))), (''content'', JStr (gm_content m))]) ms))]"

section \<open>Requests\<close>

text \<open>Assigning a field of a JSON object.\<close>

definition json_set :: "string \<Rightarrow> json \<Rightarrow> json \<Rightarrow> json" where
  "json_set k v j =
     (case j of
        JObj kvs \<Rightarrow> JObj (if k \<in> fst ` set kvs then map (\<lambda>(k', v'). (k', if k' = k then v else v')) kvs else kvs @ [(k, v)])
      | _ \<Rightarrow> j)"

definition json_index :: "nat \<Rightarrow> json \<Rightarrow> json" where
  "json_index i v = (case v of JArr xs \<Rightarrow> if i < length xs then xs ! i else JNull | _ \<Rightarrow> JNull)"

text \<open>
  The client: the name of the model, the answer of the server to a request body, none when the
  exchange fails, and for a stream the chunks of its body.
\<close>

record deepseek =
  ds_model :: rstring
  ds_post :: "json \<Rightarrow> json option"
  ds_stream :: "json \<Rightarrow> rstring option list option"

type_synonym chat_cache = "rstring \<rightharpoonup> history"

definition system_prompt :: rstring where
  "system_prompt = [20320, 20010, 19968, 20010, 32842, 22825, 26426, 22120, 20154, 65292, 19981, 20351, 29992,
     109, 97, 114, 107, 100, 111, 119, 110, 26684, 24335]"

text \<open>The cached history of a user, or a new one that starts with the system prompt.\<close>

definition user_history :: "rstring \<Rightarrow> chat_cache \<Rightarrow> history" where
  "user_history user cache = (case cache user of Some msgs \<Rightarrow> msgs | None \<Rightarrow> add_system_msg system_prompt [])"

definition answer_content :: "json \<Rightarrow> rstring option" where
  "answer_content j =
     as_str (json_get ''content'' (json_get ''message'' (json_index 0 (json_get ''choices'' j))))"

text \<open>
  One exchange.  The result is a failed exchange (left) or the answer; the whole is undefined
  when the answer has no text, which panics.
\<close>

definition chat ::
  "deepseek \<Rightarrow> rstring \<Rightarrow> rstring \<Rightarrow> chat_cache \<Rightarrow> ((unit + rstring) \<times> chat_cache) option" where
  "chat ds inp user cache =
     (let msgs = add_user_msg inp (user_history user cache);
          body = json_set ''model'' (JStr (ds_model ds)) (history_to_json msgs)
      in case ds_post ds body of
        None \<Rightarrow> Some (Inl (), cache(user \<mapsto> msgs))
      | Some j \<Rightarrow>
          (case answer_content j of
             None \<Rightarrow> None
           | Some content \<Rightarrow> Some (Inr content, cache(user \<mapsto> add_assistant_msg content msgs))))"

section \<open>Streams\<close>

definition strip_prefix :: "rstring \<Rightarrow> rstring \<Rightarrow> rstring option" where
  "strip_prefix p s = (if prefix p s then Some (drop (length p) s) else None)"

text \<open>\<^verbatim>\<open>str::lines\<close>: pieces that end in a line feed, without it and a carriage return before it.\<close>

fun text_lines :: "rstring \<Rightarrow> rstring \<Rightarrow> rstring list" where
  "text_lines acc [] = (if acc = [] then [] else [acc])"
| "text_lines acc (c # cs) =
     (if c = 10
      then (if acc \<noteq> [] \<and> last acc = 13 then butlast acc else acc) # text_lines [] cs
      else text_lines (acc @ [c]) cs)"

definition as_u64_json :: "json \<Rightarrow> nat option" where
  "as_u64_json v = (case v of JNum n \<Rightarrow> Some n | _ \<Rightarrow> None)"

text \<open>
  The words of one event.  A finished answer without a textual reason or without a token count
  panics.
\<close>

definition event_words :: "json \<Rightarrow> rstring list option" where
  "event_words j =
     (let choice = json_index 0 (json_get ''choices'' j);
          content = (case as_str (json_get ''content'' (json_get ''delta'' choice)) of Some s \<Rightarrow> [s] | None \<Rightarrow> []);
          reason = json_get ''finish_reason'' choice
      in if reason = JNull then Some content
         else do {
           r \<leftarrow> as_str reason;
           n \<leftarrow> as_u64_json (json_get ''total_tokens'' (json_get ''usage'' j));
           Some (content @ [[10], chars ''[ finish: '' @ r @ chars '', total token: '' @ digits n @ chars '' ]''])
         })"

fun chunk_words :: "(rstring \<Rightarrow> json option) \<Rightarrow> rstring list \<Rightarrow> rstring list option" where
  "chunk_words from_str [] = Some []"
| "chunk_words from_str (line # ls) =
     do {
       ws \<leftarrow> (case strip_prefix (chars ''data: '') line of
               None \<Rightarrow> Some []
             | Some json_str \<Rightarrow>
                 if json_str = [] \<or> json_str = chars ''[DONE]'' then Some []
                 else (case from_str json_str of None \<Rightarrow> Some [] | Some j \<Rightarrow> event_words j));
       rest \<leftarrow> chunk_words from_str ls;
       Some (ws @ rest)
     }"

text \<open>Broken chunks are skipped; the pieces of all chunks follow each other.\<close>

fun stream_words :: "(rstring \<Rightarrow> json option) \<Rightarrow> rstring option list \<Rightarrow> rstring list option" where
  "stream_words from_str [] = Some []"
| "stream_words from_str (None # cs) = stream_words from_str cs"
| "stream_words from_str (Some chunk # cs) =
     do {
       ws \<leftarrow> chunk_words from_str (text_lines [] chunk);
       rest \<leftarrow> stream_words from_str cs;
       Some (ws @ rest)
     }"

definition chat_stream ::
  "(rstring \<Rightarrow> json option) \<Rightarrow> deepseek \<Rightarrow> rstring \<Rightarrow> rstring \<Rightarrow> chat_cache \<Rightarrow>
   (unit + rstring list option) \<times> chat_cache" where
  "chat_stream from_str ds inp user cache =
     (let msgs = add_user_msg inp (user_history user cache);
          body = json_set ''stream'' (JBool True) (json_set ''model'' (JStr (ds_model ds)) (history_to_json msgs))
      in case ds_stream ds body of
        None \<Rightarrow> (Inl (), cache(user \<mapsto> msgs))
      | Some chunks \<Rightarrow> (Inr (stream_words from_str chunks), cache(user \<mapsto> msgs)))"

section \<open>What the history holds\<close>

lemmas add_defs = add_user_msg_def add_assistant_msg_def add_system_msg_def

lemma add_length:
  "length ms \<le> 51 \<Longrightarrow> length (add_user_msg s ms) \<le> 51 \<and> length (add_assistant_msg s ms) \<le> 51 \<and>
     length (add_system_msg s ms) \<le> 51"
  by (auto simp: add_defs)

text \<open>After an exchange the history ends with what was asked and answered and is no longer than 51.\<close>

lemma chat_history:
  assumes "\<And>u ms. cache u = Some ms \<Longrightarrow> length ms \<le> 51" "chat ds inp user cache = Some (r, cache')"
  shows "(\<forall>u ms. cache' u = Some ms \<longrightarrow> length ms \<le> 51) \<and> (\<forall>u. u \<noteq> user \<longrightarrow> cache' u = cache u) \<and>
    (\<exists>ms pre. cache' user = Some ms \<and>
       (case r of
          Inl _ \<Rightarrow> ms = pre @ [\<lparr>gm_role = UserRole, gm_content = inp\<rparr>]
        | Inr answer \<Rightarrow> ms = pre @ [\<lparr>gm_role = UserRole, gm_content = inp\<rparr>,
            \<lparr>gm_role = AssistantRole, gm_content = answer\<rparr>]))"
proof -
  have "length (user_history user cache) \<le> 51"
    using assms(1) by (simp add: user_history_def add_system_msg_def split: option.split)
  then have len: "length (add_user_msg inp (user_history user cache)) \<le> 51" using add_length by blast
  have ends: "\<exists>pre. add_user_msg inp ms = pre @ [\<lparr>gm_role = UserRole, gm_content = inp\<rparr>]" for ms
    by (simp add: add_user_msg_def)
  have "\<exists>pre. add_assistant_msg s (add_user_msg inp ms) =
      pre @ [\<lparr>gm_role = UserRole, gm_content = inp\<rparr>, \<lparr>gm_role = AssistantRole, gm_content = s\<rparr>]" for s ms
    by (cases ms) (auto simp: add_user_msg_def add_assistant_msg_def tl_append split: list.split)
  then show ?thesis
    using assms len ends add_length
    by (auto simp: chat_def Let_def split: option.splits if_splits)
qed

end
