(* ===== verification/Chat_Node.thy ===== *)
theory Chat_Node
  imports P2P_Props Tls_Identity
begin

text \<open>
  The chat program on top of the node (\<^verbatim>\<open>chat.rs\<close>): its messages and the future that prints what
  the node hands out, leaves on a message that says so, and broadcasts what the user typed.

  The channel of typed lines is the list \<open>message_rx\<close>; what is printed is kept in \<open>printed\<close>.
  Whether the tick interval is ready at the i-th poll of the node is an argument.
\<close>

section \<open>Messages\<close>

datatype 'k chat_user = ChatUser 'k | ChatSystem

record ('k, 't) chat_message =
  cm_time :: 't
  cm_content :: string
  cm_user :: "'k chat_user"

definition chat_message_new :: "'t \<Rightarrow> string \<Rightarrow> 'k chat_user \<Rightarrow> ('k, 't) chat_message" where
  "chat_message_new time content user = \<lparr>cm_time = time, cm_content = content, cm_user = user\<rparr>"

text \<open>How a message is printed; the formatting of a time and the short form of a key are arguments.\<close>

definition chat_user_display :: "('k \<Rightarrow> string) \<Rightarrow> 'k chat_user \<Rightarrow> string" where
  "chat_user_display short u = (case u of ChatUser k \<Rightarrow> short k | ChatSystem \<Rightarrow> ''System'')"

definition chat_message_display :: "('k \<Rightarrow> string) \<Rightarrow> ('t \<Rightarrow> string) \<Rightarrow> ('k, 't) chat_message \<Rightarrow> string" where
  "chat_message_display short fmt_time m =
     chat_user_display short (cm_user m) @ '' ['' @ fmt_time (cm_time m) @ ''] => '' @ cm_content m"

section \<open>The chat node\<close>

type_synonym ('a, 'k, 't, 'c, 'r, 'w) chat_p2p_node = "('a, 'k, ('k, 't) chat_message, 'c, 'r, 'w) p2p_node"

record ('a, 'k, 't, 'c, 'r, 'w) chat_node =
  inner :: "('a, 'k, 't, 'c, 'r, 'w) chat_p2p_node"
  message_rx :: "('k, 't) chat_message list"
  cancelled :: bool
  printed :: "('k, 't) chat_message list"

definition chat_node_new ::
  "('a, 'k, 't, 'c, 'r, 'w) chat_p2p_node \<Rightarrow> ('k, 't) chat_message list \<Rightarrow> ('a, 'k, 't, 'c, 'r, 'w) chat_node" where
  "chat_node_new node rx = \<lparr>inner = node, message_rx = rx, cancelled = False, printed = []\<rparr>"

text \<open>A message the node handed out.\<close>

definition handle_ready ::
  "('a, 'k, ('k, 't) chat_message, 'c) network \<Rightarrow> ('k, 't) chat_message \<Rightarrow>
   ('a, 'k, 't, 'c, 'r, 'w) chat_node \<Rightarrow> ('a, 'k, 't, 'c, 'r, 'w) chat_node option" where
  "handle_ready net m c =
     (let c = c\<lparr>printed := printed c @ [m]\<rparr> in
      if cm_content m = ''quit''
      then map_option (\<lambda>n. c\<lparr>inner := n, cancelled := True\<rparr>) (p2p_leave net (inner c))
      else Some c)"

text \<open>
  The first loop of the future: poll the node until it has nothing to hand out.  As long as
  messages keep coming the loop goes on, so its value may be undefined.
\<close>

partial_function (option) chat_receive ::
  "('a, 'k, 'r, 'w) env \<Rightarrow> ('a, 'k, ('k, 't) chat_message, 'c) network \<Rightarrow> (nat \<Rightarrow> bool) \<Rightarrow> nat \<Rightarrow>
   ('a, 'k, 't, 'c, 'r, 'w) chat_node \<Rightarrow> ('a, 'k, 't, 'c, 'r, 'w) chat_node option" where
  "chat_receive E net tick i c =
     (case poll_next E (tick i) (inner c) of
        None \<Rightarrow> None
      | Some (r, n) \<Rightarrow>
          (case r of
             None \<Rightarrow> Some (c\<lparr>inner := n\<rparr>)
           | Some m \<Rightarrow>
               (case handle_ready net (msg_payload m) (c\<lparr>inner := n\<rparr>) of
                  None \<Rightarrow> None
                | Some c' \<Rightarrow> chat_receive E net tick (Suc i) c')))"

text \<open>The second loop: broadcast what was typed; the identifiers are dropped by the caller.\<close>

fun broadcast_all ::
  "('a, 'k, 'r, 'w) env \<Rightarrow> ('k, 't) chat_message list \<Rightarrow> ('a, 'k, 't, 'c, 'r, 'w) chat_p2p_node \<Rightarrow>
   (('a, 'k) message_id list \<times> ('a, 'k, 't, 'c, 'r, 'w) chat_p2p_node) option" where
  "broadcast_all E [] n = Some ([], n)"
| "broadcast_all E (m # ms) n =
     do {
       (i, n) \<leftarrow> p2p_broadcast E m n;
       (is, n) \<leftarrow> broadcast_all E ms n;
       Some (i # is, n)
     }"

definition chat_poll ::
  "('a, 'k, 'r, 'w) env \<Rightarrow> ('a, 'k, ('k, 't) chat_message, 'c) network \<Rightarrow> (nat \<Rightarrow> bool) \<Rightarrow>
   ('a, 'k, 't, 'c, 'r, 'w) chat_node \<Rightarrow> ('a, 'k, 't, 'c, 'r, 'w) chat_node option" where
  "chat_poll E net tick c =
     do {
       c \<leftarrow> chat_receive E net tick 0 c;
       (is, n) \<leftarrow> broadcast_all E (message_rx c) (inner c);
       Some (c\<lparr>inner := n, message_rx := []\<rparr>)
     }"

section \<open>What a poll does\<close>

text \<open>The node hands out these messages, and then nothing.\<close>

inductive yields ::
  "('a, 'k, 'r, 'w) env \<Rightarrow> ('a, 'k, ('k, 't) chat_message, 'c) network \<Rightarrow> (nat \<Rightarrow> bool) \<Rightarrow> nat \<Rightarrow>
   ('a, 'k, 't, 'c, 'r, 'w) chat_node \<Rightarrow> ('k, 't) chat_message list \<Rightarrow>
   ('a, 'k, 't, 'c, 'r, 'w) chat_node \<Rightarrow> bool" for E net tick where
  pending: "poll_next E (tick i) (inner c) = Some (None, n) \<Longrightarrow> yields E net tick i c [] (c\<lparr>inner := n\<rparr>)"
| ready: "poll_next E (tick i) (inner c) = Some (Some m, n) \<Longrightarrow>
    handle_ready net (msg_payload m) (c\<lparr>inner := n\<rparr>) = Some c' \<Longrightarrow>
    yields E net tick (Suc i) c' ms c'' \<Longrightarrow> yields E net tick i c (msg_payload m # ms) c''"

lemma handle_ready_eq:
  "handle_ready net m c = Some c' \<Longrightarrow> printed c' = printed c @ [m] \<and> message_rx c' = message_rx c \<and>
     (cancelled c' \<longleftrightarrow> cancelled c \<or> cm_content m = ''quit'')"
  by (auto simp: handle_ready_def Let_def split: if_splits)

lemma yields_receive:
  "yields E net tick i c ms c' \<Longrightarrow> chat_receive E net tick i c = Some c' \<and> printed c' = printed c @ ms \<and>
     message_rx c' = message_rx c \<and> (cancelled c' \<longleftrightarrow> cancelled c \<or> (\<exists>m \<in> set ms. cm_content m = ''quit''))"
proof (induction rule: yields.induct)
  case (pending i c n)
  then show ?case by (subst chat_receive.simps) simp
next
  case (ready i c m n c' ms c'')
  then show ?case using handle_ready_eq [OF ready(2)] by (subst chat_receive.simps) auto
qed

text \<open>
  What broadcasting a message adds to the actions of a Plumtree node: its delivery, the message
  for every eager peer and its announcement for every lazy peer, in the order of the iterator.
\<close>

definition pushes ::
  "('n, 'm) iter_ops \<Rightarrow> ('n, 'm, 'p) pt_node \<Rightarrow> ('m, 'p) app_message \<Rightarrow> ('n, 'm, 'p) pt_action list" where
  "pushes I n m =
     Deliver m #
     map (\<lambda>q. PtSend q (Gossip \<lparr>gossip_sender = pt_id n, gossip_message = m, gossip_round = 1\<rparr>))
       (filter (\<lambda>q. q \<noteq> pt_id n) (peer_iter I (eager_push_peers n))) @
     map (\<lambda>q. PtSend q (Ihave \<lparr>ihave_sender = pt_id n, ihave_message_id = msg_id m, ihave_round = 1,
         ihave_realtime = True\<rparr>))
       (filter (\<lambda>q. q \<noteq> pt_id n) (peer_iter I (lazy_push_peers n)))"

lemma broadcast_pushes:
  "broadcast_message I m n =
     n\<lparr>messages := (messages n)(msg_id m \<mapsto> msg_payload m), pt_actions := pt_actions n @ pushes I n m\<rparr>"
  by (simp add: broadcast_message_eq pushes_def gossips_def announcements_def pt_message_defs saturating_add_def)

lemma pushes_update [simp]:
  "pushes I (n\<lparr>messages := f\<rparr>) m = pushes I n m" "pushes I (n\<lparr>pt_actions := as\<rparr>) m = pushes I n m"
  by (simp_all add: pushes_def)

lemma p2p_broadcast_result:
  assumes "\<forall>w. fst (sys_now (env_world E) w) \<noteq> None" "message_seqno n + 1 < 2 ^ 64"
  shows "\<exists>i w. p2p_broadcast E m n = Some (i, n\<lparr>message_seqno := message_seqno n + 1, world := w,
      plumtree_node := (plumtree_node n)\<lparr>messages := (messages (plumtree_node n))(i \<mapsto> m),
        pt_actions := pt_actions (plumtree_node n) @ pushes (env_iter E) (plumtree_node n) \<lparr>msg_id = i, msg_payload = m\<rparr>\<rparr>\<rparr>) \<and>
    mid_seqno i = message_seqno n \<and> mid_node i = p2p_id n"
proof -
  obtain t w where "sys_now (env_world E) (world n) = (Some t, w)"
    using assms(1) by (metis not_None_eq prod.collapse)
  then show ?thesis
    using assms(2)
    by (auto simp: p2p_broadcast_def u64_add_def broadcast_pushes message_id_new_def p2p_id_def Let_def)
qed

text \<open>The node after some messages were broadcast under some identifiers.\<close>

definition after_broadcasts ::
  "('a, 'k, 'r, 'w) env \<Rightarrow> (('a, 'k) message_id \<times> ('k, 't) chat_message) list \<Rightarrow> 'w \<Rightarrow>
   ('a, 'k, 't, 'c, 'r, 'w) chat_p2p_node \<Rightarrow> ('a, 'k, 't, 'c, 'r, 'w) chat_p2p_node" where
  "after_broadcasts E ims w n =
     n\<lparr>message_seqno := message_seqno n + length ims, world := w,
       plumtree_node := (plumtree_node n)
         \<lparr>messages := fold (\<lambda>(i, m) f. f(i \<mapsto> m)) ims (messages (plumtree_node n)),
          pt_actions := pt_actions (plumtree_node n) @
            concat (map (\<lambda>(i, m). pushes (env_iter E) (plumtree_node n) \<lparr>msg_id = i, msg_payload = m\<rparr>) ims)\<rparr>\<rparr>"

lemma broadcast_all_result:
  assumes "\<forall>w. fst (sys_now (env_world E) w) \<noteq> None" "message_seqno n + length ms < 2 ^ 64"
  shows "\<exists>is w. broadcast_all E ms n = Some (is, after_broadcasts E (zip is ms) w n) \<and> length is = length ms \<and>
    map mid_seqno is = [message_seqno n ..< message_seqno n + length ms] \<and>
    (\<forall>i \<in> set is. mid_node i = p2p_id n)"
  using assms(2)
proof (induction ms arbitrary: n)
  case Nil
  have "after_broadcasts E [] (world n) n = n" by (simp add: after_broadcasts_def)
  then show ?case by (intro exI [of _ "[]"] exI [of _ "world n"]) simp
next
  case (Cons m ms)
  obtain i w0 n1 where b: "p2p_broadcast E m n = Some (i, n1)" and i: "mid_seqno i = message_seqno n" "mid_node i = p2p_id n"
    and n1: "n1 = n\<lparr>message_seqno := message_seqno n + 1, world := w0,
      plumtree_node := (plumtree_node n)\<lparr>messages := (messages (plumtree_node n))(i \<mapsto> m),
        pt_actions := pt_actions (plumtree_node n) @ pushes (env_iter E) (plumtree_node n) \<lparr>msg_id = i, msg_payload = m\<rparr>\<rparr>\<rparr>"
    using p2p_broadcast_result [OF assms(1), of n m] Cons.prems by auto
  obtain "is" w where rest: "broadcast_all E ms n1 = Some (is, after_broadcasts E (zip is ms) w n1)" "length is = length ms"
      "map mid_seqno is = [message_seqno n1 ..< message_seqno n1 + length ms]"
      "\<forall>i \<in> set is. mid_node i = p2p_id n1"
    using Cons.IH [of n1] Cons.prems n1 by auto
  have "after_broadcasts E (zip is ms) w n1 = after_broadcasts E (zip (i # is) (m # ms)) w n"
    using rest(2) by (simp add: after_broadcasts_def n1)
  moreover have "[message_seqno n ..< message_seqno n + length (m # ms)] =
      message_seqno n # [message_seqno n1 ..< message_seqno n1 + length ms]"
    using n1 by (simp add: upt_conv_Cons del: upt_Suc)
  ultimately show ?case
    using b rest i n1 by (intro exI [of _ "i # is"] exI [of _ w]) (simp add: p2p_id_def)
qed

lemma fold_updates:
  "distinct (map fst xs) \<Longrightarrow> fold (\<lambda>(i, m) f. f(i \<mapsto> m)) xs f = f ++ map_of xs"
proof (induction xs arbitrary: f)
  case (Cons x xs)
  obtain i m where x: "x = (i, m)" by (cases x)
  have "map_of xs i = None" using Cons.prems by (auto simp: x map_of_eq_None_iff)
  then show ?case using Cons by (auto simp: x map_add_def split: option.split)
qed simp

text \<open>
  C17. What a poll of the chat program does.  When the node hands out some messages and then
  nothing, the poll returns.  It has printed exactly these messages in that order, and it is
  cancelled if one of them says quit.  Every typed line was broadcast once, in the order typed,
  under an identifier of the node with the next sequence number: Plumtree holds it by that
  identifier, and has queued, behind what was queued before, its delivery to the node itself,
  the line for every eager peer and its announcement for every lazy peer.  Nothing else of the
  node has changed but its view of the outside world.
\<close>

theorem chat_poll_prints_and_broadcasts:
  assumes "yields E net tick 0 c ms c1"
    and "\<forall>w. fst (sys_now (env_world E) w) \<noteq> None" "message_seqno (inner c1) + length (message_rx c) < 2 ^ 64"
  shows "\<exists>c' is w. chat_poll E net tick c = Some c' \<and> printed c' = printed c @ ms \<and> message_rx c' = [] \<and>
    (cancelled c' \<longleftrightarrow> cancelled c \<or> (\<exists>m \<in> set ms. cm_content m = ''quit'')) \<and>
    length is = length (message_rx c) \<and> (\<forall>i \<in> set is. mid_node i = p2p_id (inner c1)) \<and>
    map mid_seqno is = [message_seqno (inner c1) ..< message_seqno (inner c1) + length (message_rx c)] \<and>
    inner c' = (inner c1)\<lparr>message_seqno := message_seqno (inner c1) + length (message_rx c), world := w,
      plumtree_node := (plumtree_node (inner c1))
        \<lparr>messages := messages (plumtree_node (inner c1)) ++ map_of (zip is (message_rx c)),
         pt_actions := pt_actions (plumtree_node (inner c1)) @
           concat (map (\<lambda>(i, m). pushes (env_iter E) (plumtree_node (inner c1)) \<lparr>msg_id = i, msg_payload = m\<rparr>)
             (zip is (message_rx c)))\<rparr>\<rparr>"
proof -
  note rec = yields_receive [OF assms(1)]
  obtain "is" w where all:
      "broadcast_all E (message_rx c) (inner c1) = Some (is, after_broadcasts E (zip is (message_rx c)) w (inner c1))"
      "length is = length (message_rx c)"
      "map mid_seqno is = [message_seqno (inner c1) ..< message_seqno (inner c1) + length (message_rx c)]"
      "\<forall>i \<in> set is. mid_node i = p2p_id (inner c1)"
    using broadcast_all_result [OF assms(2,3)] by blast
  have "distinct is" using all(3) by (metis distinct_map distinct_upt)
  then have "fold (\<lambda>(i, m) f. f(i \<mapsto> m)) (zip is (message_rx c)) (messages (plumtree_node (inner c1))) =
      messages (plumtree_node (inner c1)) ++ map_of (zip is (message_rx c))"
    using all(2) by (intro fold_updates) simp
  then have "after_broadcasts E (zip is (message_rx c)) w (inner c1) =
      (inner c1)\<lparr>message_seqno := message_seqno (inner c1) + length (message_rx c), world := w,
      plumtree_node := (plumtree_node (inner c1))
        \<lparr>messages := messages (plumtree_node (inner c1)) ++ map_of (zip is (message_rx c)),
         pt_actions := pt_actions (plumtree_node (inner c1)) @
           concat (map (\<lambda>(i, m). pushes (env_iter E) (plumtree_node (inner c1)) \<lparr>msg_id = i, msg_payload = m\<rparr>)
             (zip is (message_rx c)))\<rparr>\<rparr>"
    using all(2) by (simp add: after_broadcasts_def)
  moreover have "chat_poll E net tick c =
      Some (c1\<lparr>inner := after_broadcasts E (zip is (message_rx c)) w (inner c1), message_rx := []\<rparr>)"
    using rec all(1) by (simp add: chat_poll_def)
  ultimately show ?thesis using rec all(2-4)
    by (intro exI [of _ "c1\<lparr>inner := after_broadcasts E (zip is (message_rx c)) w (inner c1), message_rx := []\<rparr>"]
        exI [of _ "is"] exI [of _ w]) simp
qed

text \<open>
  A node with an eager and a lazy peer, an overdue message in its buffer and two typed lines.
\<close>

definition old_line :: "(nat, nat) chat_message" where
  "old_line = chat_message_new 0 ''good morning'' (ChatUser 1)"

definition chat_inner :: "(nat, nat, nat, nat, nat, nat) chat_p2p_node" where
  "chat_inner = (the (p2p_new example_env 0 (nid 0) server_new 0))
     \<lparr>message_buffer := [(5, (\<lparr>msg_id = message_id_new (nid 1) 0 5, msg_payload = old_line\<rparr>, 0))], world := 2000,
      plumtree_node := (pt_new (nid 0))\<lparr>eager_push_peers := {nid 1}, lazy_push_peers := {nid 2}\<rparr>\<rparr>"

definition chat_example :: "(nat, nat, nat, nat, nat, nat) chat_node" where
  "chat_example = chat_node_new chat_inner
     [chat_message_new 0 ''hello'' (ChatUser 0), chat_message_new 1 ''world'' (ChatUser 0)]"

definition chat_net :: "(nat, nat, (nat, nat) chat_message, nat) network" where
  "chat_net = \<lparr>net_encodes = (\<lambda>_. True), net_connect = (\<lambda>_ _. Unreachable), net_transmit = (\<lambda>_ _. False)\<rparr>"

lemma chat_example_polls:
  "\<exists>n1 n2 mid. poll_next example_env False chat_inner = Some (Some \<lparr>msg_id = mid, msg_payload = old_line\<rparr>, n1) \<and>
     poll_next example_env False n1 = Some (None, n2) \<and> message_seqno n2 = 0 \<and> pt_actions (plumtree_node n2) = [] \<and>
     eager_push_peers (plumtree_node n2) = {nid 1} \<and> pt_id (plumtree_node n2) = nid 0"
  by (simp add: chat_inner_def fresh_node_evaluate)
    (simp add: p2p_evaluate release_def MAX_OUT_OF_ORDER_DELAY_MS_def hv_evaluate pt_evaluate message_id_new_def)


theorem chat_poll_prints_and_broadcasts_witness:
  "\<exists>c' i0 i1. chat_poll example_env chat_net (\<lambda>_. False) chat_example = Some c' \<and> message_rx c' = [] \<and>
     printed c' = [old_line] \<and> \<not> cancelled c' \<and> [mid_seqno i0, mid_seqno i1] = [0, 1] \<and>
     message_seqno (inner c') = 2 \<and>
     map_option cm_content (messages (plumtree_node (inner c')) i1) = Some ''world'' \<and>
     (\<exists>hello. cm_content hello = ''hello'' \<and>
        hd (pt_actions (plumtree_node (inner c'))) = Deliver \<lparr>msg_id = i0, msg_payload = hello\<rparr> \<and>
        pt_actions (plumtree_node (inner c')) ! 1 =
          PtSend (nid 1) (Gossip \<lparr>gossip_sender = nid 0, gossip_message = \<lparr>msg_id = i0, msg_payload = hello\<rparr>, gossip_round = 1\<rparr>))"
proof -
  obtain n1 n2 mid where n: "poll_next example_env False chat_inner = Some (Some \<lparr>msg_id = mid, msg_payload = old_line\<rparr>, n1)"
     "poll_next example_env False n1 = Some (None, n2)" "message_seqno n2 = 0" "pt_actions (plumtree_node n2) = []"
     "eager_push_peers (plumtree_node n2) = {nid 1}" "pt_id (plumtree_node n2) = nid 0"
    using chat_example_polls by blast
  let ?hello = "chat_message_new 0 ''hello'' (ChatUser 0) :: (nat, nat) chat_message"
  let ?world = "chat_message_new 1 ''world'' (ChatUser 0) :: (nat, nat) chat_message"
  let ?c1 = "chat_example\<lparr>inner := n1, printed := [old_line]\<rparr>"
  have c: "message_rx chat_example = [?hello, ?world]" "inner chat_example = chat_inner" "printed chat_example = []"
    "\<not> cancelled chat_example" by (simp_all add: chat_example_def chat_node_new_def)
  have said: "handle_ready chat_net old_line (chat_example\<lparr>inner := n1\<rparr>) = Some ?c1"
    by (simp add: handle_ready_def old_line_def chat_message_new_def c(3))
  have "yields example_env chat_net (\<lambda>_. False) 1 ?c1 [] (?c1\<lparr>inner := n2\<rparr>)"
    by (rule yields.pending [where tick = "\<lambda>_. False"]) (simp add: n(2))
  then have y: "yields example_env chat_net (\<lambda>_. False) 0 chat_example [old_line] (?c1\<lparr>inner := n2\<rparr>)"
    using yields.ready [where tick = "\<lambda>_. False" and i = 0 and c = chat_example and E = example_env and net = chat_net,
        unfolded c(2), OF n(1)] said by simp
  have clock: "\<forall>w. fst (sys_now (env_world example_env) w) \<noteq> None"
    by (simp add: example_env_def counting_world_def)
  have room: "message_seqno (inner (?c1\<lparr>inner := n2\<rparr>)) + length (message_rx chat_example) < 2 ^ 64"
    using n(3) c(1) by simp
  let ?n = "inner (?c1\<lparr>inner := n2\<rparr>)" and ?rx = "message_rx chat_example"
  have seq: "[message_seqno ?n ..< message_seqno ?n + length ?rx] = [0, 1]" using n(3) c(1) by (simp add: upt_rec)
  from chat_poll_prints_and_broadcasts [OF y clock room, unfolded seq]
  obtain c' "is" w where raw: "chat_poll example_env chat_net (\<lambda>_. False) chat_example = Some c'"
      "printed c' = printed chat_example @ [old_line]" "message_rx c' = []"
      "cancelled c' \<longleftrightarrow> cancelled chat_example \<or> (\<exists>m \<in> set [old_line]. cm_content m = ''quit'')"
      "length is = length ?rx" "map mid_seqno is = [0, 1]"
    and inner: "inner c' = ?n\<lparr>message_seqno := message_seqno ?n + length ?rx, world := w, plumtree_node := (plumtree_node ?n)
        \<lparr>messages := messages (plumtree_node ?n) ++ map_of (zip is ?rx),
         pt_actions := pt_actions (plumtree_node ?n) @
           concat (map (\<lambda>(i, m). pushes (env_iter example_env) (plumtree_node ?n) \<lparr>msg_id = i, msg_payload = m\<rparr>) (zip is ?rx))\<rparr>\<rparr>"
    by (elim exE conjE) (rule that)
  have res: "printed c' = [old_line]" "\<not> cancelled c'" "length is = 2"
    using raw c by (simp_all add: old_line_def chat_message_new_def)
  obtain i0 i1 where i: "is = [i0, i1]" using res(3) by (auto simp: numeral_2_eq_2 length_Suc_conv)
  have seqs: "mid_seqno i0 = 0" "mid_seqno i1 = 1" using raw(6) by (simp_all add: i)
  then have "i0 \<noteq> i1" by auto
  then have held: "messages (plumtree_node (inner c')) i1 = Some ?world" "message_seqno (inner c') = 2"
    using n(3) by (simp_all add: inner i c)
  have acts: "pt_actions (plumtree_node (inner c')) ! 0 = Deliver \<lparr>msg_id = i0, msg_payload = ?hello\<rparr>"
    "pt_actions (plumtree_node (inner c')) ! 1 = PtSend (nid 1)
       (Gossip \<lparr>gossip_sender = nid 0, gossip_message = \<lparr>msg_id = i0, msg_payload = ?hello\<rparr>, gossip_round = 1\<rparr>)"
    "pt_actions (plumtree_node (inner c')) \<noteq> []"
    using n(4-6) by (simp_all add: inner i c pushes_def example_env_def nid_def)
  show ?thesis
    using raw(1,3) res(1,2) seqs held acts
    by (intro exI [of _ c'] exI [of _ i0] exI [of _ i1] conjI exI [of _ ?hello])
      (simp_all add: hd_conv_nth, simp_all add: chat_message_new_def)
qed

end
