(* ===== verification/HyParView_Links.thy ===== *)
theory HyParView_Links
  imports HyParView_Handlers
begin

text \<open>
  A network of HyParView nodes.  Nodes call their operations, actions are polled, and sent
  messages arrive in any order.  When nothing is under way the links are symmetric: a node is in the active
  view of another exactly when the other is in its own.  This is what Plumtree relies on.

  A change of the active view leaves a trace in the queue of actions: a NEIGHBOR for a node that came and a
  DISCONNECT for one that went.  The interface \<open>linking_operation\<close> states it for an operation.
\<close>

section \<open>Changes of the active view are announced\<close>

definition announces :: "('n, 'r) hv_node \<Rightarrow> ('n, 'r) hv_node \<Rightarrow> bool" where
  "announces n n' \<longleftrightarrow> hv_id n' = hv_id n \<and>
     (\<exists>new. hv_actions n' = hv_actions n @ new \<and>
        (\<forall>q \<in> set (active_view n') - set (active_view n). \<exists>hp. HvSend q (mk_neighbor (hv_id n) hp) \<in> set new) \<and>
        (\<forall>q \<in> set (active_view n) - set (active_view n'). HvSend q (mk_disconnect (hv_id n) True) \<in> set new) \<and>
        (\<forall>d m. HvSend d (Disconnect m) \<in> set new \<longrightarrow> dc_alive m))"

lemma announces_refl [simp]: "announces n n"
  by (simp add: announces_def)

lemma announces_trans [trans]:
  assumes "announces a b" "announces b c"
  shows "announces a c"
proof -
  obtain x where x: "hv_id b = hv_id a" "hv_actions b = hv_actions a @ x"
    "\<forall>q \<in> set (active_view b) - set (active_view a). \<exists>hp. HvSend q (mk_neighbor (hv_id a) hp) \<in> set x"
    "\<forall>q \<in> set (active_view a) - set (active_view b). HvSend q (mk_disconnect (hv_id a) True) \<in> set x"
    "\<forall>d m. HvSend d (Disconnect m) \<in> set x \<longrightarrow> dc_alive m"
    using assms(1) unfolding announces_def by blast
  obtain y where y: "hv_id c = hv_id b" "hv_actions c = hv_actions b @ y"
    "\<forall>q \<in> set (active_view c) - set (active_view b). \<exists>hp. HvSend q (mk_neighbor (hv_id b) hp) \<in> set y"
    "\<forall>q \<in> set (active_view b) - set (active_view c). HvSend q (mk_disconnect (hv_id b) True) \<in> set y"
    "\<forall>d m. HvSend d (Disconnect m) \<in> set y \<longrightarrow> dc_alive m"
    using assms(2) unfolding announces_def by blast
  show ?thesis unfolding announces_def
  proof (intro conjI exI [of _ "x @ y"] ballI)
    fix q assume "q \<in> set (active_view c) - set (active_view a)"
    then show "\<exists>hp. HvSend q (mk_neighbor (hv_id a) hp) \<in> set (x @ y)"
      using x y by (cases "q \<in> set (active_view b)") auto
  next
    fix q assume "q \<in> set (active_view a) - set (active_view c)"
    then show "HvSend q (mk_disconnect (hv_id a) True) \<in> set (x @ y)"
      using x y by (cases "q \<in> set (active_view b)") auto
  qed (use x y in auto)
qed

lemma announces_rng [simp]:
  "announces (n\<lparr>hv_rng := r\<rparr>) n' = announces n n'" "announces n (n'\<lparr>hv_rng := r\<rparr>) = announces n n'"
  by (simp_all add: announces_def)

text \<open>A change that keeps the active view as a set and sends nothing but harmless messages.\<close>

lemma announces_frame:
  assumes "hv_id n' = hv_id n" "set (active_view n') = set (active_view n)" "hv_actions n' = hv_actions n"
  shows "announces n n'"
  using assms by (auto simp: announces_def)

lemma announces_send: "(\<forall>x. m = Disconnect x \<longrightarrow> dc_alive x) \<Longrightarrow> announces n (send_to d m n)"
  by (auto simp: announces_def)

lemma announces_then_send: "announces a n \<Longrightarrow> (\<forall>x. m = Disconnect x \<longrightarrow> dc_alive x) \<Longrightarrow> announces a (send_to d m n)"
  by (rule announces_trans [OF _ announces_send])

lemma announces_push: "(\<forall>d m. a \<noteq> HvSend d m) \<Longrightarrow> announces n (push_action a n)"
  by (auto simp: announces_def)

lemma announces_fold_send:
  "(\<And>p x. f p \<noteq> Disconnect x) \<Longrightarrow> announces n (fold (\<lambda>p. send_to p (f p)) ps n)"
proof (induction ps arbitrary: n)
  case (Cons p ps)
  have "announces n (send_to p (f p) n)" using Cons.prems by (intro announces_send) auto
  also have "announces \<dots> (fold (\<lambda>p. send_to p (f p)) ps (send_to p (f p) n))" using Cons by blast
  finally show ?case by simp
qed simp

lemma add_to_passive_announces: "add_to_passive_view R p n = Some n' \<Longrightarrow> announces n n'"
  by (rule announces_frame) (simp_all add: add_to_passive_view_frame)

lemma remove_from_passive_announces: "remove_from_passive_view p n = Some n' \<Longrightarrow> announces n n'"
  by (rule announces_frame) (simp_all add: remove_from_passive_view_frame)

lemma add_shuffled_announces: "add_shuffled_nodes_to_passive_view R ps n = Some n' \<Longrightarrow> announces n n'"
  by (induction ps arbitrary: n)
    (auto simp: bind_eq_Some_conv intro: announces_trans dest: add_to_passive_announces)

lemma remove_by_index_announces:
  assumes "remove_from_active_view_by_index R i True n = Some n'"
  shows "announces n n'"
proof (rule remove_by_index_spec [OF assms])
  fix p av
  assume "swap_remove i (active_view n) = Some (p, av)" "active_view n' = av" "hv_id n' = hv_id n"
    "hv_actions n' = hv_actions n @
      (if True then [HvSend p (mk_disconnect (hv_id n) True)] else []) @ [HvDisconnect p, notify_down p]"
  then show ?thesis using swap_remove_facts [of i "active_view n" p av]
    by (auto simp: announces_def mk_disconnect_def notify_down_def)
qed

lemma remove_random_announces: "remove_random_from_active_view_if_full R n = Some n' \<Longrightarrow> announces n n'"
  unfolding remove_random_from_active_view_if_full_def
  by (auto split: if_splits simp: bind_eq_Some_conv dest: remove_by_index_announces)

lemma add_to_active_announces:
  assumes "add_to_active_view R p hp n = Some n'"
  shows "announces n n'"
  using assms
proof (cases rule: add_to_active_view_cases)
  case (added a b)
  have "announces n a" "announces a b"
    using added(3,4) by (auto dest: remove_random_announces remove_from_passive_announces)
  then have "announces n b" by (rule announces_trans)
  also have "announces b n'"
    by (auto simp: announces_def added(5) mk_neighbor_def notify_up_def)
  finally show ?thesis .
qed simp

lemma disconnect_unless_announces: "announces n (disconnect_unless_active_view_node p n)"
  unfolding disconnect_unless_active_view_node_def
  by (auto intro!: announces_trans [OF announces_send announces_push] simp: mk_disconnect_def)

lemma fill_active_announces:
  assumes "fill_active_view R n = Some n'"
  shows "announces n n'"
  using assms by (cases rule: fill_active_view_cases) (simp_all add: announces_def mk_neighbor_def)

lemma sync_active_announces: "announces n (sync_active_view n)"
  unfolding sync_active_view_def by (rule announces_fold_send) (simp add: mk_neighbor_def)

lemma hv_join_announces: "announces n (hv_join c n)"
  unfolding hv_join_def by (rule announces_send) (simp add: mk_join_def)

lemma select_forwarding_announces:
  assumes "rng_ok R" "select_forwarding_destination R ex n = Some (sel, n')"
  shows "announces n n'"
proof (rule announces_frame)
  show "set (active_view n') = set (active_view n)" by (rule select_forwarding_destination_spec(2) [OF assms])
  show "hv_id n' = hv_id n" "hv_actions n' = hv_actions n"
    using assms(2) by (auto simp: select_forwarding_destination_def Let_def bind_eq_Some_conv split: prod.splits if_splits)
qed

lemma shuffle_passive_announces:
  assumes "rng_ok R" "shuffle_passive_view R n = Some n'"
  shows "announces n n'"
proof -
  obtain sel m where sel: "select_random_from_active_view R n = Some (sel, m)"
    using assms(2) by (auto simp: shuffle_passive_view_def bind_eq_Some_conv)
  obtain r where m: "m = n\<lparr>hv_rng := r\<rparr>" using select_random_spec(4) [OF sel] by blast
  show ?thesis
  proof (cases sel)
    case None
    then have "n' = n\<lparr>hv_rng := r\<rparr>" using assms(2) sel m by (simp add: shuffle_passive_view_def)
    then show ?thesis by simp
  next
    case (Some node)
    obtain pv r1 where pv: "rng_shuffle R r (passive_view n) = (pv, r1)" by fastforce
    obtain av r2 where av: "rng_shuffle R r1 (active_view n) = (av, r2)" by fastforce
    have "set av = set (active_view n)" by (rule rng_shuffle_facts [OF assms(1) av])
    then have frame: "announces n (n\<lparr>passive_view := pv, active_view := av, hv_rng := r2\<rparr>)"
      by (intro announces_frame) simp_all
    show ?thesis using assms(2) sel m Some pv av
      by (auto simp: shuffle_passive_view_def mk_shuffle_def Let_def intro!: announces_then_send frame)
  qed
qed

lemma handle_join_announces: "handle_join R m n = Some n' \<Longrightarrow> announces n n'"
  by (auto simp: handle_join_def bind_eq_Some_conv Let_def mk_forward_join_def
      intro!: announces_trans [OF add_to_active_announces announces_fold_send])

lemma handle_neighbor_announces: "handle_neighbor R m n = Some n' \<Longrightarrow> announces n n'"
  by (auto simp: handle_neighbor_def split: if_splits dest: add_to_active_announces)

lemma handle_forward_join_announces:
  assumes R: "rng_ok R" and "handle_forward_join R m n = Some n'"
  shows "announces n n'"
proof (cases "is_expired (fj_ttl m) \<or> active_view n = []")
  case True
  then show ?thesis using assms(2) by (auto simp: handle_forward_join_def dest: add_to_active_announces)
next
  case False
  then obtain a sel b where a: "(if as_u8 (fj_ttl m) = passive_random_walk_len (hv_options n)
      then add_to_passive_view R (fj_new_node m) n else Some n) = Some a"
    and b: "select_forwarding_destination R [fj_sender m] a = Some (sel, b)"
    and rest: "(case sel of
        Some next \<Rightarrow> Some (send_to next (mk_forward_join (hv_id b) (fj_new_node m) (decrement (fj_ttl m))) b)
      | None \<Rightarrow> add_to_active_view R (fj_new_node m) True b) = Some n'"
    using assms(2) by (auto simp: handle_forward_join_def bind_eq_Some_conv)
  have "announces n a" using a by (auto split: if_splits dest: add_to_passive_announces)
  also have "announces a b" by (rule select_forwarding_announces [OF R b])
  also have "announces b n'"
    using rest by (cases sel) (auto simp: mk_forward_join_def intro: announces_send dest: add_to_active_announces)
  finally show ?thesis .
qed

lemma handle_shuffle_announces:
  assumes R: "rng_ok R" and "handle_shuffle R m n = Some n'"
  shows "announces n n'"
proof (cases "is_expired (sh_ttl m)")
  case True
  obtain pv r where pv: "rng_shuffle R (hv_rng n) (passive_view n) = (pv, r)" by fastforce
  let ?n = "n\<lparr>passive_view := pv, hv_rng := r\<rparr>"
  have "announces n ?n" by (rule announces_frame) simp_all
  then have "announces n (send_to (sh_origin m) (mk_shuffle_reply (hv_id ?n) (take (length (sh_nodes m)) (passive_view ?n))) ?n)"
    by (rule announces_then_send) (simp add: mk_shuffle_reply_def)
  then show ?thesis using assms(2) True pv
    by (auto simp: handle_shuffle_def Let_def intro: announces_trans dest!: add_shuffled_announces)
next
  case False
  then obtain sel a where a: "select_forwarding_destination R [sh_origin m, sh_sender m] n = Some (sel, a)"
    and rest: "(case sel of
        Some d \<Rightarrow> Some (send_to d (mk_shuffle (hv_id a) (sh_origin m) (sh_nodes m) (decrement (sh_ttl m))) a)
      | None \<Rightarrow> Some a) = Some n'"
    using assms(2) by (auto simp: handle_shuffle_def bind_eq_Some_conv)
  have "announces n a" by (rule select_forwarding_announces [OF R a])
  then show ?thesis using rest by (cases sel) (auto simp: mk_shuffle_def intro: announces_then_send)
qed

lemma handle_disconnect_announces:
  assumes "handle_disconnect R m n = Some n'" "dc_alive m"
  shows "announces n n'"
  using assms(1)
proof (cases rule: handle_disconnect_cases)
  case (1 rem a b)
  have "announces n a" using 1(1) assms(2)
    by (auto simp: remove_from_active_view_def bind_eq_Some_conv split: option.splits dest: remove_by_index_announces)
  also have "announces a b"
  proof (cases rem)
    case True
    then show ?thesis using 1(2)
      by (auto dest!: remove_from_passive_announces fill_active_announces intro: announces_trans)
  qed (use 1(3) in simp)
  also have "announces b n'" using 1(4) assms(2) by (auto dest: add_to_passive_announces)
  finally show ?thesis .
qed

lemma hv_handle_announces:
  assumes R: "rng_ok R" and "hv_handle_protocol_message R m n = Some n'" and "\<forall>x. m = Disconnect x \<longrightarrow> dc_alive x"
  shows "announces n n'"
  using assms(2,3)
  by (cases m)
    (auto simp: hv_handle_protocol_message_def Let_def
      intro: announces_trans [OF handle_join_announces disconnect_unless_announces]
        announces_trans [OF handle_forward_join_announces [OF R] disconnect_unless_announces]
        announces_trans [OF handle_neighbor_announces disconnect_unless_announces]
        announces_trans [OF handle_shuffle_announces [OF R] disconnect_unless_announces]
        announces_trans [OF add_shuffled_announces disconnect_unless_announces]
        handle_disconnect_announces simp: handle_shuffle_reply_def)

text \<open>A node that is said to be dead and is not in the active view: nothing happens.\<close>

lemma disconnect_absent_announces:
  assumes "hv_handle_protocol_message R (Disconnect \<lparr>dc_sender = p, dc_alive = alive\<rparr>) n = Some n'" "p \<notin> set (active_view n)"
  shows "announces n n'"
proof -
  have "handle_disconnect R \<lparr>dc_sender = p, dc_alive = alive\<rparr> n = Some n'"
    using assms(1) by (simp add: hv_handle_protocol_message_def)
  then show ?thesis
  proof (cases rule: handle_disconnect_cases)
    case (1 rem a b)
    have "\<not> rem \<and> a = n" using 1(1) assms(2)
      by (auto simp: remove_from_active_view_def bind_eq_Some_conv split: option.splits dest: position_eq_SomeD)
    then show ?thesis using 1(3,4) by (auto split: if_splits dest: add_to_passive_announces)
  qed
qed

section \<open>The network\<close>

record ('n, 'r) hv_net =
  hn_nodes :: "('n, 'r) hv_node list"
  hn_packets :: "('n \<times> 'n hv_message) multiset"

definition sent :: "'n hv_action \<Rightarrow> ('n \<times> 'n hv_message) multiset" where
  "sent a = (case a of HvSend d m \<Rightarrow> {#(d, m)#} | _ \<Rightarrow> {#})"

text \<open>What the application may call: everything but telling a node that an active neighbour of it is dead.\<close>

fun allowed_call :: "'n hv_input \<Rightarrow> ('n, 'r) hv_node \<Rightarrow> bool" where
  "allowed_call (InMessage m) n = False"
| "allowed_call (InDisconnect p alive) n = (alive \<or> p \<notin> set (active_view n))"
| "allowed_call _ n = True"

inductive hv_net_step :: "('n, 'r) rng_ops \<Rightarrow> ('n, 'r) hv_net \<Rightarrow> ('n, 'r) hv_net \<Rightarrow> bool" for R where
  call: "i < length (hn_nodes S) \<Longrightarrow> allowed_call x (hn_nodes S ! i) \<Longrightarrow> hv_apply R x (hn_nodes S ! i) = Some h \<Longrightarrow>
    hv_net_step R S (S\<lparr>hn_nodes := (hn_nodes S)[i := h]\<rparr>)"
| poll: "i < length (hn_nodes S) \<Longrightarrow> hv_poll_action (hn_nodes S ! i) = (Some a, h) \<Longrightarrow>
    hv_net_step R S (S\<lparr>hn_nodes := (hn_nodes S)[i := h], hn_packets := hn_packets S + sent a\<rparr>)"
| arrive: "i < length (hn_nodes S) \<Longrightarrow> (hv_id (hn_nodes S ! i), m) \<in># hn_packets S \<Longrightarrow>
    hv_handle_protocol_message R m (hn_nodes S ! i) = Some h \<Longrightarrow>
    hv_net_step R S (S\<lparr>hn_nodes := (hn_nodes S)[i := h],
      hn_packets := hn_packets S - {#(hv_id (hn_nodes S ! i), m)#}\<rparr>)"
| lose: "(d, m) \<in># hn_packets S \<Longrightarrow> d \<notin> hv_id ` set (hn_nodes S) \<Longrightarrow>
    hv_net_step R S (S\<lparr>hn_packets := hn_packets S - {#(d, m)#}\<rparr>)"

definition hv_net_start :: "('n, 'r) hv_net \<Rightarrow> bool" where
  "hv_net_start S \<longleftrightarrow> distinct (map hv_id (hn_nodes S)) \<and> hn_packets S = {#} \<and>
     (\<forall>h \<in> set (hn_nodes S). h = hv_with_options (hv_id h) (hv_rng h) (hv_options h))"

inductive hv_net_reach :: "('n, 'r) rng_ops \<Rightarrow> ('n, 'r) hv_net \<Rightarrow> bool" for R where
  start: "hv_net_start S \<Longrightarrow> hv_net_reach R S"
| step: "hv_net_reach R S \<Longrightarrow> hv_net_step R S S' \<Longrightarrow> hv_net_reach R S'"

text \<open>A message that is queued or under way, and a network in which there is none.\<close>

definition under_way :: "('n, 'r) hv_net \<Rightarrow> 'n \<Rightarrow> 'n hv_message \<Rightarrow> bool" where
  "under_way S d m \<longleftrightarrow> (d, m) \<in># hn_packets S \<or> (\<exists>h \<in> set (hn_nodes S). HvSend d m \<in> set (hv_actions h))"

definition hv_net_idle :: "('n, 'r) hv_net \<Rightarrow> bool" where
  "hv_net_idle S \<longleftrightarrow> hn_packets S = {#} \<and> (\<forall>h \<in> set (hn_nodes S). hv_actions h = [])"

section \<open>One-sided links are being repaired\<close>

text \<open>A node that has another as a neighbour, while the other does not, will tell it or be told.\<close>

definition repairing :: "('n, 'r) hv_net \<Rightarrow> 'n \<Rightarrow> 'n \<Rightarrow> bool" where
  "repairing S a b \<longleftrightarrow> (\<exists>hp. under_way S b (mk_neighbor a hp)) \<or> under_way S a (mk_disconnect b True)"

definition links_inv :: "('n, 'r) hv_net \<Rightarrow> bool" where
  "links_inv S \<longleftrightarrow> distinct (map hv_id (hn_nodes S)) \<and> (\<forall>h \<in> set (hn_nodes S). hv_wf h) \<and>
     (\<forall>d m. under_way S d (Disconnect m) \<longrightarrow> dc_alive m) \<and>
     (\<forall>h \<in> set (hn_nodes S). \<forall>k \<in> set (hn_nodes S).
        hv_id k \<in> set (active_view h) \<longrightarrow> hv_id h \<notin> set (active_view k) \<longrightarrow> repairing S (hv_id h) (hv_id k))"

lemma links_invD:
  assumes "links_inv S"
  shows "distinct (map hv_id (hn_nodes S))" "h \<in> set (hn_nodes S) \<Longrightarrow> hv_wf h"
    "under_way S d (Disconnect m) \<Longrightarrow> dc_alive m"
    "h \<in> set (hn_nodes S) \<Longrightarrow> k \<in> set (hn_nodes S) \<Longrightarrow> hv_id k \<in> set (active_view h) \<Longrightarrow>
       hv_id h \<notin> set (active_view k) \<Longrightarrow> repairing S (hv_id h) (hv_id k)"
  using assms unfolding links_inv_def by blast+

text \<open>
  One node changes as it announces, and at most one message for it is taken from the network,
  whose handling does what the message asks for.
\<close>

lemma links_inv_change:
  assumes inv: "links_inv S" and i: "i < length (hn_nodes S)" and n: "n = hn_nodes S ! i"
    and S': "hn_nodes S' = (hn_nodes S)[i := n']" and wf: "hv_wf n'" and id: "hv_id n' = hv_id n"
    and kept: "\<And>d m. under_way S d m \<Longrightarrow> under_way S' d m \<or> d = hv_id n \<and> taken = Some m"
    and alive: "\<And>d m. under_way S' d (Disconnect m) \<Longrightarrow> dc_alive m"
    and came: "\<And>q. q \<in> set (active_view n') \<Longrightarrow> q \<notin> set (active_view n) \<Longrightarrow> \<exists>hp. under_way S' q (mk_neighbor (hv_id n) hp)"
    and went: "\<And>q. q \<in> set (active_view n) \<Longrightarrow> q \<notin> set (active_view n') \<Longrightarrow> under_way S' q (mk_disconnect (hv_id n) True)"
    and neighbor: "\<And>q hp. taken = Some (mk_neighbor q hp) \<Longrightarrow> q \<noteq> hv_id n \<Longrightarrow> q \<notin> set (active_view n') \<Longrightarrow>
      under_way S' q (mk_disconnect (hv_id n) True)"
    and disconnect: "\<And>q. taken = Some (mk_disconnect q True) \<Longrightarrow> q \<notin> set (active_view n')"
  shows "links_inv S'"
proof -
  note invD = links_invD [OF inv]
  have n_in: "n \<in> set (hn_nodes S)" using i n by simp
  have ids: "map hv_id (hn_nodes S') = map hv_id (hn_nodes S)"
    using i id n by (simp add: S' map_update) (metis list_update_id map_update nth_map)
  have cases: "h = n' \<or> h \<in> set (hn_nodes S) \<and> hv_id h \<noteq> hv_id n" if h: "h \<in> set (hn_nodes S')" for h
  proof -
    obtain j where j: "j < length (hn_nodes S)" "h = (hn_nodes S)[i := n'] ! j"
      using h unfolding S' in_set_conv_nth by auto
    show ?thesis
    proof (cases "j = i")
      case False
      then have "hv_id (hn_nodes S ! j) \<noteq> hv_id (hn_nodes S ! i)"
        using invD(1) i j(1) by (simp add: distinct_conv_nth)
      then show ?thesis using False j n by simp
    qed (use i j in simp)
  qed
  have "repairing S' (hv_id h) (hv_id k)"
    if h: "h \<in> set (hn_nodes S')" and k: "k \<in> set (hn_nodes S')"
      and hk: "hv_id k \<in> set (active_view h)" and kh: "hv_id h \<notin> set (active_view k)" for h k
  proof -
    consider (first) "h = n'" "k \<in> set (hn_nodes S)" "hv_id k \<noteq> hv_id n"
      | (second) "k = n'" "h \<in> set (hn_nodes S)" "hv_id h \<noteq> hv_id n"
      | (neither) "h \<in> set (hn_nodes S)" "k \<in> set (hn_nodes S)" "hv_id h \<noteq> hv_id n" "hv_id k \<noteq> hv_id n"
      | (both) "h = n'" "k = n'" using cases [OF h] cases [OF k] by blast
    then show ?thesis
    proof cases
      case first
      show ?thesis
      proof (cases "hv_id k \<in> set (active_view n)")
        case True
        then have "repairing S (hv_id n) (hv_id k)" using invD(4) [OF n_in first(2)] kh first(1) id by simp
        then show ?thesis using kept first hk disconnect id unfolding repairing_def by metis
      next
        case False
        then show ?thesis using came hk first id by (auto simp: repairing_def)
      qed
    next
      case second
      show ?thesis
      proof (cases "hv_id h \<in> set (active_view n)")
        case True
        then show ?thesis using went kh second id by (auto simp: repairing_def)
      next
        case False
        then have "repairing S (hv_id h) (hv_id n)" using invD(4) [OF second(2) n_in] hk second(1) id by simp
        then show ?thesis using kept neighbor second kh id unfolding repairing_def by metis
      qed
    next
      case neither
      then show ?thesis using invD(4) [OF neither(1,2) hk kh] kept unfolding repairing_def by metis
    next
      case both
      then show ?thesis using hk wf by (simp add: hv_wf_def)
    qed
  qed
  moreover have "\<forall>h \<in> set (hn_nodes S'). hv_wf h" using cases invD(2) wf by blast
  ultimately show ?thesis using invD(1) ids alive unfolding links_inv_def by simp
qed

lemma links_inv_announced:
  assumes inv: "links_inv S" and i: "i < length (hn_nodes S)" and n: "n = hn_nodes S ! i"
    and ann: "announces n n'" and wf: "hv_wf n'"
    and S': "S' = S\<lparr>hn_nodes := (hn_nodes S)[i := n'], hn_packets := P\<rparr>" and P: "set_mset P \<subseteq> set_mset (hn_packets S)"
    and kept: "\<And>d m. (d, m) \<in># hn_packets S \<Longrightarrow> (d, m) \<in># P \<or> d = hv_id n \<and> taken = Some m"
    and neighbor: "\<And>q hp. taken = Some (mk_neighbor q hp) \<Longrightarrow> q \<noteq> hv_id n \<Longrightarrow> q \<notin> set (active_view n') \<Longrightarrow>
      HvSend q (mk_disconnect (hv_id n) True) \<in> set (hv_actions n')"
    and disconnect: "\<And>q. taken = Some (mk_disconnect q True) \<Longrightarrow> q \<notin> set (active_view n')"
  shows "links_inv S'"
proof -
  obtain new where new: "hv_id n' = hv_id n" "hv_actions n' = hv_actions n @ new"
    "\<forall>q \<in> set (active_view n') - set (active_view n). \<exists>hp. HvSend q (mk_neighbor (hv_id n) hp) \<in> set new"
    "\<forall>q \<in> set (active_view n) - set (active_view n'). HvSend q (mk_disconnect (hv_id n) True) \<in> set new"
    "\<forall>d m. HvSend d (Disconnect m) \<in> set new \<longrightarrow> dc_alive m"
    using ann unfolding announces_def by blast
  have n'_in: "n' \<in> set (hn_nodes S')" using i by (simp add: S' set_update_memI)
  have sub: "set (hn_nodes S') \<subseteq> insert n' (set (hn_nodes S))" by (simp add: S' set_update_subset_insert)
  have queued: "under_way S' d m" if "HvSend d m \<in> set (hv_actions n')" for d m
    using that n'_in by (auto simp: under_way_def)
  have others: "h = n \<or> h \<in> set (hn_nodes S')" if "h \<in> set (hn_nodes S)" for h
  proof -
    obtain j where "j < length (hn_nodes S)" "h = hn_nodes S ! j" using \<open>h \<in> set (hn_nodes S)\<close> by (auto simp: in_set_conv_nth)
    then show ?thesis using n by (cases "j = i") (auto simp: S' in_set_conv_nth intro!: exI [of _ j])
  qed
  have n_in: "n \<in> set (hn_nodes S)" using i n by simp
  show ?thesis
  proof (rule links_inv_change [OF inv i n _ wf new(1)])
    show "hn_nodes S' = (hn_nodes S)[i := n']" by (simp add: S')
    fix d m
    show "under_way S' d m \<or> d = hv_id n \<and> taken = Some m" if "under_way S d m"
      using that kept others queued new(2) unfolding under_way_def S' by fastforce
    show "dc_alive m" if "under_way S' d (Disconnect m)" for m
    proof -
      have "under_way S d (Disconnect m) \<or> HvSend d (Disconnect m) \<in> set new"
        using that P sub n_in new(2) unfolding under_way_def S' by fastforce
      then show ?thesis using links_invD(3) [OF inv] new(5) by blast
    qed
  next
    show "\<exists>hp. under_way S' q (mk_neighbor (hv_id n) hp)" if "q \<in> set (active_view n')" "q \<notin> set (active_view n)" for q
      using that new(2,3) queued by (metis Diff_iff Un_iff set_append)
    show "under_way S' q (mk_disconnect (hv_id n) True)" if "q \<in> set (active_view n)" "q \<notin> set (active_view n')" for q
      using that new(2,4) queued by (metis Diff_iff Un_iff set_append)
    show "under_way S' q (mk_disconnect (hv_id n) True)"
      if "taken = Some (mk_neighbor q hp)" "q \<noteq> hv_id n" "q \<notin> set (active_view n')" for q hp
      using neighbor [OF that] queued by blast
  qed (rule disconnect)
qed

text \<open>An operation whose changes of the active view are announced when its argument is harmless.\<close>

locale linking_operation = view_operation +
  fixes harmless :: "'b \<Rightarrow> ('n, 'r) hv_node \<Rightarrow> bool"
  assumes announced: "rng_ok R \<Longrightarrow> harmless x n \<Longrightarrow> op R x n = Some n' \<Longrightarrow> announces n n'"
begin

lemma keeps_links:
  assumes "rng_ok R" "harmless x (hn_nodes S ! i)" "links_inv S" "i < length (hn_nodes S)" "op R x (hn_nodes S ! i) = Some h"
  shows "links_inv (S\<lparr>hn_nodes := (hn_nodes S)[i := h]\<rparr>)"
proof (rule links_inv_announced [where taken = None and P = "hn_packets S", OF assms(3,4) refl announced [OF assms(1,2,5)]])
  show "hv_wf h" using keeps_wf [OF assms(1,5)] links_invD(2) [OF assms(3)] assms(4) by simp
qed simp_all

end

interpretation join_links: linking_operation "\<lambda>R c n. Some (hv_join c n)" "\<lambda>_ _. True"
  by unfold_locales (auto simp: hv_join_announces)

interpretation shuffle_links: linking_operation "\<lambda>R (_ :: unit). shuffle_passive_view R" "\<lambda>_ _. True"
  by unfold_locales (auto simp: shuffle_passive_announces)

interpretation fill_links: linking_operation "\<lambda>R (_ :: unit). fill_active_view R" "\<lambda>_ _. True"
  by unfold_locales (auto simp: fill_active_announces)

interpretation sync_links: linking_operation "\<lambda>R (_ :: unit) n. Some (sync_active_view n)" "\<lambda>_ _. True"
  by unfold_locales (auto simp: sync_active_announces)

interpretation message_links: linking_operation hv_handle_protocol_message "\<lambda>m _. \<forall>x. m = Disconnect x \<longrightarrow> dc_alive x"
  by unfold_locales (rule hv_handle_announces)

interpretation disconnect_links: linking_operation "\<lambda>R (p, alive). hv_disconnect R p alive"
  "\<lambda>(p, alive) n. alive \<or> p \<notin> set (active_view n)"
  by unfold_locales
    (auto simp: hv_disconnect_def mk_disconnect_def intro: hv_handle_announces disconnect_absent_announces)

interpretation call_links: linking_operation hv_apply allowed_call
proof
  fix R :: "('a, 'b) rng_ops" and x and n n' :: "('a, 'b) hv_node"
  assume R: "rng_ok R" and x: "allowed_call x n" and run: "hv_apply R x n = Some n'"
  show "announces n n'"
    using x run join_links.announced [OF R] shuffle_links.announced [OF R] fill_links.announced [OF R]
      sync_links.announced [OF R] disconnect_links.announced [OF R, of "(p, a)" for p a]
    by (cases x) auto
qed

text \<open>What the handling of a NEIGHBOR and of a DISCONNECT does to the link with the sender.\<close>

lemma neighbor_handled:
  assumes "hv_handle_protocol_message R (mk_neighbor q hp) n = Some n'" "q \<noteq> hv_id n" "q \<notin> set (active_view n')"
  shows "HvSend q (mk_disconnect (hv_id n) True) \<in> set (hv_actions n')"
proof -
  let ?m = "\<lparr>nb_sender = q, nb_high_priority = hp\<rparr>"
  obtain a where a: "handle_neighbor R ?m n = Some a" "n' = disconnect_unless_active_view_node q a"
    using assms(1) by (auto simp: hv_handle_protocol_message_def mk_neighbor_def)
  then have "announces n a" by (auto intro: handle_neighbor_announces)
  then have "hv_id a = hv_id n" by (simp add: announces_def)
  moreover have "q \<notin> set (active_view a)" using a(2) assms(3) by simp
  ultimately show ?thesis using a(2) assms(2) by (simp add: disconnect_unless_active_view_node_def)
qed

lemma disconnect_handled:
  assumes "hv_handle_protocol_message R (mk_disconnect q True) n = Some n'" "hv_wf n"
  shows "q \<notin> set (active_view n')"
proof -
  have "handle_disconnect R \<lparr>dc_sender = q, dc_alive = True\<rparr> n = Some n'"
    using assms(1) by (simp add: hv_handle_protocol_message_def mk_disconnect_def)
  then show ?thesis
  proof (cases rule: handle_disconnect_cases)
    case (1 rem a b)
    have "q \<notin> set (active_view a)" using remove_from_active_view_member [OF 1(1) assms(2), simplified] by (cases rem) auto
    moreover have "active_view b = active_view a"
      using 1(2,3) by (cases rem) (auto dest!: fill_active_view_frame(1) remove_from_passive_view_frame(1))
    moreover have "active_view n' = active_view b" using 1(4) by (auto dest: add_to_passive_view_frame)
    ultimately show ?thesis by simp
  qed
qed

lemma hv_net_step_links:
  assumes R: "rng_ok R" and inv: "links_inv S" and "hv_net_step R S S'"
  shows "links_inv S'"
  using assms(3)
proof (cases rule: hv_net_step.cases)
  case (call i x h)
  then show ?thesis using call_links.keeps_links [OF R] inv by blast
next
  case (poll i a h)
  let ?n = "hn_nodes S ! i"
  have a: "hv_actions ?n = a # hv_actions h" "h = ?n\<lparr>hv_actions := hv_actions h\<rparr>"
    using hv_poll_action_SomeD [OF poll(3)] by auto
  have same: "hv_id h = hv_id ?n" "active_view h = active_view ?n" "hv_wf h = hv_wf ?n"
    by (subst a(2), simp add: hv_wf_def)+
  have n_in: "?n \<in> set (hn_nodes S)" using poll(2) by simp
  have iff: "under_way S' d m \<longleftrightarrow> under_way S d m" for d m
  proof -
    have "(\<exists>k \<in> set (hn_nodes S). HvSend d m \<in> set (hv_actions k)) \<longleftrightarrow>
        a = HvSend d m \<or> (\<exists>k \<in> set ((hn_nodes S)[i := h]). HvSend d m \<in> set (hv_actions k))"
      (is "?l \<longleftrightarrow> _ \<or> ?r")
    proof
      assume ?l
      then obtain j where j: "j < length (hn_nodes S)" "HvSend d m \<in> set (hv_actions (hn_nodes S ! j))"
        by (metis in_set_conv_nth)
      have mem: "(hn_nodes S)[i := h] ! j \<in> set ((hn_nodes S)[i := h])" using j(1) by simp
      show "a = HvSend d m \<or> ?r"
      proof (cases "j = i")
        case True
        then have "a = HvSend d m \<or> HvSend d m \<in> set (hv_actions h)" using j(2) a(1) by auto
        then show ?thesis using mem True poll(2) by auto
      qed (use mem j(2) in auto)
    next
      assume "a = HvSend d m \<or> ?r"
      then show ?l
      proof
        assume "a = HvSend d m"
        then show ?l using n_in a(1) by (intro bexI [of _ ?n]) simp_all
      next
        assume ?r
        then obtain k where k: "k \<in> set ((hn_nodes S)[i := h])" "HvSend d m \<in> set (hv_actions k)" by blast
        then have "k = h \<or> k \<in> set (hn_nodes S)" using set_update_subset_insert [of "hn_nodes S" i h] by blast
        then show ?l using k(2) n_in a(1) by (auto intro: bexI [of _ ?n])
      qed
    qed
    then show ?thesis by (auto simp: under_way_def poll(1) sent_def split: hv_action.splits)
  qed
  show ?thesis
    by (rule links_inv_change [where taken = None and n' = h, OF inv poll(2) refl])
      (use same iff links_invD(2,3) [OF inv] n_in in \<open>auto simp: poll(1)\<close>)
next
  case (arrive i m h)
  let ?n = "hn_nodes S ! i"
  have n_in: "?n \<in> set (hn_nodes S)" using arrive(2) by simp
  have wf: "hv_wf ?n" by (rule links_invD(2) [OF inv n_in])
  have alive: "\<forall>x. m = Disconnect x \<longrightarrow> dc_alive x"
    using links_invD(3) [OF inv] arrive(3) by (auto simp: under_way_def)
  show ?thesis
  proof (rule links_inv_announced [where taken = "Some m", OF inv arrive(2) refl _ _ arrive(1)])
    show "announces ?n h" by (rule message_links.announced [OF R alive arrive(4)])
    show "hv_wf h" by (rule message.keeps_wf [OF R arrive(4) wf])
    show "set_mset (hn_packets S - {#(hv_id ?n, m)#}) \<subseteq> set_mset (hn_packets S)" by (auto dest: in_diffD)
    show "(d, m') \<in># hn_packets S - {#(hv_id ?n, m)#} \<or> d = hv_id ?n \<and> Some m = Some m'"
      if "(d, m') \<in># hn_packets S" for d m'
      using that by (cases "(d, m') = (hv_id ?n, m)") (auto simp: in_diff_count)
    show "HvSend q (mk_disconnect (hv_id ?n) True) \<in> set (hv_actions h)"
      if "Some m = Some (mk_neighbor q hp)" "q \<noteq> hv_id ?n" "q \<notin> set (active_view h)" for q hp
      using neighbor_handled [OF _ that(2,3)] arrive(4) that(1) by blast
    show "q \<notin> set (active_view h)" if "Some m = Some (mk_disconnect q True)" for q
      using disconnect_handled [OF _ wf] arrive(4) that by blast
  qed
next
  case (lose d m)
  have "under_way S' e x \<or> e \<notin> hv_id ` set (hn_nodes S)" if "under_way S e x" for e x
    using that lose(3) by (cases "(e, x) = (d, m)") (auto simp: under_way_def lose(1) in_diff_count)
  moreover have "under_way S e x" if "under_way S' e x" for e x
    using that by (auto simp: under_way_def lose(1) dest: in_diffD)
  moreover have "hn_nodes S' = hn_nodes S" by (simp add: lose(1))
  ultimately show ?thesis using inv unfolding links_inv_def repairing_def by (metis image_eqI)
qed

text \<open>Every reachable network keeps the invariant; when it is idle the links are symmetric.\<close>

lemma hv_net_start_links:
  assumes "hv_net_start S"
  shows "links_inv S"
proof -
  have new: "active_view h = []" "passive_view h = []" "hv_actions h = []" if "h \<in> set (hn_nodes S)" for h
  proof -
    have "h = hv_with_options (hv_id h) (hv_rng h) (hv_options h)" using assms that by (simp add: hv_net_start_def)
    then show "active_view h = []" "passive_view h = []" "hv_actions h = []"
      by (metis hv_with_options_def hv_node.select_convs)+
  qed
  show ?thesis using assms new by (auto simp: links_inv_def hv_net_start_def under_way_def hv_wf_def)
qed

lemma hv_net_reach_links:
  assumes "rng_ok R" and "hv_net_reach R S"
  shows "links_inv S"
  using assms(2)
proof (induction rule: hv_net_reach.induct)
  case (start S)
  then show ?case by (rule hv_net_start_links)
next
  case (step S S')
  show ?case by (rule hv_net_step_links [OF assms(1) step.IH step.hyps(2)])
qed

end
