(* ===== verification/HyParView_Simulation.thy ===== *)
theory HyParView_Simulation
  imports HyParView_Links
begin

text \<open>
  The simulation that runs a set of HyParView nodes in one process (\<open>execute_actions\<close> of
  src/hyparview/src/lib.rs): it goes round the nodes, may call a periodic operation on each, polls one action
  and has the destination handle what is sent, until a whole round finds no action.  It is
  one way to drive the network of \<open>HyParView_Links\<close>.  The random numbers it draws are the argument \<open>chance\<close>.
\<close>

section \<open>The simulation\<close>

definition periodic_call :: "('n, 'r) rng_ops \<Rightarrow> nat \<Rightarrow> ('n, 'r) hv_node \<Rightarrow> ('n, 'r) hv_node option" where
  "periodic_call R c n =
     (if c mod 30 = 0 then fill_active_view R n
      else if c mod 30 = 1 then Some (sync_active_view n)
      else if c mod 30 = 2 then shuffle_passive_view R n
      else Some n)"

text \<open>The first node with the identifier handles the message; without one it is dropped.\<close>

fun pass_on :: "('n, 'r) rng_ops \<Rightarrow> 'n \<Rightarrow> 'n hv_message \<Rightarrow> ('n, 'r) hv_node list \<Rightarrow> ('n, 'r) hv_node list option" where
  "pass_on R d m [] = Some []"
| "pass_on R d m (h # hs) =
     (if hv_id h = d then map_option (\<lambda>h'. h' # hs) (hv_handle_protocol_message R m h)
      else map_option (\<lambda>hs'. h # hs') (pass_on R d m hs))"

definition perform_action ::
  "('n, 'r) rng_ops \<Rightarrow> 'n hv_action \<Rightarrow> ('n, 'r) hv_node list \<Rightarrow> ('n, 'r) hv_node list option" where
  "perform_action R a hs = (case a of
     HvSend d m \<Rightarrow> pass_on R d m hs
   | HvDisconnect _ \<Rightarrow> Some hs
   | HvNotify _ \<Rightarrow> Some hs)"

definition simulate_node :: "('n, 'r) rng_ops \<Rightarrow> nat \<Rightarrow> nat \<Rightarrow>
    ('n, 'r) hv_node list \<times> bool \<Rightarrow> (('n, 'r) hv_node list \<times> bool) option" where
  "simulate_node R c i s = Option.bind (periodic_call R c (fst s ! i)) (\<lambda>n.
     case hv_poll_action n of
       (None, n') \<Rightarrow> Some ((fst s)[i := n'], snd s)
     | (Some a, n') \<Rightarrow> map_option (\<lambda>hs. (hs, True)) (perform_action R a ((fst s)[i := n'])))"

fun simulate_round :: "('n, 'r) rng_ops \<Rightarrow> (nat \<Rightarrow> nat) \<Rightarrow> nat list \<Rightarrow>
    ('n, 'r) hv_node list \<times> bool \<Rightarrow> (('n, 'r) hv_node list \<times> bool) option" where
  "simulate_round R chance [] s = Some s"
| "simulate_round R chance (i # is) s = Option.bind (simulate_node R (chance i) i s) (simulate_round R chance is)"

partial_function (option) execute_actions :: "('n, 'r) rng_ops \<Rightarrow> (nat \<Rightarrow> nat \<Rightarrow> nat) \<Rightarrow> nat \<Rightarrow>
    ('n, 'r) hv_node list \<Rightarrow> ('n, 'r) hv_node list option" where
  "execute_actions R chance t hs =
     Option.bind (simulate_round R (chance t) [0..<length hs] (hs, False)) (\<lambda>s.
       if snd s then execute_actions R chance (Suc t) (fst s) else Some (fst s))"

section \<open>The simulation drives the network\<close>

abbreviation quiet_net :: "('n, 'r) hv_node list \<Rightarrow> ('n, 'r) hv_net" where
  "quiet_net hs \<equiv> \<lparr>hn_nodes = hs, hn_packets = {#}\<rparr>"

lemma net_steps:
  assumes "hv_net_reach R S"
  shows net_call: "i < length (hn_nodes S) \<Longrightarrow> allowed_call x (hn_nodes S ! i) \<Longrightarrow> hv_apply R x (hn_nodes S ! i) = Some h \<Longrightarrow>
      hv_net_reach R (S\<lparr>hn_nodes := (hn_nodes S)[i := h]\<rparr>)"
    and net_poll: "i < length (hn_nodes S) \<Longrightarrow> hv_poll_action (hn_nodes S ! i) = (Some a, h) \<Longrightarrow>
      hv_net_reach R (S\<lparr>hn_nodes := (hn_nodes S)[i := h], hn_packets := hn_packets S + sent a\<rparr>)"
  using assms hv_net_step.intros by (blast intro: hv_net_reach.step)+

lemma pass_on_ids: "pass_on R d m hs = Some hs' \<Longrightarrow> length hs' = length hs"
  by (induction hs arbitrary: hs') (auto split: if_splits)

lemma pass_on_cases:
  assumes "pass_on R d m hs = Some hs'"
  obtains (handled) i h where "i < length hs" "hv_id (hs ! i) = d" "hv_handle_protocol_message R m (hs ! i) = Some h"
      "hs' = hs[i := h]"
    | (dropped) "d \<notin> hv_id ` set hs" "hs' = hs"
proof -
  have "(\<exists>i h. i < length hs \<and> hv_id (hs ! i) = d \<and> hv_handle_protocol_message R m (hs ! i) = Some h \<and> hs' = hs[i := h])
      \<or> d \<notin> hv_id ` set hs \<and> hs' = hs"
    using assms
  proof (induction hs arbitrary: hs')
    case (Cons k ks)
    show ?case
    proof (cases "hv_id k = d")
      case True
      then show ?thesis using Cons.prems by (intro disjI1 exI [of _ 0]) auto
    next
      case False
      then obtain ks' where ks': "pass_on R d m ks = Some ks'" "hs' = k # ks'" using Cons.prems by auto
      from Cons.IH [OF ks'(1)] show ?thesis
      proof
        assume "\<exists>i h. i < length ks \<and> hv_id (ks ! i) = d \<and> hv_handle_protocol_message R m (ks ! i) = Some h \<and> ks' = ks[i := h]"
        then obtain i h where "i < length ks" "hv_id (ks ! i) = d" "hv_handle_protocol_message R m (ks ! i) = Some h"
          "ks' = ks[i := h]" by blast
        then show ?thesis using ks'(2) by (intro disjI1 exI [of _ "Suc i"]) auto
      qed (use False ks'(2) in auto)
    qed
  qed simp
  then show ?thesis using that by blast
qed

lemma perform_action_reach:
  assumes "hv_net_reach R \<lparr>hn_nodes = hs, hn_packets = sent a\<rparr>" and "perform_action R a hs = Some hs'"
  shows "hv_net_reach R (quiet_net hs')"
proof (cases a)
  case (HvSend d m)
  let ?S = "\<lparr>hn_nodes = hs, hn_packets = sent a\<rparr>"
  have S: "hn_nodes ?S = hs" "hn_packets ?S = {#(d, m)#}" by (simp_all add: sent_def HvSend)
  have "pass_on R d m hs = Some hs'" using assms(2) by (simp add: perform_action_def HvSend)
  then have "hv_net_step R ?S (quiet_net hs')"
  proof (cases rule: pass_on_cases)
    case (handled i h)
    from hv_net_step.arrive [of i ?S m R h] show ?thesis using handled S by simp
  next
    case dropped
    from hv_net_step.lose [of d m ?S R] show ?thesis using dropped S by simp
  qed
  with assms(1) show ?thesis by (rule hv_net_reach.step)
qed (use assms in \<open>simp_all add: perform_action_def sent_def\<close>)

lemma periodic_call_reach:
  assumes "hv_net_reach R (quiet_net hs)" and "i < length hs" and "periodic_call R c (hs ! i) = Some n"
  shows "hv_net_reach R (quiet_net (hs[i := n]))"
proof -
  have "hv_apply R InFill (hs ! i) = Some n \<or> hv_apply R InSync (hs ! i) = Some n \<or> hv_apply R InShuffle (hs ! i) = Some n \<or>
      n = hs ! i"
    using assms(3) by (auto simp: periodic_call_def split: if_splits)
  then show ?thesis
    using net_call [OF assms(1), of i InFill n] net_call [OF assms(1), of i InSync n]
      net_call [OF assms(1), of i InShuffle n] assms(1,2) by (auto simp del: hv_apply.simps)
qed

lemma simulate_node_reach:
  assumes "hv_net_reach R (quiet_net (fst s))" and i: "i < length (fst s)" and "simulate_node R c i s = Some s'"
  shows "hv_net_reach R (quiet_net (fst s')) \<and> length (fst s') = length (fst s) \<and>
    (\<not> snd s' \<longrightarrow> \<not> snd s \<and> hv_actions (fst s' ! i) = [] \<and> (\<forall>j < length (fst s). j \<noteq> i \<longrightarrow> fst s' ! j = fst s ! j))"
proof -
  obtain n where n: "periodic_call R c (fst s ! i) = Some n"
    and run: "(case hv_poll_action n of
       (None, n') \<Rightarrow> Some ((fst s)[i := n'], snd s)
     | (Some a, n') \<Rightarrow> map_option (\<lambda>hs. (hs, True)) (perform_action R a ((fst s)[i := n']))) = Some s'"
    using assms(3) by (auto simp: simulate_node_def bind_eq_Some_conv)
  have reach: "hv_net_reach R (quiet_net ((fst s)[i := n]))" by (rule periodic_call_reach [OF assms(1) i n])
  show ?thesis
  proof (cases "hv_poll_action n")
    case (Pair o1 n')
    show ?thesis
    proof (cases o1)
      case None
      then have "n' = n" "hv_actions n = []" using Pair by (auto simp: hv_poll_action_def split: list.splits)
      then show ?thesis using run Pair None reach i by auto
    next
      case (Some a)
      have "hv_net_reach R \<lparr>hn_nodes = (fst s)[i := n'], hn_packets = sent a\<rparr>"
        using net_poll [OF reach, of i a n'] Pair Some i by simp
      moreover obtain hs where hs: "perform_action R a ((fst s)[i := n']) = Some hs" "s' = (hs, True)"
        using run Pair Some by auto
      ultimately have "hv_net_reach R (quiet_net hs)" by (blast intro: perform_action_reach)
      moreover have "length hs = length (fst s)"
        using hs(1) by (auto simp: perform_action_def dest: pass_on_ids split: hv_action.splits)
      ultimately show ?thesis using hs(2) by simp
    qed
  qed
qed

lemma simulate_round_reach:
  assumes "simulate_round R chance is s = Some s'" and "hv_net_reach R (quiet_net (fst s))"
    and "distinct is" and "\<forall>i \<in> set is. i < length (fst s)"
  shows "hv_net_reach R (quiet_net (fst s')) \<and> length (fst s') = length (fst s) \<and>
    (\<not> snd s' \<longrightarrow> \<not> snd s \<and> (\<forall>i \<in> set is. hv_actions (fst s' ! i) = []) \<and>
       (\<forall>j < length (fst s). j \<notin> set is \<longrightarrow> fst s' ! j = fst s ! j))"
  using assms
proof (induction "is" arbitrary: s)
  case (Cons i "is")
  obtain x where x: "simulate_node R (chance i) i s = Some x" "simulate_round R chance is x = Some s'"
    using Cons.prems(1) by (auto simp: bind_eq_Some_conv)
  have i: "i < length (fst s)" "i \<notin> set is" using Cons.prems(3,4) by auto
  note node = simulate_node_reach [OF Cons.prems(2) i(1) x(1)]
  have "hv_net_reach R (quiet_net (fst s')) \<and> length (fst s') = length (fst x) \<and>
    (\<not> snd s' \<longrightarrow> \<not> snd x \<and> (\<forall>i \<in> set is. hv_actions (fst s' ! i) = []) \<and>
       (\<forall>j < length (fst x). j \<notin> set is \<longrightarrow> fst s' ! j = fst x ! j))"
    by (rule Cons.IH [OF x(2)]) (use node Cons.prems(3,4) in auto)
  with node i show ?case by auto
qed simp

lemma execute_actions_reach:
  assumes "execute_actions R chance t hs = Some hs'" and "hv_net_reach R (quiet_net hs)"
  shows "hv_net_reach R (quiet_net hs') \<and> hv_net_idle (quiet_net hs')"
proof -
  let ?P = "\<lambda>(R :: ('a, 'b) rng_ops) (chance :: nat \<Rightarrow> nat \<Rightarrow> nat) (t :: nat) hs hs'. hv_net_reach R (quiet_net hs) \<longrightarrow>
    hv_net_reach R (quiet_net hs') \<and> hv_net_idle (quiet_net hs')"
  have "?P R chance t hs hs'"
  proof (rule execute_actions.raw_induct [of ?P, OF _ assms(1)], intro impI)
    fix f R chance t hs hs'
    assume IH: "\<And>R chance t hs hs'. f R chance t hs = Some hs' \<Longrightarrow> ?P R chance t hs hs'"
      and run: "Option.bind (simulate_round R (chance t) [0..<length hs] (hs, False))
        (\<lambda>s. if snd s then f R chance (Suc t) (fst s) else Some (fst s)) = Some hs'"
      and start: "hv_net_reach R (quiet_net hs)"
    obtain s where s: "simulate_round R (chance t) [0..<length hs] (hs, False) = Some s"
      and rest: "(if snd s then f R chance (Suc t) (fst s) else Some (fst s)) = Some hs'"
      using run by (auto simp: bind_eq_Some_conv)
    note round = simulate_round_reach [OF s, simplified, OF start]
    show "hv_net_reach R (quiet_net hs') \<and> hv_net_idle (quiet_net hs')"
    proof (cases "snd s")
      case True
      then show ?thesis using IH [of R chance "Suc t" "fst s" hs'] rest round by simp
    next
      case False
      then have "hs' = fst s" using rest by simp
      with round False show ?thesis by (auto simp: hv_net_idle_def in_set_conv_nth)
    qed
  qed
  with assms(2) show ?thesis by blast
qed

section \<open>The links of an idle network are symmetric\<close>

text \<open>
  C6. Take any number of HyParView nodes with different identifiers and fresh views, let the application call
  on each whatever it likes (except telling a node that an active neighbour of it is dead), and let the
  messages arrive in any order.  Whenever no message is queued or under way, a node is in the active view of another exactly
  when the other is in its own: no message sequence leaves a one-sided link behind.
\<close>

theorem hv_links_symmetric:
  assumes "rng_ok R" and "hv_net_reach R S" and "hv_net_idle S"
    and "h \<in> set (hn_nodes S)" and "k \<in> set (hn_nodes S)"
  shows "hv_id k \<in> set (active_view h) \<longleftrightarrow> hv_id h \<in> set (active_view k)"
proof -
  have "\<not> repairing S a b" for a b
    using assms(3) by (auto simp: repairing_def under_way_def hv_net_idle_def)
  then show ?thesis using links_invD(4) [OF hv_net_reach_links [OF assms(1,2)]] assms(4,5) by blast
qed

text \<open>Two nodes of which the first joins the second, run by the simulation until nothing is left to do.\<close>

definition joining_pair :: "(nat, nat) hv_node list" where
  "joining_pair = [hv_join 1 (hv_new 0 0), hv_new 1 0]"

lemma joining_pair_reach: "hv_net_reach counting_rng (quiet_net joining_pair)"
proof -
  have "hv_net_reach counting_rng (quiet_net [hv_new (0 :: nat) (0 :: nat), hv_new 1 0])"
    by (rule hv_net_reach.start) (simp add: hv_net_start_def hv_new_def hv_with_options_def)
  from net_call [OF this, of 0 "InJoin 1"] show ?thesis by (simp add: joining_pair_def)
qed

text \<open>The nodes after each of the first three rounds; the fourth round finds nothing to do.\<close>

definition pair_node :: "nat \<Rightarrow> nat \<Rightarrow> nat hv_action list \<Rightarrow> (nat, nat) hv_node" where
  "pair_node self other as = (hv_new self 0)\<lparr>active_view := [other], hv_actions := as\<rparr>"

lemma joining_pair_rounds:
  "simulate_round counting_rng (\<lambda>_. 3) [0, 1] (joining_pair, False) =
     Some ([pair_node 0 1 [HvSend 1 (mk_neighbor 0 False), HvNotify (NeighborUp 1)],
            pair_node 1 0 [HvNotify (NeighborUp 0)]], True)"
  "simulate_round counting_rng (\<lambda>_. 3) [0, 1]
     ([pair_node 0 1 [HvSend 1 (mk_neighbor 0 False), HvNotify (NeighborUp 1)],
       pair_node 1 0 [HvNotify (NeighborUp 0)]], False) =
     Some ([pair_node 0 1 [HvNotify (NeighborUp 1)], pair_node 1 0 []], True)"
  "simulate_round counting_rng (\<lambda>_. 3) [0, 1] ([pair_node 0 1 [HvNotify (NeighborUp 1)], pair_node 1 0 []], False) =
     Some ([pair_node 0 1 [], pair_node 1 0 []], True)"
  "simulate_round counting_rng (\<lambda>_. 3) [0, 1] ([pair_node 0 1 [], pair_node 1 0 []], False) =
     Some ([pair_node 0 1 [], pair_node 1 0 []], False)"
  by (simp_all add: joining_pair_def pair_node_def simulate_node_def periodic_call_def hv_poll_action_def
    perform_action_def hv_new_def hv_join_def hv_evaluate handle_neighbor_def)

lemma joining_pair_run:
  "execute_actions counting_rng (\<lambda>_ _. 3) 0 joining_pair = Some [pair_node 0 1 [], pair_node 1 0 []]"
proof -
  have two: "[0..<length [a, b :: (nat, nat) hv_node]] = [0, 1]" for a b by (simp add: upt_rec)
  have "[0..<length joining_pair] = [0, 1]" by (simp add: joining_pair_def upt_rec)
  then show ?thesis
    by (subst execute_actions.simps, simp only: joining_pair_rounds bind.simps fst_conv snd_conv if_True)
      (subst execute_actions.simps, simp only: two joining_pair_rounds bind.simps fst_conv snd_conv if_True if_False)+
qed

theorem hv_links_symmetric_witness:
  "\<exists>h k. execute_actions counting_rng (\<lambda>_ _. 3) 0 joining_pair = Some [h, k] \<and>
     active_view h = [1] \<and> (hv_id k \<in> set (active_view h) \<longleftrightarrow> hv_id h \<in> set (active_view k))"
proof -
  let ?h = "pair_node 0 1 []" and ?k = "pair_node 1 0 []"
  have "hv_net_reach counting_rng (quiet_net [?h, ?k])" "hv_net_idle (quiet_net [?h, ?k])"
    using execute_actions_reach [OF joining_pair_run joining_pair_reach] by auto
  from hv_links_symmetric [OF counting_rng_ok this, of ?h ?k]
  have "hv_id ?k \<in> set (active_view ?h) \<longleftrightarrow> hv_id ?h \<in> set (active_view ?k)" by simp
  moreover have "active_view ?h = [1]" by (simp add: pair_node_def)
  ultimately show ?thesis using joining_pair_run by blast
qed

end
