(* ===== verification/Program.thy ===== *)
theory Program
  imports Server_Setup Chat_Node P2P_Safety "HOL-Library.Product_Lexorder"
begin

text \<open>
  The program (\<^verbatim>\<open>main.rs\<close>, \<^verbatim>\<open>node/args.rs\<close>): from the parsed command line to the server, the node
  and the chat program with the line that tells others how to join, and the thread that reads
  standard input.

  The text of an address, the order in which the hashed set of addresses is walked, random
  bytes, the generator's seed and the state of the outside world are arguments.
\<close>

section \<open>Command line\<close>

record 'a args =
  local_addr :: "'a option"
  connect_to :: "'a list option"
  arg_server_name :: "string option"
  ai_agent :: bool
  without_ui :: bool

definition APLN :: string where
  "APLN = ''quic-p2p-v2''"

definition node_id_new :: "'a list \<Rightarrow> 'k \<Rightarrow> ('a, 'k) node_id" where
  "node_id_new addrs k = \<lparr>addresses = addrs, local_id = k\<rparr>"

text \<open>\<^verbatim>\<open>{:?}\<close> of a string of printable characters: quoted, with quotes and backslashes escaped.\<close>

definition debug_str :: "string \<Rightarrow> string" where
  "debug_str s = CHR 0x22 #
     concat (map (\<lambda>c. if c = CHR 0x22 \<or> c = CHR 0x5C then [CHR 0x5C, c] else [c]) s) @ [CHR 0x22]"

text \<open>\<^verbatim>\<open>[String]::join\<close>.\<close>

fun str_join :: "string \<Rightarrow> string list \<Rightarrow> string" where
  "str_join sep [] = []"
| "str_join sep [x] = x"
| "str_join sep (x # y # xs) = x @ sep @ str_join sep (y # xs)"

definition advertisement ::
  "('v, 's) crypto \<Rightarrow> ('a \<Rightarrow> string) \<Rightarrow> ('a, 'v local_node_id) node_id \<Rightarrow> string" where
  "advertisement C show_addr me =
     ''cargo run -- --connect-to='' @ debug_str (str_join '' '' (map show_addr (addresses me))) @
     '' -s='' @ local_node_id_display C (local_id me)"

section \<open>Starting\<close>

text \<open>
  What runs after the start: the server, the chat program with the node, and the identifier the
  reading thread writes as.  The node and the server share one handle; its state is that of the
  node, and the server is recorded with it.
\<close>

record ('i, 'v, 's, 't, 'c, 'r, 'w) program =
  prog_server :: "('i, 's, 'i \<times> nat, 'v local_node_id, ('v local_node_id, 't) chat_message, 'c) p2p_server"
  prog_chat :: "('i \<times> nat, 'v local_node_id, 't, 'c, 'r, 'w) chat_node"
  prog_user :: "'v local_node_id"

datatype main_error = SetupError setup_error | KeyError key_parsing_error

text \<open>Joining the node named on the command line; \<^verbatim>\<open>unwrap\<close> panics when there is no name.\<close>

definition join_contact ::
  "('v, 's) crypto \<Rightarrow> ('i \<times> nat) args \<Rightarrow> ('i \<times> nat, 'v local_node_id, 'p, 'c, 'r, 'w) p2p_node \<Rightarrow>
   (main_error + ('i \<times> nat, 'v local_node_id, 'p, 'c, 'r, 'w) p2p_node) option" where
  "join_contact C args n =
     (case connect_to args of
        None \<Rightarrow> Some (Inr n)
      | Some remote_addr \<Rightarrow>
          do {
            name \<leftarrow> arg_server_name args;
            key \<leftarrow> pk_from_str C name;
            Some (case key of
                Inl e \<Rightarrow> Inl (KeyError e)
              | Inr k \<Rightarrow> Inr (p2p_join (node_id_new remote_addr (LocalNodeId k)) n))
          })"

text \<open>The lines printed, and the program that runs or the error \<^verbatim>\<open>main\<close> returns.\<close>

definition main_start ::
  "('v, 's) crypto \<Rightarrow> ('i, 'e) endpoint_io \<Rightarrow> ('i \<times> nat \<Rightarrow> string) \<Rightarrow> (('i \<times> nat) set \<Rightarrow> ('i \<times> nat) list) \<Rightarrow>
   ('i \<times> nat, 'v local_node_id, 'r, 'w) env \<Rightarrow> (nat \<Rightarrow> u8) \<Rightarrow> 'r \<Rightarrow> 'w \<Rightarrow> ('i \<times> nat) args \<Rightarrow>
   (string list \<times> (main_error + ('i, 'v, 's, 't, 'c, 'r, 'w) program)) option" where
  "main_start C io show_addr order E rnd rng w args =
     do {
       let secret = sk_generate C rnd;
       let local = LocalNodeId (sk_public C secret);
       bound \<leftarrow> builder_bind C io (local_addr args) (keyed_builder secret [APLN]);
       case bound of
         Inl e \<Rightarrow> Some ([], Inl (SetupError e))
       | Inr srv \<Rightarrow>
           do {
             let me = node_id_new (order (srv_addresses srv)) local;
             let line = advertisement C show_addr me;
             n \<leftarrow> p2p_new E rng me (srv_handle srv) w;
             joined \<leftarrow> join_contact C args n;
             Some ([line],
               case joined of
                 Inl e \<Rightarrow> Inl e
               | Inr n \<Rightarrow> Inr \<lparr>prog_server = srv\<lparr>srv_handle := server n\<rparr>,
                   prog_chat = chat_node_new n [], prog_user = local\<rparr>)
           }
     }"

section \<open>Standard input\<close>

text \<open>
  What one round of the reading thread meets: the text \<^verbatim>\<open>read_line\<close> appends to the buffer (the
  empty text at the end of input; \<^const>\<open>None\<close> when it fails), the time, and whether the
  receiver of the channel still exists when the message is sent.  Text is taken to be ASCII.
\<close>

record 't input_round =
  read_line :: "string option"
  round_time :: 't
  receiver_open :: bool

datatype input_end = ReadFailed | ReceiverClosed

definition is_space :: "char \<Rightarrow> bool" where
  "is_space c \<longleftrightarrow> c = CHR '' '' \<or> (9 \<le> (of_char c :: nat) \<and> (of_char c :: nat) \<le> 13)"

definition trim :: "string \<Rightarrow> string" where
  "trim s = rev (dropWhile is_space (rev (dropWhile is_space s)))"

text \<open>The messages sent, and how the thread ended when it did.\<close>

fun input_loop ::
  "'k \<Rightarrow> string \<Rightarrow> 't input_round list \<Rightarrow> ('k, 't) chat_message list \<times> input_end option" where
  "input_loop user buffer [] = ([], None)"
| "input_loop user buffer (r # rs) =
     (case read_line r of
        None \<Rightarrow> ([], Some ReadFailed)
      | Some text \<Rightarrow>
          (let buffer = buffer @ text;
               msg = chat_message_new (round_time r) (trim buffer) (ChatUser user)
           in if \<not> receiver_open r then ([], Some ReceiverClosed)
              else let (sent, end) = input_loop user [] rs in (msg # sent, end)))"

section \<open>What is printed\<close>

lemma str_join_Cons: "xs \<noteq> [] \<Longrightarrow> str_join sep (x # xs) = x @ sep @ str_join sep xs"
  by (cases xs) simp_all

lemma split_join:
  "xs \<noteq> [] \<Longrightarrow> \<forall>x \<in> set xs. c \<notin> set x \<Longrightarrow> split_char c (str_join [c] xs) = xs"
proof (induction xs)
  case (Cons x xs)
  show ?case
  proof (cases "xs = []")
    case True
    then show ?thesis using Cons.prems(2) split_char_none by simp
  next
    case False
    then show ?thesis using Cons split_char_append [of c x] by (simp add: str_join_Cons)
  qed
qed simp

lemma set_str_join: "set (str_join sep xs) \<subseteq> set sep \<union> (\<Union>x \<in> set xs. set x)"
  by (induction sep xs rule: str_join.induct) auto

lemma debug_str_plain:
  "CHR 0x22 \<notin> set s \<Longrightarrow> CHR 0x5C \<notin> set s \<Longrightarrow> debug_str s = CHR 0x22 # s @ [CHR 0x22]"
proof -
  assume s: "CHR 0x22 \<notin> set s" "CHR 0x5C \<notin> set s"
  then have "concat (map (\<lambda>c. if c = CHR 0x22 \<or> c = CHR 0x5C then [CHR 0x5C, c] else [c]) s) = s"
    by (induction s) auto
  then show ?thesis by (simp add: debug_str_def)
qed

text \<open>
  The text of an address is never empty, has no space and nothing that is escaped, and an address can be read
  back from it: what \<^verbatim>\<open>SocketAddr\<close> documents.
\<close>

definition addr_text_ok :: "('a \<Rightarrow> string) \<Rightarrow> (string \<Rightarrow> 'a option) \<Rightarrow> bool" where
  "addr_text_ok show_addr parse_addr \<longleftrightarrow>
     (\<forall>a. parse_addr (show_addr a) = Some a \<and>
        CHR '' '' \<notin> set (show_addr a) \<and> CHR 0x22 \<notin> set (show_addr a) \<and> CHR 0x5C \<notin> set (show_addr a))"

lemma addr_text_plain:
  assumes "addr_text_ok show_addr parse_addr"
  shows "debug_str (str_join '' '' (map show_addr as)) = CHR 0x22 # str_join '' '' (map show_addr as) @ [CHR 0x22]"
    and "CHR 0x22 \<notin> set (str_join '' '' (map show_addr as))"
proof -
  have "CHR 0x22 \<notin> set (str_join '' '' (map show_addr as)) \<and> CHR 0x5C \<notin> set (str_join '' '' (map show_addr as))"
    using set_str_join [of "'' ''" "map show_addr as"] assms by (auto simp: addr_text_ok_def)
  then show "debug_str (str_join '' '' (map show_addr as)) = CHR 0x22 # str_join '' '' (map show_addr as) @ [CHR 0x22]"
    and "CHR 0x22 \<notin> set (str_join '' '' (map show_addr as))"
    using debug_str_plain by auto
qed

lemma addr_text_split:
  assumes "addr_text_ok show_addr parse_addr" "as \<noteq> []"
  shows "map parse_addr (split_char (CHR '' '') (str_join '' '' (map show_addr as))) = map Some as"
  using assms split_join [of "map show_addr as" "CHR '' ''"] by (simp add: addr_text_ok_def)

section \<open>Starting the node\<close>

lemma join_contact_None:
  assumes "crypto_ok C"
  shows "join_contact C args n = None \<longleftrightarrow>
    connect_to args \<noteq> None \<and> (\<forall>name. arg_server_name args = Some name \<longrightarrow> length name \<noteq> 64)"
  using pk_from_str_None [OF assms]
  by (cases "arg_server_name args") (auto simp: join_contact_def bind_eq_None_conv split: option.splits)

text \<open>
  A start up to the join: with a server, the node is made, the line is printed and the rest depends on the contact.
\<close>

lemma main_start_eq:
  assumes "builder_bind C io (local_addr args) (keyed_builder (sk_generate C rnd) [APLN]) = Some (Inr srv)"
    and "me = node_id_new (order (srv_addresses srv)) (LocalNodeId (sk_public C (sk_generate C rnd)))"
    and "p2p_new E rng me (srv_handle srv) w = Some n"
  shows "main_start C io show_addr order E rnd rng w args =
    map_option (\<lambda>joined. ([advertisement C show_addr me],
      map_sum id (\<lambda>n. \<lparr>prog_server = srv\<lparr>srv_handle := server n\<rparr>, prog_chat = chat_node_new n [],
        prog_user = LocalNodeId (sk_public C (sk_generate C rnd))\<rparr>) joined)) (join_contact C args n)"
  using assms by (cases "join_contact C args n") (auto simp: main_start_def Let_def split: sum.split)

lemma main_start_failed:
  assumes "builder_bind C io (local_addr args) (keyed_builder (sk_generate C rnd) [APLN]) =
      Some (Inl e :: setup_error + ('i, 's, 'i \<times> nat, 'v local_node_id, ('v local_node_id, 't) chat_message, 'c) p2p_server)"
  shows "(main_start C io show_addr order E rnd rng w args ::
      (string list \<times> (main_error + ('i, 'v, 's, 't, 'c, 'r, 'w) program)) option) = Some ([], Inl (SetupError e))"
  using assms by (simp add: main_start_def Let_def)

text \<open>What a running program has to be, for the command line it was started with.\<close>

definition started_ok ::
  "('v, 's) crypto \<Rightarrow> ('i \<times> nat \<Rightarrow> string) \<Rightarrow> ('i \<times> nat, 'v local_node_id, 'r, 'w) env \<Rightarrow> 'v public_key \<Rightarrow>
   ('i \<times> nat) args \<Rightarrow> string list \<Rightarrow> ('i, 'v, 's, 't, 'c, 'r, 'w) program \<Rightarrow> bool" where
  "started_ok C show_addr E key args out p \<longleftrightarrow>
     (let n = inner (prog_chat p); me = p2p_id n in
      p2p_reach E n \<and> local_id me = LocalNodeId key \<and> hv_id (hyparview_node n) = me \<and>
      addresses me \<noteq> [] \<and> set (addresses me) = srv_addresses (prog_server p) \<and>
      srv_handle (prog_server p) = server n \<and> get_local_nodeid (server n) = Some (LocalNodeId key) \<and>
      out = [advertisement C show_addr me] \<and> active_view (hyparview_node n) = [] \<and>
      (case connect_to args of
         None \<Rightarrow> hv_actions (hyparview_node n) = []
       | Some remote \<Rightarrow>
           \<exists>name k. arg_server_name args = Some name \<and> pk_from_str C name = Some (Inr k) \<and>
             hv_actions (hyparview_node n) = [HvSend (node_id_new remote (LocalNodeId k)) (mk_join me)]))"

lemma join_contact_Inr:
  assumes "join_contact C args n = Some (Inr n')"
  shows "case connect_to args of
      None \<Rightarrow> n' = n
    | Some remote \<Rightarrow> \<exists>name k. arg_server_name args = Some name \<and> pk_from_str C name = Some (Inr k) \<and>
        n' = p2p_join (node_id_new remote (LocalNodeId k)) n"
proof (cases "connect_to args")
  case (Some remote)
  then obtain name key where "arg_server_name args = Some name" "pk_from_str C name = Some key"
    and "(case key of Inl e \<Rightarrow> Inl (KeyError e)
       | Inr k \<Rightarrow> Inr (p2p_join (node_id_new remote (LocalNodeId k)) n)) = Inr n'"
    using assms by (auto simp: join_contact_def bind_eq_Some_conv)
  with Some show ?thesis by (cases key) auto
qed (use assms in \<open>simp add: join_contact_def\<close>)

lemma started_okI:
  assumes new: "p2p_new E rng me (srv_handle srv) w = Some n" and joined: "join_contact C args n = Some (Inr n')"
    and me: "me = node_id_new (order (srv_addresses srv)) (LocalNodeId key)"
    and order: "iter_ok order" and addrs: "srv_addresses srv = {a, b}"
    and p: "inner (prog_chat p) = n'" "prog_server p = srv\<lparr>srv_handle := server n'\<rparr>"
  shows "started_ok C show_addr E key args [advertisement C show_addr me] p"
proof -
  note n = p2p_new_state [OF new]
  have h: "hv_id (hyparview_node n) = me" "hv_actions (hyparview_node n) = []" "active_view (hyparview_node n) = []"
    by (simp_all add: n hv_new_def hv_with_options_def)
  have ad: "set (addresses me) = {a, b}" "local_id me = LocalNodeId key"
    using iter_ok_set [OF order, of "{a, b}"] by (simp_all add: me node_id_new_def addrs)
  then have "addresses me \<noteq> []" by auto
  moreover have "get_local_nodeid (server n) = Some (LocalNodeId key)"
    by (simp add: n ad get_local_nodeid_def register_local_node_def node_handle_new_def)
  moreover have "p2p_reach E n" using new by (rule p2p_reach.start)
  moreover note contact = join_contact_Inr [OF joined]
  ultimately show ?thesis
  proof (cases "connect_to args")
    case None
    with contact have "n' = n" by simp
    then show ?thesis using \<open>p2p_reach E n\<close> \<open>addresses me \<noteq> []\<close> \<open>get_local_nodeid (server n) = _\<close> h ad n(3) addrs p None
      by (simp add: started_ok_def)
  next
    case (Some remote)
    then obtain name k where k: "arg_server_name args = Some name" "pk_from_str C name = Some (Inr k)"
      and n': "n' = p2p_join (node_id_new remote (LocalNodeId k)) n"
      using contact by auto
    have "p2p_reach E n'" unfolding n' using \<open>p2p_reach E n\<close> by (rule p2p_reach.join)
    moreover have "hyparview_node n' = hyparview_node n\<lparr>hv_actions := [HvSend (node_id_new remote (LocalNodeId k)) (mk_join me)]\<rparr>"
      "p2p_id n' = me" "server n' = server n"
      using h(1,2) n(3) by (simp_all add: n' p2p_join_def p2p_id_def hv_join_def op_defs)
    ultimately show ?thesis
      using \<open>addresses me \<noteq> []\<close> \<open>get_local_nodeid (server n) = _\<close> h ad addrs p Some k
      by (simp add: started_ok_def)
  qed
qed

text \<open>Panics, errors and running programs, one by one; the claim below collects them.\<close>

lemma join_contact_Inl:
  assumes "join_contact C args n = Some (Inl e)"
  shows "\<exists>name e'. arg_server_name args = Some name \<and> pk_from_str C name = Some (Inl e') \<and> e = KeyError e'"
proof -
  obtain remote name key where "arg_server_name args = Some name" "pk_from_str C name = Some key"
    and "(case key of Inl e \<Rightarrow> Inl (KeyError e)
       | Inr k \<Rightarrow> Inr (p2p_join (node_id_new remote (LocalNodeId k)) n)) = Inl e"
    using assms by (auto simp: join_contact_def bind_eq_Some_conv split: option.splits)
  then show ?thesis by (cases key) auto
qed

lemma main_start_error:
  assumes "(main_start C io show_addr order E rnd rng w args ::
      (string list \<times> (main_error + ('i, 'v, 's, 't, 'c, 'r, 'w) program)) option) = Some (out, Inl e)"
  shows "(\<exists>e'. e = SetupError e') \<or>
    (\<exists>name e'. arg_server_name args = Some name \<and> pk_from_str C name = Some (Inl e') \<and> e = KeyError e')"
proof -
  obtain r :: "setup_error + ('i, 's, 'i \<times> nat, 'v local_node_id, ('v local_node_id, 't) chat_message, 'c) p2p_server"
    where r: "builder_bind C io (local_addr args) (keyed_builder (sk_generate C rnd) [APLN]) = Some r"
    using assms by (auto simp: main_start_def bind_eq_Some_conv Let_def)
  show ?thesis
  proof (cases r)
    case (Inl e')
    then show ?thesis using assms r by (auto simp: main_start_def Let_def)
  next
    case (Inr srv)
    with assms r obtain n z where "join_contact C args n = Some z"
      and "(case z of Inl e \<Rightarrow> Inl e
        | Inr n \<Rightarrow> Inr (\<lparr>prog_server = srv\<lparr>srv_handle := server n\<rparr>, prog_chat = chat_node_new n [],
            prog_user = LocalNodeId (sk_public C (sk_generate C rnd))\<rparr> :: ('i, 'v, 's, 't, 'c, 'r, 'w) program)) = Inl e"
      by (auto simp: main_start_def bind_eq_Some_conv Let_def)
    then show ?thesis by (cases z) (auto dest: join_contact_Inl)
  qed
qed

lemma main_start_cases:
  fixes res :: "(string list \<times> (main_error + ('i, 'v, 's, 't, 'c, 'r, 'w) program)) option"
  assumes C: "crypto_ok C" and res: "main_start C io show_addr order E rnd rng w args = res"
  obtains (failed) e where
    "builder_bind C io (local_addr args) (keyed_builder (sk_generate C rnd) [APLN]) =
      Some (Inl e :: setup_error + ('i, 's, 'i \<times> nat, 'v local_node_id, ('v local_node_id, 't) chat_message, 'c) p2p_server)"
    "res = Some ([], Inl (SetupError e))"
  | (bound) me n srv a b where
    "builder_bind C io (local_addr args) (keyed_builder (sk_generate C rnd) [APLN]) =
      Some (Inr (srv :: ('i, 's, 'i \<times> nat, 'v local_node_id, ('v local_node_id, 't) chat_message, 'c) p2p_server))"
    "srv_addresses srv = {a, b}"
    "me = node_id_new (order (srv_addresses srv)) (LocalNodeId (sk_public C (sk_generate C rnd)))"
    "p2p_new E rng me (srv_handle srv) w =
      Some (n :: ('i \<times> nat, 'v local_node_id, ('v local_node_id, 't) chat_message, 'c, 'r, 'w) p2p_node)"
    "res = map_option (\<lambda>joined. ([advertisement C show_addr me],
      map_sum id (\<lambda>n. \<lparr>prog_server = srv\<lparr>srv_handle := server n\<rparr>, prog_chat = chat_node_new n [],
        prog_user = LocalNodeId (sk_public C (sk_generate C rnd))\<rparr>) joined)) (join_contact C args n)"
proof -
  obtain r :: "setup_error + ('i, 's, 'i \<times> nat, 'v local_node_id, ('v local_node_id, 't) chat_message, 'c) p2p_server"
    where r: "builder_bind C io (local_addr args) (keyed_builder (sk_generate C rnd) [APLN]) = Some r"
    by (rule builder_bind_returns [OF C])
  show thesis
  proof (cases r)
    case (Inl e)
    show thesis using r Inl by (intro failed [OF _ trans [OF res [symmetric] main_start_failed]]) simp_all
  next
    case (Inr srv)
    let ?me = "node_id_new (order (srv_addresses srv)) (LocalNodeId (sk_public C (sk_generate C rnd)))"
    obtain n :: "('i \<times> nat, 'v local_node_id, ('v local_node_id, 't) chat_message, 'c, 'r, 'w) p2p_node"
      where n: "p2p_new E rng ?me (srv_handle srv) w = Some n"
      by (rule exE [OF p2p_new_returns])
    obtain a b where ab: "srv_addresses srv = {a, b}"
      using r Inr by (auto simp: builder_bind_Inr bound_server_def)
    show thesis
      by (rule bound [OF r [unfolded Inr] ab refl n])
        (unfold res [symmetric], rule main_start_eq [where me = ?me and order = order, OF r [unfolded Inr] refl n])
  qed
qed

lemma main_start_ok:
  fixes p :: "('i, 'v, 's, 't, 'c, 'r, 'w) program"
  assumes C: "crypto_ok C" and order: "iter_ok order"
    and run: "main_start C io show_addr order E rnd rng w args = Some (out, Inr p)"
  shows "started_ok C show_addr E (sk_public C (sk_generate C rnd)) args out p"
  using C run
proof (cases rule: main_start_cases)
  case (bound me n srv a b)
  obtain z where z: "join_contact C args n = Some z" and out: "out = [advertisement C show_addr me]"
    and "map_sum id (\<lambda>n. \<lparr>prog_server = srv\<lparr>srv_handle := server n\<rparr>, prog_chat = chat_node_new n [],
      prog_user = LocalNodeId (sk_public C (sk_generate C rnd))\<rparr>) z = Inr p"
    using bound(5) [symmetric] unfolding map_option_eq_Some by blast
  then obtain n' where n': "join_contact C args n = Some (Inr n')"
    "inner (prog_chat p) = n'" "prog_server p = srv\<lparr>srv_handle := server n'\<rparr>"
    by (cases z) (auto simp: chat_node_new_def)
  show ?thesis unfolding out by (rule started_okI [OF bound(4) n'(1) bound(3) order bound(2) n'(2,3)])
qed simp

lemma main_start_None:
  assumes C: "crypto_ok C"
  shows "(main_start C io show_addr order E rnd rng w args ::
        (string list \<times> (main_error + ('i, 'v, 's, 't, 'c, 'r, 'w) program)) option) = None \<longleftrightarrow>
      (\<exists>srv :: ('i, 's, 'i \<times> nat, 'v local_node_id, ('v local_node_id, 't) chat_message, 'c) p2p_server.
         builder_bind C io (local_addr args) (keyed_builder (sk_generate C rnd) [APLN]) = Some (Inr srv)) \<and>
      connect_to args \<noteq> None \<and> (\<forall>name. arg_server_name args = Some name \<longrightarrow> length name \<noteq> 64)"
    (is "?main = None \<longleftrightarrow> _")
  using C refl [of ?main]
proof (cases rule: main_start_cases)
  case (failed e)
  then show ?thesis by simp
next
  case (bound me n srv a b)
  then show ?thesis using join_contact_None [OF C, of args n] by simp
qed

text \<open>
  C18. Starting the program.  It panics exactly when a server could be set up and a contact is given
  without a key of 64 digits.  Otherwise it returns the error of the server or of the key, or it
  runs: the node is a fresh reachable node under the generated key and all addresses of the
  server, is registered with the server, has printed the line that tells others how to join it,
  and has queued one JOIN to the contact, or nothing when none was given.
\<close>

theorem main_starts_node:
  assumes C: "crypto_ok C" and order: "iter_ok order"
  shows "((main_start C io show_addr order E rnd rng w args ::
        (string list \<times> (main_error + ('i, 'v, 's, 't, 'c, 'r, 'w) program)) option) = None \<longleftrightarrow>
      (\<exists>srv :: ('i, 's, 'i \<times> nat, 'v local_node_id, ('v local_node_id, 't) chat_message, 'c) p2p_server.
         builder_bind C io (local_addr args) (keyed_builder (sk_generate C rnd) [APLN]) = Some (Inr srv)) \<and>
      connect_to args \<noteq> None \<and> (\<forall>name. arg_server_name args = Some name \<longrightarrow> length name \<noteq> 64)) \<and>
    (\<forall>out. \<forall>p :: ('i, 'v, 's, 't, 'c, 'r, 'w) program.
      main_start C io show_addr order E rnd rng w args = Some (out, Inr p) \<longrightarrow>
        started_ok C show_addr E (sk_public C (sk_generate C rnd)) args out p)"
  by (intro conjI allI impI main_start_None [OF C] main_start_ok [OF C order])

section \<open>Advertising and joining\<close>

lemma append_at_first:
  "c \<notin> set xs \<Longrightarrow> c \<notin> set ys \<Longrightarrow> xs @ c # us = ys @ c # vs \<longleftrightarrow> xs = ys \<and> us = vs"
proof (induction xs arbitrary: ys)
  case (Cons x xs)
  then show ?case by (cases ys) auto
qed (case_tac ys; auto)

lemma advertisement_inject:
  assumes shown: "addr_text_ok show_addr parse_addr"
    and line: "advertisement C show_addr me = ''cargo run -- --connect-to='' @ CHR 0x22 # v @ CHR 0x22 # '' -s='' @ sid"
    and v: "CHR 0x22 \<notin> set v"
  shows "v = str_join '' '' (map show_addr (addresses me))" "sid = local_node_id_display C (local_id me)"
proof -
  note plain = addr_text_plain [OF shown, of "addresses me"]
  have "str_join '' '' (map show_addr (addresses me)) @ CHR 0x22 # '' -s='' @ local_node_id_display C (local_id me) =
      v @ CHR 0x22 # '' -s='' @ sid"
    using line unfolding advertisement_def plain(1) by (simp only: append_assoc append_Cons append_Nil append.simps list.inject same_append_eq)
  then show "v = str_join '' '' (map show_addr (addresses me))" "sid = local_node_id_display C (local_id me)"
    unfolding append_at_first [OF plain(2) v] by simp_all
qed

text \<open>
  C19. The printed line works.  If a program prints its line and another is started with the
  addresses between the quotes of that line, split at spaces, and the identifier after them,
  then the other neither panics nor rejects the key, and once it runs it has queued exactly one
  message: a JOIN with its own identifier to the identifier of the first.
\<close>

theorem advertised_node_is_joined:
  fixes p1 :: "('i, 'v, 's, 't, 'c, 'r, 'w) program"
  assumes C: "crypto_ok C" and order1: "iter_ok order1" and order2: "iter_ok order2"
    and shown: "addr_text_ok show_addr parse_addr"
    and first: "main_start C io1 show_addr order1 E1 rnd1 rng1 w1 args1 = Some (out1, Inr p1)"
    and line: "out1 = [''cargo run -- --connect-to='' @ CHR 0x22 # v @ CHR 0x22 # '' -s='' @ sid]" "CHR 0x22 \<notin> set v"
    and args: "map parse_addr (split_char (CHR '' '') v) = map Some addrs"
      "connect_to args2 = Some addrs" "arg_server_name args2 = Some sid"
  shows "\<exists>out r. (main_start C io2 show_addr order2 E2 rnd2 rng2 w2 args2 ::
        (string list \<times> (main_error + ('i, 'v, 's, 't, 'c, 'r, 'w) program)) option) = Some (out, r) \<and>
    (case r of
       Inl e \<Rightarrow> \<exists>e'. e = SetupError e'
     | Inr p2 \<Rightarrow> hv_actions (hyparview_node (inner (prog_chat p2))) =
         [HvSend (p2p_id (inner (prog_chat p1))) (mk_join (p2p_id (inner (prog_chat p2))))])"
    (is "\<exists>out r. ?main = _ \<and> _")
proof -
  let ?me = "p2p_id (inner (prog_chat p1))" and ?key1 = "sk_public C (sk_generate C rnd1)"
  have ok1: "started_ok C show_addr E1 ?key1 args1 out1 p1"
    by (rule main_start_ok [OF C order1 first])
  then have me: "local_id ?me = LocalNodeId ?key1" "addresses ?me \<noteq> []"
    and out: "advertisement C show_addr ?me = ''cargo run -- --connect-to='' @ CHR 0x22 # v @ CHR 0x22 # '' -s='' @ sid"
    unfolding line(1) by (simp_all add: started_ok_def Let_def)
  note inj = advertisement_inject [OF shown out line(2)]
  have "map Some addrs = map Some (addresses ?me)"
    using args(1) addr_text_split [OF shown me(2)] by (simp add: inj(1))
  then have addrs: "addrs = addresses ?me" by (simp add: inj_map_eq_map)
  have sid: "pk_from_str C sid = Some (Inr ?key1)"
    using pk_from_str_display [OF C] by (simp add: inj(2) me(1))
  have id: "node_id_new addrs (LocalNodeId ?key1) = ?me"
    using me(1) addrs by (simp add: node_id_new_def)
  have "?main \<noteq> None"
    using pk_from_str_None [OF C, of sid] sid args(3) by (simp add: main_start_None [OF C])
  then obtain out r where main: "?main = Some (out, r)" by auto
  show ?thesis
  proof (intro exI conjI)
    show "?main = Some (out, r)" by (rule main)
    show "case r of Inl e \<Rightarrow> \<exists>e'. e = SetupError e'
      | Inr p2 \<Rightarrow> hv_actions (hyparview_node (inner (prog_chat p2))) =
          [HvSend ?me (mk_join (p2p_id (inner (prog_chat p2))))]"
    proof (cases r)
      case (Inl e)
      then show ?thesis using main_start_error [OF main [unfolded Inl]] sid args(3) by auto
    next
      case (Inr p2)
      have "started_ok C show_addr E2 (sk_public C (sk_generate C rnd2)) args2 out p2"
        by (rule main_start_ok [OF C order2 main [unfolded Inr]])
      then show ?thesis using args(2,3) sid Inr by (auto simp: started_ok_def Let_def id)
    qed
  qed
qed

section \<open>Reading\<close>

text \<open>A round after which the thread goes on, and what the thread reports of a round after which it does not.\<close>

definition continues :: "'t input_round \<Rightarrow> bool" where
  "continues r \<longleftrightarrow> read_line r \<noteq> None \<and> receiver_open r"

lemma input_loop_rounds:
  "input_loop user [] rs =
     (map (\<lambda>r. chat_message_new (round_time r) (trim (the (read_line r))) (ChatUser user)) (takeWhile continues rs),
      case dropWhile continues rs of
        [] \<Rightarrow> None
      | r # _ \<Rightarrow> Some (if read_line r = None then ReadFailed else ReceiverClosed))"
proof (induction rs)
  case (Cons r rs)
  then show ?case by (cases "read_line r") (simp_all add: continues_def split: prod.split)
qed simp

lemma trim_ends:
  "trim s = [] \<or> \<not> is_space (hd (trim s)) \<and> \<not> is_space (last (trim s))"
proof -
  let ?t = "dropWhile is_space s"
  have "\<not> is_space (hd ?t)" if "?t \<noteq> []" using that by (rule hd_dropWhile)
  moreover have "\<exists>zs. ?t = trim s @ zs \<and> (\<forall>c \<in> set zs. is_space c)"
    by (intro exI [of _ "rev (takeWhile is_space (rev ?t))"])
      (auto simp: trim_def dest: set_takeWhileD simp flip: rev_append)
  ultimately have "trim s \<noteq> [] \<longrightarrow> \<not> is_space (hd (trim s))" by (metis hd_append append_is_Nil_conv)
  moreover have "trim s \<noteq> [] \<longrightarrow> \<not> is_space (last (trim s))"
    unfolding trim_def by (metis hd_dropWhile last_rev rev_is_Nil_conv)
  ultimately show ?thesis by blast
qed

text \<open>
  C34. What the reading thread does.  It sends one message per round, in order, under the user's
  identifier and with the line without the white space around it, up to the first round in
  which reading fails or the receiver is gone, and then ends with that error.  The end of the
  input does not end it: every further round sends an empty message.
\<close>

theorem input_lines_are_sent:
  "input_loop user [] rs =
     (map (\<lambda>r. chat_message_new (round_time r) (trim (the (read_line r))) (ChatUser user)) (takeWhile continues rs),
      case dropWhile continues rs of
        [] \<Rightarrow> None
      | r # _ \<Rightarrow> Some (if read_line r = None then ReadFailed else ReceiverClosed)) \<and>
   input_loop user [] (map (\<lambda>t. \<lparr>read_line = Some [], round_time = t, receiver_open = True\<rparr>) ts) =
     (map (\<lambda>t. chat_message_new t [] (ChatUser user)) ts, None)"
proof
  show "input_loop user [] (map (\<lambda>t. \<lparr>read_line = Some [], round_time = t, receiver_open = True\<rparr>) ts) =
      (map (\<lambda>t. chat_message_new t [] (ChatUser user)) ts, None)"
    by (induction ts) (simp_all add: trim_def)
qed (rule input_loop_rounds)

section \<open>An instance\<close>

definition demo_show :: "nat \<times> nat \<Rightarrow> string" where
  "demo_show a = replicate (fst a) (CHR ''a'') @ CHR '':'' # replicate (snd a) (CHR ''b'')"

definition demo_parse :: "string \<Rightarrow> (nat \<times> nat) option" where
  "demo_parse s = Some (length (takeWhile (\<lambda>c. c = CHR ''a'') s), length (filter (\<lambda>c. c = CHR ''b'') s))"

lemma demo_text_ok: "addr_text_ok demo_show demo_parse"
proof -
  have "takeWhile (\<lambda>c. c = CHR ''a'') (replicate n (CHR ''a'') @ CHR '':'' # s) = replicate n (CHR ''a'')" for n s
    by (induction n) simp_all
  moreover have "filter (\<lambda>c. c = CHR ''b'') (replicate n (CHR ''a'')) = []" for n
    by (induction n) simp_all
  ultimately show ?thesis by (simp add: addr_text_ok_def demo_show_def demo_parse_def)
qed

definition demo_env :: "(nat \<times> nat, bool local_node_id, nat, nat) env" where
  "demo_env = \<lparr>env_rng = counting_rng, env_iter = \<lparr>peer_iter = (\<lambda>S. []), key_iter = (\<lambda>S. [])\<rparr>,
     env_world = counting_world\<rparr>"

definition demo_args :: "(nat \<times> nat) args" where
  "demo_args = \<lparr>local_addr = None, connect_to = None, arg_server_name = None, ai_agent = False, without_ui = False\<rparr>"

definition demo_main ::
  "u8 \<Rightarrow> (nat \<times> nat) args \<Rightarrow> (string list \<times> (main_error + (nat, bool, bool, nat, nat, nat, nat) program)) option" where
  "demo_main b args = main_start demo_crypto demo_io demo_show sorted_list_of_set demo_env (\<lambda>_. b) 0 0 args"

lemma demo_generate: "sk_generate demo_crypto (\<lambda>_. 1) = SecretKey True"
  by (simp add: sk_generate_def demo_crypto_def eval_nat_numeral)

lemma demo_bind:
  "\<exists>srv. builder_bind demo_crypto demo_io None (keyed_builder (sk_generate demo_crypto (\<lambda>_. 1)) [APLN]) = Some (Inr srv)"
  unfolding demo_generate using demo_builder_bind by blast

lemma demo_start:
  "\<exists>out p. demo_main 1 demo_args = Some (out, Inr p) \<and>
     addresses (p2p_id (inner (prog_chat p))) = [(5, 4433), (8, 4433)]"
proof -
  obtain tls where bind: "builder_bind demo_crypto demo_io (local_addr demo_args)
      (keyed_builder (sk_generate demo_crypto (\<lambda>_. 1)) [APLN]) =
      Some (Inr (bound_server (8, 4433) (5, 4433) tls [APLN] ::
        (nat, bool, nat \<times> nat, bool local_node_id, (bool local_node_id, nat) chat_message, nat) p2p_server))"
    (is "_ = Some (Inr ?srv)")
    unfolding demo_generate using demo_builder_bind by (auto simp: demo_args_def)
  let ?me = "node_id_new (sorted_list_of_set (srv_addresses ?srv)) (LocalNodeId (sk_public demo_crypto (sk_generate demo_crypto (\<lambda>_. 1))))"
  obtain n :: "(nat \<times> nat, bool local_node_id, (bool local_node_id, nat) chat_message, nat, nat, nat) p2p_node"
    where n: "p2p_new demo_env 0 ?me (srv_handle ?srv) 0 = Some n"
    by (rule exE [OF p2p_new_returns])
  have "p2p_id n = ?me" by (rule p2p_new_state [OF n])
  then have "addresses (p2p_id n) = [(5, 4433), (8, 4433)]" by (simp add: node_id_new_def bound_server_def)
  moreover have "join_contact demo_crypto demo_args n = Some (Inr n)" by (simp add: join_contact_def demo_args_def)
  ultimately show ?thesis
    unfolding demo_main_def main_start_eq [where me = ?me and order = sorted_list_of_set, OF bind refl n]
    by (simp add: chat_node_new_def)
qed

theorem main_starts_node_witness:
  "demo_main 1 (demo_args\<lparr>connect_to := Some [(1, 1)], arg_server_name := Some ''abc''\<rparr>) = None \<and>
   (\<exists>out p. demo_main 1 demo_args = Some (out, Inr p) \<and>
      started_ok demo_crypto demo_show demo_env (PublicKey True) demo_args out p)"
proof -
  note claim = main_starts_node [where rnd = "\<lambda>_. 1", OF demo_crypto_ok sorted_list_of_set_iter_ok]
  have key: "sk_public demo_crypto (sk_generate demo_crypto (\<lambda>_. 1)) = PublicKey True"
    unfolding demo_generate by (simp add: sk_public_def demo_crypto_def)
  obtain out p where run: "demo_main 1 demo_args = Some (out, Inr p)" using demo_start by blast
  have "started_ok demo_crypto demo_show demo_env (PublicKey True) demo_args out p"
    unfolding key [symmetric]
    by (rule claim [THEN conjunct2, rule_format, where p = p, OF run [unfolded demo_main_def]])
  with run have "\<exists>out p. demo_main 1 demo_args = Some (out, Inr p) \<and>
      started_ok demo_crypto demo_show demo_env (PublicKey True) demo_args out p" by blast
  moreover have "demo_main 1 (demo_args\<lparr>connect_to := Some [(1, 1)], arg_server_name := Some ''abc''\<rparr>) = None"
    unfolding demo_main_def using demo_bind by (intro claim [THEN conjunct1, THEN iffD2]) (simp add: demo_args_def)
  ultimately show ?thesis by blast
qed

theorem advertised_node_is_joined_witness:
  "\<exists>out1 p1 sid out2 r. demo_main 1 demo_args = Some (out1, Inr p1) \<and>
     demo_main 0 (demo_args\<lparr>connect_to := Some [(5, 4433), (8, 4433)], arg_server_name := Some sid\<rparr>) = Some (out2, r) \<and>
     (\<forall>p2. r = Inr p2 \<longrightarrow> hv_actions (hyparview_node (inner (prog_chat p2))) =
        [HvSend (p2p_id (inner (prog_chat p1))) (mk_join (p2p_id (inner (prog_chat p2))))])"
proof -
  obtain out1 p1 where first: "demo_main 1 demo_args = Some (out1, Inr p1)"
    and addrs: "addresses (p2p_id (inner (prog_chat p1))) = [(5, 4433), (8, 4433)]" using demo_start by blast
  let ?me = "p2p_id (inner (prog_chat p1))"
  let ?v = "str_join '' '' (map demo_show (addresses ?me))" and ?sid = "local_node_id_display demo_crypto (local_id ?me)"
  let ?args = "demo_args\<lparr>connect_to := Some [(5, 4433), (8, 4433)], arg_server_name := Some ?sid\<rparr>"
  note main = first [unfolded demo_main_def]
  have "started_ok demo_crypto demo_show demo_env (sk_public demo_crypto (sk_generate demo_crypto (\<lambda>_. 1))) demo_args out1 p1"
    by (rule main_start_ok [OF demo_crypto_ok sorted_list_of_set_iter_ok main])
  then have line: "out1 = [''cargo run -- --connect-to='' @ CHR 0x22 # ?v @ CHR 0x22 # '' -s='' @ ?sid]"
    by (simp add: started_ok_def Let_def advertisement_def addr_text_plain(1) [OF demo_text_ok])
  have parsed: "map demo_parse (split_char (CHR '' '') ?v) = map Some [(5, 4433), (8, 4433)]"
    unfolding addrs [symmetric] by (rule addr_text_split [OF demo_text_ok]) (simp add: addrs)
  have args: "connect_to ?args = Some [(5, 4433), (8, 4433)]" "arg_server_name ?args = Some ?sid" by simp_all
  from advertised_node_is_joined [where ?io2.0 = demo_io and ?rnd2.0 = "\<lambda>_. 0" and ?rng2.0 = 0 and ?w2.0 = 0 and ?E2.0 = demo_env,
      OF demo_crypto_ok sorted_list_of_set_iter_ok sorted_list_of_set_iter_ok demo_text_ok main line
      addr_text_plain(2) [OF demo_text_ok] parsed args]
  obtain out2 r where "demo_main 0 ?args = Some (out2, r)"
    and "case r of Inl e \<Rightarrow> \<exists>e'. e = SetupError e'
      | Inr p2 \<Rightarrow> hv_actions (hyparview_node (inner (prog_chat p2))) = [HvSend ?me (mk_join (p2p_id (inner (prog_chat p2))))]"
    unfolding demo_main_def [symmetric] by blast
  then show ?thesis using first by (intro exI [of _ out1] exI [of _ p1] exI [of _ ?sid] exI [of _ out2] exI [of _ r]) auto
qed

end
