(* ===== verification/Identifiers.thy ===== *)
theory Identifiers
  imports Tls_Identity Node_Server "HOL-Library.List_Lexorder"
begin

text \<open>
  The orders of the identifiers (\<^verbatim>\<open>node_id.rs\<close>, \<^verbatim>\<open>message.rs\<close>): the derived orders of \<^verbatim>\<open>NodeId\<close>
  and \<^verbatim>\<open>MessageId\<close> compare the fields in the order of their declaration, and keys are compared
  by their bytes.
\<close>

section \<open>Derived orders\<close>

instantiation node_id_ext :: (linorder, linorder, linorder) linorder
begin

definition less_eq_node_id_ext :: "('a, 'b, 'c) node_id_ext \<Rightarrow> ('a, 'b, 'c) node_id_ext \<Rightarrow> bool" where
  "x \<le> y \<longleftrightarrow> addresses x < addresses y \<or>
     addresses x = addresses y \<and> (local_id x < local_id y \<or>
       local_id x = local_id y \<and> node_id.more x \<le> node_id.more y)"

definition less_node_id_ext :: "('a, 'b, 'c) node_id_ext \<Rightarrow> ('a, 'b, 'c) node_id_ext \<Rightarrow> bool" where
  "x < y \<longleftrightarrow> addresses x < addresses y \<or>
     addresses x = addresses y \<and> (local_id x < local_id y \<or>
       local_id x = local_id y \<and> node_id.more x < node_id.more y)"

instance
  by standard (auto simp: less_eq_node_id_ext_def less_node_id_ext_def intro: node_id.equality)

end

instantiation message_id_ext :: (linorder, linorder, linorder) linorder
begin

definition less_eq_message_id_ext ::
  "('a, 'b, 'c) message_id_ext \<Rightarrow> ('a, 'b, 'c) message_id_ext \<Rightarrow> bool" where
  "x \<le> y \<longleftrightarrow> mid_node x < mid_node y \<or>
     mid_node x = mid_node y \<and> (mid_seqno x < mid_seqno y \<or>
       mid_seqno x = mid_seqno y \<and> (mid_timestamp x < mid_timestamp y \<or>
         mid_timestamp x = mid_timestamp y \<and> message_id.more x \<le> message_id.more y))"

definition less_message_id_ext ::
  "('a, 'b, 'c) message_id_ext \<Rightarrow> ('a, 'b, 'c) message_id_ext \<Rightarrow> bool" where
  "x < y \<longleftrightarrow> mid_node x < mid_node y \<or>
     mid_node x = mid_node y \<and> (mid_seqno x < mid_seqno y \<or>
       mid_seqno x = mid_seqno y \<and> (mid_timestamp x < mid_timestamp y \<or>
         mid_timestamp x = mid_timestamp y \<and> message_id.more x < message_id.more y))"

instance
  by standard (auto simp: less_eq_message_id_ext_def less_message_id_ext_def intro: message_id.equality)

end

section \<open>The order of keys\<close>

text \<open>The comparison of the code is the lexicographic order of the library.\<close>

lemma bytes_cmp_less: "bytes_cmp a b < 0 \<longleftrightarrow> a < b"
  by (induction a b rule: bytes_cmp.induct) auto

lemma bytes_cmp_eq: "bytes_cmp a b = 0 \<longleftrightarrow> a = b"
  by (induction a b rule: bytes_cmp.induct) auto

lemma bytes_cmp_swap: "bytes_cmp b a = - bytes_cmp a b"
  by (induction a b rule: bytes_cmp.induct) auto

lemma vk_as_bytes_inj: "crypto_ok C \<Longrightarrow> vk_as_bytes C a = vk_as_bytes C b \<Longrightarrow> a = b"
  unfolding crypto_ok_def by (metis option.inject)

text \<open>
  C31. Comparing keys by their bytes is a total order on keys: it is \<open>Equal\<close> on equal keys only,
  reversing the arguments reverses the answer, and it is transitive.
\<close>

theorem keys_totally_ordered:
  assumes C: "crypto_ok C"
  shows "(pk_cmp C a b = 0 \<longleftrightarrow> a = b) \<and> pk_cmp C b a = - pk_cmp C a b \<and>
    (pk_cmp C a b < 0 \<longrightarrow> pk_cmp C b c < 0 \<longrightarrow> pk_cmp C a c < 0) \<and>
    (pk_cmp C a b < 0 \<longleftrightarrow> vk_as_bytes C (key_of a) < vk_as_bytes C (key_of b))"
proof -
  have "pk_cmp C a b = 0 \<longleftrightarrow> a = b"
    using vk_as_bytes_inj [OF C] by (auto simp: pk_cmp_def bytes_cmp_eq intro: public_key.expand)
  then show ?thesis by (auto simp: pk_cmp_def bytes_cmp_less intro: bytes_cmp_swap)
qed

theorem keys_totally_ordered_witness:
  "pk_cmp demo_crypto (PublicKey False) (PublicKey True) = - pk_cmp demo_crypto (PublicKey True) (PublicKey False) \<and>
   pk_cmp demo_crypto (PublicKey False) (PublicKey True) < 0"
  using keys_totally_ordered [OF demo_crypto_ok, of "PublicKey True" "PublicKey False"]
  by (simp add: pk_cmp_def demo_crypto_def eval_nat_numeral)

end
