(* ===== verification/Two_Nodes.thy ===== *)
theory Two_Nodes
  imports P2P_Safety Identifiers
begin

text \<open>
  Two nodes from their start to a delivered message: the second joins the first, they become
  neighbours in both protocols, and what the first broadcasts is handed out by the second.
  This runs every layer of the node (\<^verbatim>\<open>poll_next\<close>, HyParView, Plumtree, the buffer, the sending
  tasks) in one execution.
\<close>

section \<open>The run\<close>

text \<open>
  The sending tasks of one node run in order; what they transmit to the other node arrives in its
  inbox, and a task that fails reports it as \<^verbatim>\<open>send_protocol_message_sync\<close> does.
\<close>

fun exchange_tasks ::
  "('a, 'k, 'p, 'c) network \<Rightarrow> (('a, 'k) node_id \<times> ('a, 'k, 'p) p2p_message) list \<Rightarrow>
   ('a, 'k, 'p, 'c, 'r, 'w) p2p_node \<Rightarrow> ('a, 'k, 'p, 'd, 's, 'v) p2p_node \<Rightarrow>
   (('a, 'k, 'p, 'c, 'r, 'w) p2p_node \<times> ('a, 'k, 'p, 'd, 's, 'v) p2p_node) option" where
  "exchange_tasks net [] src dst = Some (src, dst)"
| "exchange_tasks net ((d, m) # tasks) src dst =
     (case send_protocol_message_async net d m (server src) of
        None \<Rightarrow> None
      | Some (Inl e, s) \<Rightarrow> exchange_tasks net tasks (src\<lparr>server := notify_self_disconnect d s\<rparr>) dst
      | Some (Inr u, s) \<Rightarrow> exchange_tasks net tasks (src\<lparr>server := s\<rparr>)
          (if get_local_nodeid (server dst) = Some (local_id d)
           then dst\<lparr>server := deliver_local m (server dst)\<rparr> else dst))"

definition exchange ::
  "('a, 'k, 'p, 'c) network \<Rightarrow> ('a, 'k, 'p, 'c, 'r, 'w) p2p_node \<Rightarrow> ('a, 'k, 'p, 'd, 's, 'v) p2p_node \<Rightarrow>
   (('a, 'k, 'p, 'c, 'r, 'w) p2p_node \<times> ('a, 'k, 'p, 'd, 's, 'v) p2p_node) option" where
  "exchange net src dst =
     exchange_tasks net (spawned (server src)) (src\<lparr>server := (server src)\<lparr>spawned := []\<rparr>\<rparr>) dst"

text \<open>A poll that is expected to hand out nothing, and all the messages on their way.\<close>

definition poll_pending ::
  "('a, 'k, 'r, 'w) env \<Rightarrow> ('a, 'k, 'p, 'c, 'r, 'w) p2p_node \<Rightarrow> ('a, 'k, 'p, 'c, 'r, 'w) p2p_node option" where
  "poll_pending E n = (case poll_next E False n of Some (None, n') \<Rightarrow> Some n' | _ \<Rightarrow> None)"

definition join_run ::
  "('a, 'k, 'r, 'w) env \<Rightarrow> ('a, 'k, 's, 'v) env \<Rightarrow> ('a, 'k, 'p, 'c) network \<Rightarrow> ('a, 'k, 'p, 'd) network \<Rightarrow>
   ('a, 'k, 'p, 'c, 'r, 'w) p2p_node \<Rightarrow> ('a, 'k, 'p, 'd, 's, 'v) p2p_node \<Rightarrow>
   (('a, 'k, 'p, 'c, 'r, 'w) p2p_node \<times> ('a, 'k, 'p, 'd, 's, 'v) p2p_node) option" where
  "join_run E1 E2 net1 net2 n1 n2 =
     do {
       n2 \<leftarrow> poll_pending E2 n2;
       (n2, n1) \<leftarrow> exchange net2 n2 n1;
       n1 \<leftarrow> poll_pending E1 n1;
       (n1, n2) \<leftarrow> exchange net1 n1 n2;
       n2 \<leftarrow> poll_pending E2 n2;
       (n2, n1) \<leftarrow> exchange net2 n2 n1;
       n1 \<leftarrow> poll_pending E1 n1;
       Some (n1, n2)
     }"

definition broadcast_run ::
  "('a, 'k, 'r, 'w) env \<Rightarrow> ('a, 'k, 's, 'v) env \<Rightarrow> ('a, 'k, 'p, 'c) network \<Rightarrow> 'p \<Rightarrow>
   ('a, 'k, 'p, 'c, 'r, 'w) p2p_node \<Rightarrow> ('a, 'k, 'p, 'd, 's, 'v) p2p_node \<Rightarrow>
   (('a, 'k) message_id \<times> ('a, 'k, 'p, 'c, 'r, 'w) p2p_node \<times> ('a, 'k, 'p, 'd, 's, 'v) p2p_node) option" where
  "broadcast_run E1 E2 net1 payload n1 n2 =
     do {
       (i, n1) \<leftarrow> p2p_broadcast E1 payload n1;
       n1 \<leftarrow> poll_pending E1 n1;
       (n1, n2) \<leftarrow> exchange net1 n1 n2;
       n2 \<leftarrow> poll_pending E2 n2;
       Some (i, n1, n2)
     }"

section \<open>Steps of a poll\<close>

definition steady_clock :: "('a, 'k, 'r, 'w) env \<Rightarrow> nat \<Rightarrow> bool" where
  "steady_clock E lo \<longleftrightarrow> lo + 1000 < 2 ^ 64 \<and>
     (\<forall>w. \<exists>t w'. sys_now (env_world E) w = (Some t, w') \<and> lo \<le> t \<and> t \<le> lo + 1000)"

lemma steady_clock_now:
  assumes "steady_clock E lo"
  obtains t w' where "now_or_zero E w = (t, w')" "sys_now (env_world E) w = (Some t, w')" "as_u64 t = t" "lo \<le> t" "t \<le> lo + 1000"
proof -
  obtain t w' where "sys_now (env_world E) w = (Some t, w')" "lo \<le> t" "t \<le> lo + 1000" "lo + 1000 < 2 ^ 64"
    using assms unfolding steady_clock_def by blast
  then show thesis by (intro that [of t w']) (auto simp: now_or_zero_def as_u64_def)
qed

lemma process_nothing:
  assumes "message_buffer n = []" "processed_messages n = []"
  shows "process_sequential_messages E n = (None, n\<lparr>world := snd (now_or_zero E (world n))\<rparr>)"
  using assms by (cases "now_or_zero E (world n)")
    (simp add: process_sequential_messages_def cleanup_expired_messages_def btree_first_def MAX_PROCESSED_CACHE_LEN_def)

lemma process_young:
  assumes "message_buffer n = [(ts, m, rt)]" "processed_messages n = []"
    and "fst (now_or_zero E (world n)) \<le> rt + 1000"
  shows "process_sequential_messages E n = (None, n\<lparr>world := snd (now_or_zero E (world n))\<rparr>)"
proof (cases "now_or_zero E (world n)")
  case (Pair t w)
  moreover have "n\<lparr>world := w, processed_messages := []\<rparr> = n\<lparr>world := w\<rparr>" using assms(2) by (cases n) simp
  moreover have "\<not> (rt \<le> t \<and> 1000 < t - rt)" using assms(3) Pair by auto
  ultimately show ?thesis using assms
    by (cases "rt \<le> t") (simp_all add: process_sequential_messages_def cleanup_expired_messages_def btree_first_def Let_def
      MAX_PROCESSED_CACHE_LEN_def MAX_OUT_OF_ORDER_DELAY_MS_def)
qed

text \<open>A buffer that holds at most one message, which cannot have waited for a second.\<close>

definition calm_buffer :: "nat \<Rightarrow> ('a, 'k, 'p, 'c, 'r, 'w) p2p_node \<Rightarrow> bool" where
  "calm_buffer lo n \<longleftrightarrow> processed_messages n = [] \<and>
     (message_buffer n = [] \<or> (\<exists>ts m rt. message_buffer n = [(ts, m, rt)] \<and> lo \<le> rt))"

lemma process_calm:
  assumes "steady_clock E lo" "calm_buffer lo n"
  obtains w where "process_sequential_messages E n = (None, n\<lparr>world := w\<rparr>)"
proof -
  obtain t w where now: "now_or_zero E (world n) = (t, w)" "t \<le> lo + 1000"
    using steady_clock_now [OF assms(1), of "world n"] by metis
  show thesis
  proof (cases "message_buffer n = []")
    case True
    then show thesis using process_nothing [OF True] assms(2) by (intro that) (auto simp: calm_buffer_def)
  next
    case False
    then obtain ts m rt where "message_buffer n = [(ts, m, rt)]" "lo \<le> rt"
      using assms(2) by (auto simp: calm_buffer_def)
    then show thesis using process_young [of n ts m rt E] assms(2) now by (intro that) (auto simp: calm_buffer_def)
  qed
qed

lemma drain_hyparview_Nil: "hv_actions (hyparview_node n) = [] \<Longrightarrow> drain_hyparview E n = Some n"
  by (subst drain_hyparview.simps) (simp add: hv_poll_action_def)

lemma drain_hyparview_send:
  "hv_actions (hyparview_node n) = HvSend d m # as \<Longrightarrow> drain_hyparview E n =
     drain_hyparview E (n\<lparr>hyparview_node := hyparview_node n\<lparr>hv_actions := as\<rparr>,
       server := (server n)\<lparr>spawned := spawned (server n) @ [(d, MHyparview m)]\<rparr>\<rparr>)"
  by (subst drain_hyparview.simps)
    (simp add: hv_poll_action_def handle_hyparview_action_def send_protocol_message_sync_def)

lemma drain_hyparview_up:
  "hv_actions (hyparview_node n) = HvNotify (NeighborUp p) # as \<Longrightarrow> drain_hyparview E n =
     drain_hyparview E (n\<lparr>hyparview_node := hyparview_node n\<lparr>hv_actions := as\<rparr>,
       plumtree_node := handle_neighbor_up (env_iter E) p (plumtree_node n)\<rparr>)"
  by (subst drain_hyparview.simps) (simp add: hv_poll_action_def handle_hyparview_action_def)

lemma expiration_nothing: "missings n = missing_new \<Longrightarrow> handle_expiration n = Some n"
  by (subst handle_expiration.simps, subst pop_expired.simps) (simp add: missing_new_def heap_peek_def)

lemma drain_plumtree_Nil:
  "missings (plumtree_node n) = missing_new \<Longrightarrow> pt_actions (plumtree_node n) = [] \<Longrightarrow>
     drain_plumtree E n = Some (None, False, n)"
  by (subst drain_plumtree.simps) (simp add: pt_poll_action_def expiration_nothing queue_pop_def)

lemma drain_plumtree_send:
  assumes "missings (plumtree_node n) = missing_new" "pt_actions (plumtree_node n) = PtSend d m # as"
  shows "drain_plumtree E n = map_option (\<lambda>(r, _, n). (r, True, n))
     (drain_plumtree E (n\<lparr>plumtree_node := plumtree_node n\<lparr>pt_actions := as\<rparr>,
       server := (server n)\<lparr>spawned := spawned (server n) @ [(d, MPlumtree m)]\<rparr>\<rparr>))"
  using assms by (subst drain_plumtree.simps)
    (simp add: pt_poll_action_def expiration_nothing queue_pop_def handle_plumtree_action_def
      send_protocol_message_sync_def)

lemma drain_plumtree_deliver:
  assumes "steady_clock E lo" "missings (plumtree_node n) = missing_new"
    and "pt_actions (plumtree_node n) = Deliver m # as" "message_buffer n = []" "processed_messages n = []"
  obtains rt w where "lo \<le> rt" "rt \<le> lo + 1000" "drain_plumtree E n = map_option (\<lambda>(r, _, n). (r, True, n))
     (drain_plumtree E (n\<lparr>plumtree_node := plumtree_node n\<lparr>pt_actions := as\<rparr>,
       message_buffer := [(mid_timestamp (msg_id m), m, rt)], world := w\<rparr>))"
proof -
  obtain rt w where now: "now_or_zero E (world n) = (rt, w)" "lo \<le> rt" "rt \<le> lo + 1000"
    using steady_clock_now [OF assms(1), of "world n"] by metis
  let ?n = "n\<lparr>plumtree_node := plumtree_node n\<lparr>pt_actions := as\<rparr>, world := w,
      message_buffer := [(mid_timestamp (msg_id m), m, rt)]\<rparr>"
  have "calm_buffer lo ?n" using assms(5) now(2) by (simp add: calm_buffer_def)
  then obtain w' where "process_sequential_messages E ?n = (None, ?n\<lparr>world := w'\<rparr>)"
    using process_calm [OF assms(1)] by blast
  then have "drain_plumtree E n = map_option (\<lambda>(r, _, n). (r, True, n)) (drain_plumtree E (?n\<lparr>world := w'\<rparr>))"
    using assms(2-4) now(1) by (subst drain_plumtree.simps)
      (simp add: pt_poll_action_def expiration_nothing queue_pop_def handle_plumtree_action_def)
  then show thesis using now by (intro that [of rt w']) simp_all
qed

lemma recv_messages_Nil: "inbox (server n) = [] \<Longrightarrow> recv_messages E n = Some n"
proof -
  assume "inbox (server n) = []"
  from poll_recv_inbox(2) [OF this] show ?thesis by (subst recv_messages.simps) simp
qed

section \<open>Rounds\<close>

text \<open>Nothing is queued, awaited or overdue.\<close>

definition quiet :: "nat \<Rightarrow> ('a, 'k, 'p, 'c, 'r, 'w) p2p_node \<Rightarrow> bool" where
  "quiet lo n \<longleftrightarrow> hv_actions (hyparview_node n) = [] \<and> pt_actions (plumtree_node n) = [] \<and>
     missings (plumtree_node n) = missing_new \<and> calm_buffer lo n"

lemma quiet_world [simp]: "quiet lo (n\<lparr>world := w\<rparr>) = quiet lo n"
  by (simp add: quiet_def calm_buffer_def)

lemma poll_rest:
  assumes "steady_clock E lo" "quiet lo n" "inbox (server n) = []"
  obtains w where "poll_loop E n = Some (None, n\<lparr>world := w\<rparr>)"
proof -
  obtain w where p: "process_sequential_messages E n = (None, n\<lparr>world := w\<rparr>)"
    using process_calm assms by (metis quiet_def)
  have "recv_messages E (n\<lparr>world := w\<rparr>) = Some (n\<lparr>world := w\<rparr>)"
    using assms(3) by (simp add: recv_messages_Nil)
  then have "poll_round E n = Some (None, False, n\<lparr>world := w\<rparr>)"
    using assms(2,3) p by (simp add: poll_round_def quiet_def drain_hyparview_Nil drain_plumtree_Nil Let_def)
  then show thesis by (intro that) (subst poll_loop.simps, simp)
qed

lemma poll_actions:
  assumes "steady_clock E lo" and "drain_hyparview E n = Some n1" "quiet lo n1" "inbox (server n1) = []"
    and "hv_actions (hyparview_node n) \<noteq> []"
  obtains w where "poll_loop E n = Some (None, n1\<lparr>world := w\<rparr>)"
proof -
  obtain w where p: "process_sequential_messages E n1 = (None, n1\<lparr>world := w\<rparr>)"
    using process_calm assms(1,3) by (metis quiet_def)
  have "recv_messages E (n1\<lparr>world := w\<rparr>) = Some (n1\<lparr>world := w\<rparr>)"
    using assms(4) by (simp add: recv_messages_Nil)
  then have "poll_round E n = Some (None, True, n1\<lparr>world := w\<rparr>)"
    using assms(2-5) p by (simp add: poll_round_def quiet_def drain_plumtree_Nil Let_def)
  moreover obtain w' where "poll_loop E (n1\<lparr>world := w\<rparr>) = Some (None, n1\<lparr>world := w\<rparr>\<lparr>world := w'\<rparr>)"
    by (rule poll_rest [OF assms(1), of "n1\<lparr>world := w\<rparr>"]) (use assms(3,4) in simp_all)
  ultimately show thesis by (intro that [of w']) (subst poll_loop.simps, simp)
qed

lemma poll_tree_actions:
  assumes E: "steady_clock E lo" and "hv_actions (hyparview_node n) = []" "calm_buffer lo n" "inbox (server n) = []"
    and drain: "\<And>w. \<exists>n1. drain_plumtree E (n\<lparr>world := w\<rparr>) = Some (None, True, n1) \<and> quiet lo n1 \<and>
      inbox (server n1) = [] \<and> P n1"
    and P: "\<And>n1 w. P n1 \<Longrightarrow> P (n1\<lparr>world := w\<rparr>)"
  obtains n1 where "poll_loop E n = Some (None, n1)" "quiet lo n1" "inbox (server n1) = []" "P n1"
proof -
  obtain w where p: "process_sequential_messages E n = (None, n\<lparr>world := w\<rparr>)"
    by (rule process_calm [OF E assms(3)])
  obtain n1 where n1: "drain_plumtree E (n\<lparr>world := w\<rparr>) = Some (None, True, n1)" "quiet lo n1"
    "inbox (server n1) = []" "P n1" using drain by blast
  have "recv_messages E n1 = Some n1" using n1(3) by (rule recv_messages_Nil)
  then have "poll_round E n = Some (None, True, n1)"
    using assms(2) p n1 by (simp add: poll_round_def drain_hyparview_Nil Let_def)
  moreover obtain w' where "poll_loop E n1 = Some (None, n1\<lparr>world := w'\<rparr>)" by (rule poll_rest [OF E n1(2,3)])
  ultimately show thesis using n1 P by (intro that [of "n1\<lparr>world := w'\<rparr>"]) (subst poll_loop.simps, simp_all)
qed

lemma poll_message:
  assumes E: "steady_clock E lo" and n: "quiet lo n" "inbox (server n) = [m]"
  obtains s w where "poll_recv (server n) = (Some m, s)" "inbox s = []"
    "\<forall>b n1. handle_p2pnode_protocol_message E m (n\<lparr>world := w, server := s\<rparr>) = Some (b, n1) \<longrightarrow>
      poll_loop E n = poll_loop E n1"
proof -
  obtain w where p: "process_sequential_messages E n = (None, n\<lparr>world := w\<rparr>)"
    using process_calm E n by (metis quiet_def)
  obtain s where s: "poll_recv (server n) = (Some m, s)" "inbox s = []"
    using poll_recv_inbox(1) [OF n(2)] by blast
  have "poll_loop E n = poll_loop E n1"
    if h: "handle_p2pnode_protocol_message E m (n\<lparr>world := w, server := s\<rparr>) = Some (b, n1)" for b n1
  proof -
    have "inbox (server n1) = []" using handle_message_server [OF h] s(2) by simp
    then have "recv_messages E n1 = Some n1" by (rule recv_messages_Nil)
    then have "recv_messages E (n\<lparr>world := w\<rparr>) = Some n1"
      using h s(1) by (subst recv_messages.simps) (cases b; simp)
    then have "poll_round E n = Some (None, True, n1)"
      using n p by (simp add: poll_round_def quiet_def drain_hyparview_Nil drain_plumtree_Nil Let_def)
    then show ?thesis by (subst poll_loop.simps) simp
  qed
  with s show thesis by (intro that [of s w]) auto
qed

section \<open>States of the run\<close>

text \<open>
  A node between two polls: its pending HyParView actions, active view, eager peers, messages,
  buffer, inbox and sending tasks; it has no lazy peers, no passive view, awaits nothing and has
  handed out nothing.
\<close>

definition node_state ::
  "('a, 'k) node_id \<Rightarrow> ('a, 'k) node_id hv_action list \<Rightarrow> ('a, 'k) node_id list \<Rightarrow> (('a, 'k) message_id \<rightharpoonup> 'p) \<Rightarrow>
   ('a, 'k, 'p) buffer \<Rightarrow> ('a, 'k, 'p) p2p_message list \<Rightarrow> (('a, 'k) node_id \<times> ('a, 'k, 'p) p2p_message) list \<Rightarrow>
   ('a, 'k, 'p, 'c, 'r, 'w) p2p_node \<Rightarrow> bool" where
  "node_state me acts view msgs buf inb tasks n \<longleftrightarrow>
     (let h = hyparview_node n; p = plumtree_node n in
      hv_id h = me \<and> hv_actions h = acts \<and> active_view h = view \<and> passive_view h = [] \<and>
      hv_options h = default_node_options \<and>
      pt_id p = me \<and> eager_push_peers p = (if acts = [] then set view else {}) \<and> lazy_push_peers p = {} \<and>
      messages p = msgs \<and> missings p = missing_new \<and> pt_actions p = [] \<and>
      message_buffer n = buf \<and> processed_messages n = [] \<and> inbox (server n) = inb \<and>
      spawned (server n) = tasks \<and> get_local_nodeid (server n) = Some (local_id me) \<and>
      (msgs = Map.empty \<longrightarrow> message_seqno n = 0))"

lemma node_state_world [simp]: "node_state me acts view msgs buf inb tasks (n\<lparr>world := w\<rparr>) = node_state me acts view msgs buf inb tasks n"
  by (simp add: node_state_def)

lemma quiet_state: "node_state me [] view msgs [] inb tasks n \<Longrightarrow> quiet lo n"
  by (simp add: node_state_def quiet_def calm_buffer_def Let_def)

lemma quiet_holding: "node_state me [] view msgs [(ts, m, rt)] inb tasks n \<Longrightarrow> lo \<le> rt \<Longrightarrow> quiet lo n"
  by (simp add: node_state_def quiet_def calm_buffer_def Let_def)

lemma poll_recv_state:
  assumes "poll_recv (server n) = (Some m, s)" "node_state me acts view msgs buf inb tasks n" "inbox s = []"
  shows "node_state me acts view msgs buf [] tasks (n\<lparr>world := w, server := s\<rparr>)"
  using assms by (auto simp: node_state_def poll_recv_def get_local_nodeid_def Let_def split: option.splits list.splits)

text \<open>The joining node sends its JOIN.\<close>

lemma poll_join:
  assumes "steady_clock E lo" and n: "node_state me [HvSend d m] [] Map.empty [] [] [] n"
  obtains n' where "poll_pending E n = Some n'" "node_state me [] [] Map.empty [] [] [(d, MHyparview m)] n'"
proof -
  let ?n = "n\<lparr>hyparview_node := hyparview_node n\<lparr>hv_actions := []\<rparr>,
    server := (server n)\<lparr>spawned := spawned (server n) @ [(d, MHyparview m)]\<rparr>\<rparr>"
  have "drain_hyparview E n = Some ?n"
    using n by (simp add: node_state_def drain_hyparview_send drain_hyparview_Nil Let_def)
  moreover have st: "node_state me [] [] Map.empty [] [] [(d, MHyparview m)] ?n"
    using n by (simp add: node_state_def get_local_nodeid_def Let_def)
  ultimately obtain w where "poll_loop E n = Some (None, ?n\<lparr>world := w\<rparr>)"
    using poll_actions [OF assms(1), of n ?n] quiet_state [OF st] n by (auto simp: node_state_def Let_def)
  then show thesis
    by (intro that [OF _ node_state_world [THEN iffD2, OF st], of w]) (simp add: poll_pending_def poll_next_def)
qed

text \<open>A node without neighbours that gets a JOIN or a NEIGHBOR.\<close>

definition introduces :: "('a, 'k) node_id \<Rightarrow> bool \<Rightarrow> ('a, 'k) hv_protocol_message \<Rightarrow> bool" where
  "introduces p answer m \<longleftrightarrow> m = mk_join p \<and> answer \<or> (\<exists>h. m = mk_neighbor p h) \<and> \<not> answer"

lemma handle_introduction:
  assumes "introduces p answer m" "p \<noteq> me"
    and "hv_id h = me" "hv_actions h = []" "active_view h = []" "passive_view h = []" "hv_options h = default_node_options"
  shows "hv_handle_protocol_message R m h =
    Some (h\<lparr>active_view := [p], hv_actions := [HvSend p (mk_neighbor me answer), HvNotify (NeighborUp p)]\<rparr>)"
  using assms
  by (auto simp: introduces_def hv_handle_protocol_message_def mk_join_def mk_neighbor_def handle_join_def
      handle_neighbor_def add_to_active_view_def remove_random_from_active_view_if_full_def
      is_active_view_full_def remove_from_passive_view_def send_to_def send_def push_action_def notify_up_def
      disconnect_unless_active_view_node_def default_node_options_def Let_def)

lemma key_iter_empty: "iter_ops_ok I \<Longrightarrow> key_iter I {} = []"
  using iter_ok_set [of "key_iter I" "{}"] by (simp add: iter_ops_ok_def)

lemma peer_iter_single: "iter_ops_ok I \<Longrightarrow> peer_iter I {p} = [p]"
proof -
  assume "iter_ops_ok I"
  then have set: "set (peer_iter I {p}) = {p}" and "distinct (peer_iter I {p})"
    using iter_ok_set [of "peer_iter I" "{p}"] iter_ok_distinct [of "peer_iter I" "{p}"] by (auto simp: iter_ops_ok_def)
  then have "length (peer_iter I {p}) = 1" using distinct_card by fastforce
  then obtain x where "peer_iter I {p} = [x]" by (cases "peer_iter I {p}") auto
  then show ?thesis using set by simp
qed

lemma iter_ops_empty: "iter_ops_ok I \<Longrightarrow> peer_iter I {} = []"
  using iter_ok_set [of "peer_iter I" "{}"] by (simp add: iter_ops_ok_def)

lemma poll_introduction:
  assumes E: "steady_clock E lo" "iter_ops_ok (env_iter E)" and m: "introduces p answer m" "p \<noteq> me"
    and n: "node_state me [] [] Map.empty [] [MHyparview m] [] n"
  obtains n' where "poll_pending E n = Some n'"
    "node_state me [] [p] Map.empty [] [] [(p, MHyparview (mk_neighbor me answer))] n'"
proof -
  have inb: "inbox (server n) = [MHyparview m]" using n by (simp add: node_state_def Let_def)
  obtain s w where s: "poll_recv (server n) = (Some (MHyparview m), s)" "inbox s = []"
    and step: "\<forall>b n1. handle_p2pnode_protocol_message E (MHyparview m) (n\<lparr>world := w, server := s\<rparr>) = Some (b, n1) \<longrightarrow>
      poll_loop E n = poll_loop E n1"
    by (rule poll_message [OF E(1) quiet_state [OF n] inb])
  let ?h = "hyparview_node n\<lparr>active_view := [p], hv_actions := [HvSend p (mk_neighbor me answer), HvNotify (NeighborUp p)]\<rparr>"
  let ?n1 = "n\<lparr>world := w, server := s, hyparview_node := ?h\<rparr>"
  let ?n2 = "?n1\<lparr>hyparview_node := ?h\<lparr>hv_actions := []\<rparr>,
    plumtree_node := (plumtree_node n)\<lparr>eager_push_peers := {p}\<rparr>,
    server := s\<lparr>spawned := [(p, MHyparview (mk_neighbor me answer))]\<rparr>\<rparr>"
  note st = poll_recv_state [OF s(1) n s(2)]
  have loop: "poll_loop E n = poll_loop E ?n1"
    using n by (intro step [rule_format, of True]) (simp add: handle_p2pnode_protocol_message_def node_state_def Let_def
        handle_introduction [OF m])
  have "drain_hyparview E ?n1 = Some ?n2"
    using n st m(2) by (simp add: node_state_def drain_hyparview_send drain_hyparview_up drain_hyparview_Nil
        handle_neighbor_up_def is_known_node_def key_iter_empty [OF E(2)] Let_def)
  moreover have st2: "node_state me [] [p] Map.empty [] [] [(p, MHyparview (mk_neighbor me answer))] ?n2"
    using n st s(2) by (simp add: node_state_def get_local_nodeid_def Let_def)
  ultimately obtain w' where "poll_loop E ?n1 = Some (None, ?n2\<lparr>world := w'\<rparr>)"
    using poll_actions [OF E(1), of ?n1 ?n2] quiet_state [OF st2] s(2) by auto
  then show thesis using loop
    by (intro that [OF _ node_state_world [THEN iffD2, OF st2], of w']) (simp add: poll_pending_def poll_next_def)
qed

text \<open>A NEIGHBOR of a node that is a neighbour already changes nothing.\<close>

lemma poll_known_neighbor:
  assumes E: "steady_clock E lo" and n: "node_state me [] [p] Map.empty [] [MHyparview (mk_neighbor p hp)] [] n"
  obtains n' where "poll_pending E n = Some n'" "node_state me [] [p] Map.empty [] [] [] n'"
proof -
  have inb: "inbox (server n) = [MHyparview (mk_neighbor p hp)]" using n by (simp add: node_state_def Let_def)
  obtain s w where s: "poll_recv (server n) = (Some (MHyparview (mk_neighbor p hp)), s)" "inbox s = []"
    and step: "\<forall>b n1. handle_p2pnode_protocol_message E (MHyparview (mk_neighbor p hp)) (n\<lparr>world := w, server := s\<rparr>) = Some (b, n1) \<longrightarrow>
      poll_loop E n = poll_loop E n1"
    by (rule poll_message [OF E quiet_state [OF n] inb])
  let ?n1 = "n\<lparr>world := w, server := s\<rparr>"
  note st = poll_recv_state [OF s(1) n s(2), of w]
  have "hv_handle_protocol_message (env_rng E) (mk_neighbor p hp) (hyparview_node n) = Some (hyparview_node n)"
    using n by (simp add: node_state_def hv_handle_protocol_message_def mk_neighbor_def handle_neighbor_def
        add_to_active_view_def disconnect_unless_active_view_node_def Let_def)
  then have "poll_loop E n = poll_loop E ?n1"
    by (intro step [rule_format, of True]) (simp add: handle_p2pnode_protocol_message_def)
  moreover obtain w' where "poll_loop E ?n1 = Some (None, ?n1\<lparr>world := w'\<rparr>)"
    by (rule poll_rest [OF E quiet_state [OF st]]) (use s(2) in simp_all)
  ultimately show thesis
    by (intro that [OF _ node_state_world [THEN iffD2, OF st], of w']) (simp add: poll_pending_def poll_next_def)
qed

text \<open>Plumtree hands out a message and sends others.\<close>

lemma drain_plumtree_sends:
  assumes "missings (plumtree_node n) = missing_new" "pt_actions (plumtree_node n) = map (\<lambda>(d, g). PtSend d g) outs"
  shows "\<exists>did. drain_plumtree E n = Some (None, did, n\<lparr>plumtree_node := (plumtree_node n)\<lparr>pt_actions := []\<rparr>,
    server := (server n)\<lparr>spawned := spawned (server n) @ map (\<lambda>(d, g). (d, MPlumtree g)) outs\<rparr>\<rparr>)"
  using assms
proof (induction outs arbitrary: n)
  case Nil
  then have "n\<lparr>plumtree_node := (plumtree_node n)\<lparr>pt_actions := []\<rparr>, server := (server n)\<lparr>spawned := spawned (server n)\<rparr>\<rparr> = n"
    by (cases n) simp
  then show ?case using Nil by (intro exI [of _ False]) (simp add: drain_plumtree_Nil)
next
  case (Cons x outs)
  obtain d g where dg: "x = (d, g)" by fastforce
  let ?n = "n\<lparr>plumtree_node := (plumtree_node n)\<lparr>pt_actions := map (\<lambda>(d, g). PtSend d g) outs\<rparr>,
    server := (server n)\<lparr>spawned := spawned (server n) @ [(d, MPlumtree g)]\<rparr>\<rparr>"
  show ?case using Cons.IH [of ?n] Cons.prems dg drain_plumtree_send [OF Cons.prems(1), of d g] by auto
qed

definition hands_over ::
  "('a, 'k) node_id \<Rightarrow> ('a, 'k) node_id \<Rightarrow> ('a, 'k, 'p) plumtree_app_message \<Rightarrow>
   (('a, 'k) node_id \<times> ('a, 'k, 'p) pt_protocol_message) list \<Rightarrow> ('a, 'k, 'p, 'c, 'r, 'w) p2p_node \<Rightarrow> bool" where
  "hands_over me p m outs n \<longleftrightarrow>
     (\<exists>n0. node_state me [] [p] [msg_id m \<mapsto> msg_payload m] [] [] [] n0 \<and>
        n = n0\<lparr>plumtree_node := (plumtree_node n0)\<lparr>pt_actions := Deliver m # map (\<lambda>(d, g). PtSend d g) outs\<rparr>\<rparr>)"

lemma poll_hand_over:
  assumes E: "steady_clock E lo" and n: "hands_over me p m outs n"
  obtains n' rt where "poll_loop E n = Some (None, n')" "lo \<le> rt" "rt \<le> lo + 1000"
    "node_state me [] [p] [msg_id m \<mapsto> msg_payload m] [(mid_timestamp (msg_id m), m, rt)] []
       (map (\<lambda>(d, g). (d, MPlumtree g)) outs) n'"
proof -
  let ?P = "\<lambda>n'. \<exists>rt. lo \<le> rt \<and> rt \<le> lo + 1000 \<and>
    node_state me [] [p] [msg_id m \<mapsto> msg_payload m] [(mid_timestamp (msg_id m), m, rt)] []
      (map (\<lambda>(d, g). (d, MPlumtree g)) outs) n'"
  obtain n0 where n0: "node_state me [] [p] [msg_id m \<mapsto> msg_payload m] [] [] [] n0"
    and n_def: "n = n0\<lparr>plumtree_node := (plumtree_node n0)\<lparr>pt_actions := Deliver m # map (\<lambda>(d, g). PtSend d g) outs\<rparr>\<rparr>"
    using n by (auto simp: hands_over_def)
  have f: "hv_actions (hyparview_node n) = []" "missings (plumtree_node n) = missing_new" "message_buffer n = []"
    "processed_messages n = []" "inbox (server n) = []"
    using n0 by (simp_all add: n_def node_state_def Let_def)
  have drain: "\<exists>n1. drain_plumtree E (n\<lparr>world := w\<rparr>) = Some (None, True, n1) \<and> quiet lo n1 \<and>
      inbox (server n1) = [] \<and> ?P n1" for w
  proof -
    obtain rt w' where rt: "lo \<le> rt" "rt \<le> lo + 1000"
      and d: "drain_plumtree E (n\<lparr>world := w\<rparr>) = map_option (\<lambda>(r, _, n). (r, True, n))
        (drain_plumtree E ((n\<lparr>world := w\<rparr>)\<lparr>plumtree_node := plumtree_node (n\<lparr>world := w\<rparr>)\<lparr>pt_actions := map (\<lambda>(d, g). PtSend d g) outs\<rparr>,
          message_buffer := [(mid_timestamp (msg_id m), m, rt)], world := w'\<rparr>))"
      by (rule drain_plumtree_deliver [OF E, of "n\<lparr>world := w\<rparr>" m "map (\<lambda>(d, g). PtSend d g) outs"])
        (use f in \<open>simp_all add: n_def\<close>)
    let ?n1 = "n0\<lparr>plumtree_node := (plumtree_node n0)\<lparr>pt_actions := map (\<lambda>(d, g). PtSend d g) outs\<rparr>,
      message_buffer := [(mid_timestamp (msg_id m), m, rt)], world := w'\<rparr>"
    let ?n2 = "?n1\<lparr>plumtree_node := (plumtree_node ?n1)\<lparr>pt_actions := []\<rparr>,
      server := (server ?n1)\<lparr>spawned := spawned (server ?n1) @ map (\<lambda>(d, g). (d, MPlumtree g)) outs\<rparr>\<rparr>"
    have st: "node_state me [] [p] [msg_id m \<mapsto> msg_payload m] [(mid_timestamp (msg_id m), m, rt)] []
        (map (\<lambda>(d, g). (d, MPlumtree g)) outs) ?n2"
      using n0 by (simp add: node_state_def get_local_nodeid_def Let_def)
    have "\<exists>did. drain_plumtree E ?n1 = Some (None, did, ?n2)"
      by (rule drain_plumtree_sends) (use n0 in \<open>simp_all add: node_state_def Let_def\<close>)
    then have "drain_plumtree E (n\<lparr>world := w\<rparr>) = Some (None, True, ?n2)" using d by (auto simp: n_def)
    moreover have "inbox (server ?n2) = []" using n0 by (simp add: node_state_def Let_def)
    ultimately show ?thesis using st rt quiet_holding [OF st rt(1)] by blast
  qed
  have calm: "calm_buffer lo n" using f by (simp add: calm_buffer_def)
  have world: "?P n1 \<Longrightarrow> ?P (n1\<lparr>world := w\<rparr>)" for n1 w by simp
  show thesis
    by (rule poll_tree_actions [where P = ?P, OF E f(1) calm f(5) drain world]) (use that in blast)+
qed

lemma poll_broadcast:
  assumes E: "steady_clock E lo" "iter_ops_ok (env_iter E)" and n: "node_state me [] [p] Map.empty [] [] [] n" "p \<noteq> me"
  obtains ts n1 n2 rt where "p2p_broadcast E payload n = Some (message_id_new me 0 ts, n1)" "poll_pending E n1 = Some n2"
    "lo \<le> ts" "ts \<le> lo + 1000" "lo \<le> rt" "rt \<le> lo + 1000"
    "node_state me [] [p] [message_id_new me 0 ts \<mapsto> payload]
       [(ts, \<lparr>msg_id = message_id_new me 0 ts, msg_payload = payload\<rparr>, rt)] []
       [(p, MPlumtree (Gossip (gossip_new me \<lparr>msg_id = message_id_new me 0 ts, msg_payload = payload\<rparr> 1)))] n2"
proof -
  obtain ts w where ts: "sys_now (env_world E) (world n) = (Some ts, w)" "as_u64 ts = ts" "lo \<le> ts" "ts \<le> lo + 1000"
    by (rule steady_clock_now [OF E(1), of "world n"])
  let ?i = "message_id_new me 0 ts"
  let ?m = "\<lparr>msg_id = ?i, msg_payload = payload\<rparr>" and ?pt = "plumtree_node n"
  let ?ptm = "?pt\<lparr>messages := [?i \<mapsto> payload]\<rparr>"
  let ?n0 = "n\<lparr>message_seqno := 1, world := w, plumtree_node := ?ptm\<rparr>"
  let ?n1 = "?n0\<lparr>plumtree_node := ?ptm\<lparr>pt_actions := [Deliver ?m, PtSend p (Gossip (gossip_new me ?m 1))]\<rparr>\<rparr>"
  have pt: "broadcast_message (env_iter E) ?m ?pt =
      ?ptm\<lparr>pt_actions := [Deliver ?m, PtSend p (Gossip (gossip_new me ?m 1))]\<rparr>"
    using n by (simp add: node_state_def broadcast_message_def eager_push_def lazy_push_def pt_deliver_def pt_send_def
        queue_send_def queue_deliver_def peer_iter_single [OF E(2)] iter_ops_empty [OF E(2)] gossip_new_def
        saturating_add_def Let_def)
  have "pt_id ?pt = me" "message_seqno n = 0" using n by (simp_all add: node_state_def Let_def)
  then have b: "p2p_broadcast E payload n = Some (?i, ?n1)"
    using ts by (simp add: p2p_broadcast_def p2p_id_def u64_add_def Let_def pt)
  have "node_state me [] [p] [?i \<mapsto> payload] [] [] [] ?n0" using n by (simp add: node_state_def Let_def)
  then have "hands_over me p ?m [(p, Gossip (gossip_new me ?m 1))] ?n1"
    unfolding hands_over_def by (intro exI [of _ ?n0]) simp
  from poll_hand_over [OF E(1) this] obtain n2 rt where "poll_loop E ?n1 = Some (None, n2)" "lo \<le> rt" "rt \<le> lo + 1000"
    "node_state me [] [p] [?i \<mapsto> payload] [(ts, ?m, rt)] [] [(p, MPlumtree (Gossip (gossip_new me ?m 1)))] n2"
    by (auto simp: message_id_new_def)
  then show thesis using b ts(3,4) by (intro that [of ts ?n1 n2 rt]) (simp_all add: poll_pending_def poll_next_def)
qed

lemma poll_gossip:
  assumes E: "steady_clock E lo" "iter_ops_ok (env_iter E)"
    and n: "node_state me [] [p] Map.empty [] [MPlumtree (Gossip (gossip_new p m r))] [] n"
  obtains n' rt where "poll_pending E n = Some n'" "lo \<le> rt" "rt \<le> lo + 1000"
    "node_state me [] [p] [msg_id m \<mapsto> msg_payload m] [(mid_timestamp (msg_id m), m, rt)] [] [] n'"
proof -
  let ?g = "Gossip (gossip_new p m r)"
  have inb: "inbox (server n) = [MPlumtree ?g]" using n by (simp add: node_state_def Let_def)
  obtain s w where s: "poll_recv (server n) = (Some (MPlumtree ?g), s)" "inbox s = []"
    and step: "\<forall>b n1. handle_p2pnode_protocol_message E (MPlumtree ?g) (n\<lparr>world := w, server := s\<rparr>) = Some (b, n1) \<longrightarrow>
      poll_loop E n = poll_loop E n1"
    by (rule poll_message [OF E(1) quiet_state [OF n] inb])
  note st = poll_recv_state [OF s(1) n s(2), of w]
  let ?pt0 = "(plumtree_node n)\<lparr>messages := [msg_id m \<mapsto> msg_payload m]\<rparr>"
  let ?n0 = "n\<lparr>world := w, server := s, plumtree_node := ?pt0\<rparr>"
  let ?n1 = "?n0\<lparr>plumtree_node := ?pt0\<lparr>pt_actions := [Deliver m]\<rparr>\<rparr>"
  have "pt_handle_protocol_message (env_iter E) ?g (plumtree_node n) = Some (True, ?pt0\<lparr>pt_actions := [Deliver m]\<rparr>)"
    using n by (simp add: node_state_def pt_handle_protocol_message_def is_known_node_def gossip_new_def handle_gossip_def
        eager_push_def lazy_push_def pt_deliver_def queue_deliver_def peer_iter_single [OF E(2)] iter_ops_empty [OF E(2)]
        make_eager_def optimize_def get_ihave_def missing_new_def missing_remove_def Let_def)
  then have "poll_loop E n = poll_loop E ?n1"
    by (intro step [rule_format, of False]) (simp add: handle_p2pnode_protocol_message_def)
  moreover have "node_state me [] [p] [msg_id m \<mapsto> msg_payload m] [] [] [] ?n0" using st by (simp add: node_state_def Let_def)
  then have "hands_over me p m [] ?n1" unfolding hands_over_def by (intro exI [of _ ?n0]) simp
  from poll_hand_over [OF E(1) this] obtain n' rt where "poll_loop E ?n1 = Some (None, n')" "lo \<le> rt" "rt \<le> lo + 1000"
    "node_state me [] [p] [msg_id m \<mapsto> msg_payload m] [(mid_timestamp (msg_id m), m, rt)] [] [] n'" by auto
  ultimately show thesis by (intro that [of n' rt]) (simp_all add: poll_pending_def poll_next_def)
qed

section \<open>Transfer\<close>

definition reaches :: "('a, 'k, 'p, 'c) network \<Rightarrow> ('a, 'k) node_id \<Rightarrow> bool" where
  "reaches net d \<longleftrightarrow> (\<forall>m. net_encodes net m) \<and> (\<forall>c m. net_transmit net c m) \<and>
     (\<exists>c. connect_first net (local_id d) (addresses d) = Inr c)"

lemma exchange_one:
  assumes "reaches net d" and src: "node_state me acts1 view1 msgs1 buf1 inb1 [(d, m)] src"
    and dst: "node_state d acts2 view2 msgs2 buf2 inb2 tasks2 dst"
  obtains src' dst' where "exchange net src dst = Some (src', dst')"
    "node_state me acts1 view1 msgs1 buf1 inb1 [] src'" "node_state d acts2 view2 msgs2 buf2 (inb2 @ [m]) tasks2 dst'"
proof -
  let ?src = "src\<lparr>server := (server src)\<lparr>spawned := []\<rparr>\<rparr>"
  have id: "get_local_nodeid (server ?src) = Some (local_id me)"
    using src by (simp add: node_state_def get_local_nodeid_def Let_def)
  obtain s where s: "send_protocol_message_async net d m (server ?src) = Some (Inr (), s)"
    "inbox s = inbox (server src)" "spawned s = []" "get_local_nodeid s = Some (local_id me)"
    using assms(1) id
    by (cases "remote_nodes (server src) (local_id d)")
      (auto simp: reaches_def send_protocol_message_async_def get_connection_def get_local_nodeid_def inbox_def)
  have "exchange net src dst = Some (?src\<lparr>server := s\<rparr>, dst\<lparr>server := deliver_local m (server dst)\<rparr>)"
    using src dst s(1) by (simp add: exchange_def node_state_def Let_def)
  moreover have "node_state me acts1 view1 msgs1 buf1 inb1 [] (?src\<lparr>server := s\<rparr>)"
    using src s by (simp add: node_state_def Let_def)
  moreover have "node_state d acts2 view2 msgs2 buf2 (inb2 @ [m]) tasks2 (dst\<lparr>server := deliver_local m (server dst)\<rparr>)"
    using dst by (auto simp: node_state_def get_local_nodeid_def deliver_local_def inbox_def Let_def split: option.splits)
  ultimately show thesis by (rule that)
qed

section \<open>From the start to the message\<close>

lemma fresh_state:
  assumes "p2p_new E rng me server_new w = Some n"
  shows "node_state me [] [] Map.empty [] [] [] n"
    "node_state me [HvSend c (mk_join me)] [] Map.empty [] [] [] (p2p_join c n)"
  using assms
  by (auto simp: p2p_new_def node_state_def hv_new_def hv_with_options_def pt_new_def pt_with_options_def
      action_queue_new_def inbox_def register_local_node_def node_handle_new_def get_local_nodeid_def server_new_def
      p2p_join_def hv_join_def send_to_def send_def bind_eq_Some_conv Let_def)

lemma join_run_returns:
  assumes "steady_clock E1 lo1" "steady_clock E2 lo2" "iter_ops_ok (env_iter E1)" "iter_ops_ok (env_iter E2)"
    and "reaches net1 id2" "reaches net2 id1" "id1 \<noteq> id2"
    and n1: "node_state id1 [] [] Map.empty [] [] [] n1"
    and n2: "node_state id2 [HvSend id1 (mk_join id2)] [] Map.empty [] [] [] n2"
  obtains a b where "join_run E1 E2 net1 net2 n1 n2 = Some (a, b)"
    "node_state id1 [] [id2] Map.empty [] [] [] a" "node_state id2 [] [id1] Map.empty [] [] [] b"
proof -
  obtain b1 where b1: "poll_pending E2 n2 = Some b1"
    "node_state id2 [] [] Map.empty [] [] [(id1, MHyparview (mk_join id2))] b1"
    by (rule poll_join [OF assms(2) n2])
  obtain b2 a1 where x1: "exchange net2 b1 n1 = Some (b2, a1)" "node_state id2 [] [] Map.empty [] [] [] b2"
    "node_state id1 [] [] Map.empty [] [MHyparview (mk_join id2)] [] a1"
    by (rule exchange_one [OF assms(6) b1(2) n1]) simp
  have m1: "introduces id2 True (mk_join id2)" and m2: "introduces id1 False (mk_neighbor id1 True)"
    by (auto simp: introduces_def)
  obtain a2 where a2: "poll_pending E1 a1 = Some a2"
    "node_state id1 [] [id2] Map.empty [] [] [(id2, MHyparview (mk_neighbor id1 True))] a2"
    by (rule poll_introduction [OF assms(1,3) m1 _ x1(3)]) (use assms(7) in auto)
  obtain a3 b3 where x2: "exchange net1 a2 b2 = Some (a3, b3)" "node_state id1 [] [id2] Map.empty [] [] [] a3"
    "node_state id2 [] [] Map.empty [] [MHyparview (mk_neighbor id1 True)] [] b3"
    by (rule exchange_one [OF assms(5) a2(2) x1(2)]) simp
  obtain b4 where b4: "poll_pending E2 b3 = Some b4"
    "node_state id2 [] [id1] Map.empty [] [] [(id1, MHyparview (mk_neighbor id2 False))] b4"
    by (rule poll_introduction [OF assms(2,4) m2 _ x2(3)]) (use assms(7) in auto)
  obtain b5 a4 where x3: "exchange net2 b4 a3 = Some (b5, a4)" "node_state id2 [] [id1] Map.empty [] [] [] b5"
    "node_state id1 [] [id2] Map.empty [] [MHyparview (mk_neighbor id2 False)] [] a4"
    by (rule exchange_one [OF assms(6) b4(2) x2(2)]) simp
  obtain a5 where a5: "poll_pending E1 a4 = Some a5" "node_state id1 [] [id2] Map.empty [] [] [] a5"
    by (rule poll_known_neighbor [OF assms(1) x3(3)])
  show thesis
    by (rule that [of a5 b5]) (simp_all add: join_run_def b1 x1 a2 x2 b4 x3 a5)
qed

lemma broadcast_run_returns:
  assumes "steady_clock E1 lo1" "steady_clock E2 lo2" "iter_ops_ok (env_iter E1)" "iter_ops_ok (env_iter E2)"
    and "reaches net1 id2" "id1 \<noteq> id2"
    and a: "node_state id1 [] [id2] Map.empty [] [] [] a" and b: "node_state id2 [] [id1] Map.empty [] [] [] b"
  obtains i c d rt1 rt2 where "broadcast_run E1 E2 net1 payload a b = Some (i, c, d)"
    "mid_node i = id1" "mid_seqno i = 0" "lo1 \<le> mid_timestamp i" "mid_timestamp i \<le> lo1 + 1000"
    "rt1 \<le> lo1 + 1000" "rt2 \<le> lo2 + 1000"
    "node_state id1 [] [id2] [i \<mapsto> payload] [(mid_timestamp i, \<lparr>msg_id = i, msg_payload = payload\<rparr>, rt1)] [] [] c"
    "node_state id2 [] [id1] [i \<mapsto> payload] [(mid_timestamp i, \<lparr>msg_id = i, msg_payload = payload\<rparr>, rt2)] [] [] d"
proof -
  have ne: "id2 \<noteq> id1" using assms(6) by simp
  obtain ts a1 a2 rt1 where a2: "p2p_broadcast E1 payload a = Some (message_id_new id1 0 ts, a1)" "poll_pending E1 a1 = Some a2"
    "lo1 \<le> ts" "ts \<le> lo1 + 1000" "lo1 \<le> rt1" "rt1 \<le> lo1 + 1000"
    "node_state id1 [] [id2] [message_id_new id1 0 ts \<mapsto> payload]
       [(ts, \<lparr>msg_id = message_id_new id1 0 ts, msg_payload = payload\<rparr>, rt1)] []
       [(id2, MPlumtree (Gossip (gossip_new id1 \<lparr>msg_id = message_id_new id1 0 ts, msg_payload = payload\<rparr> 1)))] a2"
    by (rule poll_broadcast [OF assms(1,3) a ne])
  let ?i = "message_id_new id1 0 ts"
  let ?m = "\<lparr>msg_id = ?i, msg_payload = payload\<rparr>"
  have i: "mid_node ?i = id1" "mid_seqno ?i = 0" "mid_timestamp ?i = ts" by (simp_all add: message_id_new_def)
  obtain a3 b1 where x: "exchange net1 a2 b = Some (a3, b1)"
    "node_state id1 [] [id2] [?i \<mapsto> payload] [(ts, ?m, rt1)] [] [] a3"
    "node_state id2 [] [id1] Map.empty [] [MPlumtree (Gossip (gossip_new id1 ?m 1))] [] b1"
    by (rule exchange_one [OF assms(5) a2(7) b]) simp
  obtain b2 rt2 where b2: "poll_pending E2 b1 = Some b2" "lo2 \<le> rt2" "rt2 \<le> lo2 + 1000"
    "node_state id2 [] [id1] [msg_id ?m \<mapsto> msg_payload ?m] [(mid_timestamp (msg_id ?m), ?m, rt2)] [] [] b2"
    by (rule poll_gossip [OF assms(2,4) x(3)])
  show thesis
    by (rule that [of ?i a3 b2 rt1 rt2]) (use a2 x b2 i in \<open>simp_all add: broadcast_run_def\<close>)
qed

lemma overdue_is_handed_out:
  assumes "node_state me [] view msgs [(ts, m, rt)] inb tasks n" "rt + 1000 < fst (now_or_zero E (world n))"
  shows "\<exists>n'. poll_next E False n = Some (Some m, n')"
proof -
  obtain t w where t: "now_or_zero E (world n) = (t, w)" by fastforce
  have "\<exists>n'. process_sequential_messages E n = (Some m, n')"
    using assms t by (simp add: node_state_def process_sequential_messages_def cleanup_expired_messages_def
        btree_first_def release_def MAX_PROCESSED_CACHE_LEN_def MAX_OUT_OF_ORDER_DELAY_MS_def Let_def)
  moreover have "drain_hyparview E n = Some n" using assms(1) by (simp add: drain_hyparview_Nil node_state_def Let_def)
  ultimately obtain did n' where "poll_round E n = Some (Some m, did, n')" by (auto simp: poll_round_def Let_def)
  then have "poll_loop E n = Some (Some m, n')" by (subst poll_loop.simps) simp
  then show ?thesis by (simp add: poll_next_def)
qed

text \<open>
  C7. From the start to a delivered message.  When a fresh node joins another, the messages of both
  are transmitted and no clock moves more than a second, then no poll panics or hands anything
  out; each node becomes the only active neighbour and the only eager peer of the other; a
  message that the first then broadcasts is stored by both under an identifier of the first
  with sequence number 0, and each node hands it out at its next poll more than a second later.
\<close>

theorem joined_node_receives_broadcast:
  assumes "steady_clock E1 lo1" "steady_clock E2 lo2" "iter_ops_ok (env_iter E1)" "iter_ops_ok (env_iter E2)"
    and "reaches net1 id2" "reaches net2 id1" "id1 \<noteq> id2"
    and "p2p_new E1 rng1 id1 server_new w1 = Some n1" "p2p_new E2 rng2 id2 server_new w2 = Some n2"
  shows "\<exists>a b i c d. join_run E1 E2 net1 net2 n1 (p2p_join id1 n2) = Some (a, b) \<and>
    active_view (hyparview_node a) = [id2] \<and> eager_push_peers (plumtree_node a) = {id2} \<and>
    active_view (hyparview_node b) = [id1] \<and> eager_push_peers (plumtree_node b) = {id1} \<and>
    broadcast_run E1 E2 net1 payload a b = Some (i, c, d) \<and> mid_node i = id1 \<and> mid_seqno i = 0 \<and>
    messages (plumtree_node c) = [i \<mapsto> payload] \<and> messages (plumtree_node d) = [i \<mapsto> payload] \<and>
    (\<forall>E. lo1 + 2000 < fst (now_or_zero E (world c)) \<longrightarrow>
       (\<exists>n. poll_next E False c = Some (Some \<lparr>msg_id = i, msg_payload = payload\<rparr>, n))) \<and>
    (\<forall>E. lo2 + 2000 < fst (now_or_zero E (world d)) \<longrightarrow>
       (\<exists>n. poll_next E False d = Some (Some \<lparr>msg_id = i, msg_payload = payload\<rparr>, n)))"
proof -
  obtain a b where ab: "join_run E1 E2 net1 net2 n1 (p2p_join id1 n2) = Some (a, b)"
    "node_state id1 [] [id2] Map.empty [] [] [] a" "node_state id2 [] [id1] Map.empty [] [] [] b"
    by (rule join_run_returns [OF assms(1-7) fresh_state(1) [OF assms(8)] fresh_state(2) [OF assms(9)]])
  obtain i c d rt1 rt2 where cd: "broadcast_run E1 E2 net1 payload a b = Some (i, c, d)"
    "mid_node i = id1" "mid_seqno i = 0" "rt1 \<le> lo1 + 1000" "rt2 \<le> lo2 + 1000"
    "node_state id1 [] [id2] [i \<mapsto> payload] [(mid_timestamp i, \<lparr>msg_id = i, msg_payload = payload\<rparr>, rt1)] [] [] c"
    "node_state id2 [] [id1] [i \<mapsto> payload] [(mid_timestamp i, \<lparr>msg_id = i, msg_payload = payload\<rparr>, rt2)] [] [] d"
    by (rule broadcast_run_returns [OF assms(1-5,7) ab(2,3)])
  have views: "active_view (hyparview_node a) = [id2]" "eager_push_peers (plumtree_node a) = {id2}"
    "active_view (hyparview_node b) = [id1]" "eager_push_peers (plumtree_node b) = {id1}"
    "messages (plumtree_node c) = [i \<mapsto> payload]" "messages (plumtree_node d) = [i \<mapsto> payload]"
    using ab(2,3) cd(6,7) by (simp_all add: node_state_def Let_def)
  have out1: "\<exists>n. poll_next E False c = Some (Some \<lparr>msg_id = i, msg_payload = payload\<rparr>, n)"
    if "lo1 + 2000 < fst (now_or_zero E (world c))" for E
    using that cd(4) by (intro overdue_is_handed_out [OF cd(6)]) simp
  have out2: "\<exists>n. poll_next E False d = Some (Some \<lparr>msg_id = i, msg_payload = payload\<rparr>, n)"
    if "lo2 + 2000 < fst (now_or_zero E (world d))" for E
    using that cd(5) by (intro overdue_is_handed_out [OF cd(7)]) simp
  show ?thesis
    by (rule exI [where x = a], rule exI [where x = b], rule exI [where x = i], rule exI [where x = c],
        rule exI [where x = d], intro conjI allI impI)
      (use views out1 out2 ab(1) cd(1-3) in blast)+
qed

definition still_env :: "(nat, nat, nat, nat) env" where
  "still_env = \<lparr>env_rng = counting_rng, env_iter = sorted_iter,
     env_world = \<lparr>sys_now = (\<lambda>w. (Some 5, w)), rand_u64 = (\<lambda>w. (w, Suc w))\<rparr>\<rparr>"

definition live_network :: "(nat, nat, string, nat) network" where
  "live_network = \<lparr>net_encodes = (\<lambda>_. True), net_connect = (\<lambda>_ k. Connected k), net_transmit = (\<lambda>_ _. True)\<rparr>"

theorem joined_node_receives_broadcast_witness:
  "\<exists>n1 n2 a b i c d. p2p_new still_env 0 (nid 0) server_new 0 = Some n1 \<and> p2p_new still_env 0 (nid 1) server_new 0 = Some n2 \<and>
     join_run still_env still_env live_network live_network n1 (p2p_join (nid 0) n2) = Some (a, b) \<and>
     broadcast_run still_env still_env live_network ''hello'' a b = Some (i, c, d) \<and>
     active_view (hyparview_node b) = [nid 0] \<and> messages (plumtree_node d) = [i \<mapsto> ''hello'']"
proof -
  obtain n1 :: "(nat, nat, string, nat, nat, nat) p2p_node"
    where n1: "p2p_new still_env 0 (nid 0) server_new 0 = Some n1" by (rule exE [OF p2p_new_returns])
  obtain n2 :: "(nat, nat, string, nat, nat, nat) p2p_node"
    where n2: "p2p_new still_env 0 (nid 1) server_new 0 = Some n2" by (rule exE [OF p2p_new_returns])
  have E: "steady_clock still_env 5" "iter_ops_ok (env_iter still_env)"
    by (simp_all add: steady_clock_def still_env_def)
  have net: "reaches live_network (nid k)" for k by (simp add: reaches_def live_network_def nid_def)
  have "nid 0 \<noteq> nid 1" by (simp add: nid_def)
  from joined_node_receives_broadcast [OF E(1) E(1) E(2) E(2) net net this n1 n2, of "''hello''"]
  obtain a b i c d where "join_run still_env still_env live_network live_network n1 (p2p_join (nid 0) n2) = Some (a, b)"
    "broadcast_run still_env still_env live_network ''hello'' a b = Some (i, c, d)"
    "active_view (hyparview_node b) = [nid 0]" "messages (plumtree_node d) = [i \<mapsto> ''hello'']"
    by (elim exE conjE) (rule that)
  note run = this
  show ?thesis
    by (rule exI [where x = n1], rule exI [where x = n2], rule exI [where x = a], rule exI [where x = b], rule exI [where x = i], rule exI [where x = c],
        rule exI [where x = d], intro conjI)
      (use n1 n2 run in simp_all)
qed

end
