(* ===== verification/Plumtree_Spread.thy ===== *)
theory Plumtree_Spread
  imports Plumtree_Delivery
begin

text \<open>
  What one operation of a Plumtree node contributes to the spreading of a message through a
  network, as an interface: which packets it sends and on what evidence, whom it tells of a
  message it has just stored, what it does with the packet it consumes, and what becomes of
  the timers it had running.  The receiving of a packet, a broadcast, the expiry of timers and
  the ticking of the clock provide it.
\<close>

section \<open>Timers of announcements\<close>

text \<open>The announcements a node still has a timer for, and the timers that are not stale.\<close>

definition timer_ihaves :: "('n, 'm) missing_messages \<Rightarrow> ('n, 'm) ihave_message set" where
  "timer_ihaves mm = {ihave. \<exists>t s. MessageItem t s ihave \<in> set (timeout_queue mm)}"

definition live_timer :: "node_time \<Rightarrow> nat \<Rightarrow> ('n, 'm) ihave_message \<Rightarrow> ('n, 'm) missing_messages \<Rightarrow> bool" where
  "live_timer t s ihave mm \<longleftrightarrow> MessageItem t s ihave \<in> set (timeout_queue mm) \<and>
     (\<exists>e. ihaves mm (ihave_message_id ihave) = Some e \<and> entry_id_seqno e = s)"

definition will_ask :: "'n \<Rightarrow> 'm \<Rightarrow> ('n, 'm) missing_messages \<Rightarrow> bool" where
  "will_ask a i mm \<longleftrightarrow>
     (\<exists>t s ihave. live_timer t s ihave mm \<and> ihave_sender ihave = a \<and> ihave_message_id ihave = i)"

lemma set_heap_pop: "heap_pop expiry_time q = Some (item, q') \<Longrightarrow> set q = insert item (set q')"
  by (metis timeouts.items_pop set_mset_add_mset_insert set_mset_mset)

text \<open>An entry without owners has no timer that is not stale.\<close>

lemma live_timer_owners:
  assumes "timers_ok (mset q) i e" "MessageItem t (entry_id_seqno e) ihave \<in> set q"
    "ihave_message_id ihave = i"
  shows "owners e \<noteq> 0"
proof -
  from assms(2,3) have "MessageItem t (entry_id_seqno e) ihave
      \<in># filter_mset (for_message i (entry_id_seqno e)) (mset q)" by simp
  then have "filter_mset (for_message i (entry_id_seqno e)) (mset q) \<noteq> {#}" by auto
  with assms(1) show ?thesis unfolding timers_ok_def by (metis size_eq_0_iff_empty)
qed

lemma expire_item_keeps_live:
  assumes wf: "missing_wf mm" and pop: "heap_pop expiry_time (timeout_queue mm) = Some (item, q)"
    and run: "expire_item item (mm\<lparr>timeout_queue := q\<rparr>) = Some (r, mm')"
    and live: "live_timer t s ihave mm"
  shows "live_timer t s ihave mm' \<or> r = Some ihave"
proof (cases "item = MessageItem t s ihave")
  case True
  with run live show ?thesis
    by (auto simp: expire_item_def live_timer_def Let_def split: option.splits if_splits)
next
  case False
  let ?i = "ihave_message_id ihave"
  from live obtain e where e: "ihaves mm ?i = Some e" "entry_id_seqno e = s"
    and mem: "MessageItem t s ihave \<in> set (timeout_queue mm)" by (auto simp: live_timer_def)
  with False have q: "MessageItem t s ihave \<in> set q" using set_heap_pop [OF pop] by auto
  have "timers_ok (mset (timeout_queue mm)) ?i e" using wf e by (simp add: missing_wf_def)
  then have "owners e \<noteq> 0" using live_timer_owners [of _ ?i e t ihave] mem e(2) by simp
  with run e q show ?thesis
    by (auto simp: expire_item_def live_timer_def Let_def
        split: option.splits if_splits queue_item.splits)
qed

lemma expire_item_timers:
  assumes run: "expire_item item mm = Some (r, mm')"
  shows "timer_ihaves mm' \<subseteq> timer_ihaves mm"
    "ihaves mm' i = Some e' \<Longrightarrow> (\<exists>e. ihaves mm i = Some e \<and> head_owner e' = head_owner e) \<or>
       (\<exists>t s ihave. item = MessageItem t s ihave \<and> head_owner e' = ihave_sender ihave)"
  using run
  by (auto simp: expire_item_def Let_def timer_ihaves_def
      split: option.splits if_splits queue_item.splits; blast)+

text \<open>What the loop over the expired timers leaves: the running timers but for the returned one.\<close>

definition pop_leaves ::
  "('n, 'm) missing_messages \<Rightarrow> ('n, 'm) ihave_message option \<Rightarrow> ('n, 'm) missing_messages \<Rightarrow> bool" where
  "pop_leaves mm r mm' \<longleftrightarrow>
     (\<forall>t s ihave. live_timer t s ihave mm \<longrightarrow> live_timer t s ihave mm' \<or> r = Some ihave) \<and>
     timer_ihaves mm' \<subseteq> timer_ihaves mm \<and>
     (\<forall>i e'. ihaves mm' i = Some e' \<longrightarrow> head_owner e' \<in> ihave_sender ` timer_ihaves mm \<or>
        (\<exists>e. ihaves mm i = Some e \<and> head_owner e' = head_owner e)) \<and>
     (\<forall>ihave. r = Some ihave \<longrightarrow> ihave \<in> timer_ihaves mm)"

lemma pop_leaves_step:
  assumes wf: "missing_wf mm" and pop: "heap_pop expiry_time (timeout_queue mm) = Some (item, q)"
    and run: "expire_item item (mm\<lparr>timeout_queue := q\<rparr>) = Some (r, mm')"
  shows "pop_leaves mm r mm'"
proof -
  note q = set_heap_pop [OF pop]
  have sub: "timer_ihaves (mm\<lparr>timeout_queue := q\<rparr>) \<subseteq> timer_ihaves mm" using q by (auto simp: timer_ihaves_def)
  have item: "ihave \<in> timer_ihaves mm" if "item = MessageItem t s ihave" for t s ihave
    using that q by (auto simp: timer_ihaves_def)
  show ?thesis unfolding pop_leaves_def
  proof (intro conjI allI impI)
    show "live_timer t s ihave mm' \<or> r = Some ihave" if "live_timer t s ihave mm" for t s ihave
      using expire_item_keeps_live [OF wf pop run that] .
    show "timer_ihaves mm' \<subseteq> timer_ihaves mm" using expire_item_timers(1) [OF run] sub by blast
    show "head_owner e' \<in> ihave_sender ` timer_ihaves mm \<or>
        (\<exists>e. ihaves mm i = Some e \<and> head_owner e' = head_owner e)" if "ihaves mm' i = Some e'" for i e'
      using expire_item_timers(2) [OF run that] item by auto
    show "ihave \<in> timer_ihaves mm" if "r = Some ihave" for ihave
      using expire_item_effect(4) [OF run that] item by blast
  qed
qed

lemma pop_leaves_trans:
  assumes "pop_leaves a None b" "pop_leaves b r c"
  shows "pop_leaves a r c"
proof -
  note a = assms(1) [unfolded pop_leaves_def, THEN conjunct2]
    and b = assms(2) [unfolded pop_leaves_def, THEN conjunct2]
  have sub: "timer_ihaves b \<subseteq> timer_ihaves a" using a by blast
  have "head_owner e' \<in> ihave_sender ` timer_ihaves a \<or>
      (\<exists>e. ihaves a i = Some e \<and> head_owner e' = head_owner e)" if "ihaves c i = Some e'" for i e'
  proof -
    from b that consider "head_owner e' \<in> ihave_sender ` timer_ihaves b"
      | e where "ihaves b i = Some e" "head_owner e' = head_owner e" by blast
    then show ?thesis by cases (use sub a in auto)
  qed
  moreover have "\<forall>t s ihave. live_timer t s ihave a \<longrightarrow> live_timer t s ihave c \<or> r = Some ihave"
    using assms unfolding pop_leaves_def by blast
  moreover have "timer_ihaves c \<subseteq> timer_ihaves a" "\<forall>ihave. r = Some ihave \<longrightarrow> ihave \<in> timer_ihaves a"
    using sub b by blast+
  ultimately show ?thesis unfolding pop_leaves_def by blast
qed

lemma pop_expired_leaves:
  "missing_wf mm \<Longrightarrow> pop_expired clock mm = Some (r, mm') \<Longrightarrow> pop_leaves mm r mm'"
proof (induction clock mm rule: pop_expired.induct)
  case (1 clock mm)
  show ?case
  proof (cases "\<exists>x. heap_peek (timeout_queue mm) = Some x \<and> expiry_time x \<le> clock_now clock")
    case False
    then have "r = None" "mm' = mm"
      using "1.prems"(2) by (subst (asm) pop_expired.simps; auto split: option.splits)+
    then show ?thesis by (auto simp: pop_leaves_def)
  next
    case True
    then obtain x where x: "heap_peek (timeout_queue mm) = Some x" "expiry_time x \<le> clock_now clock"
      by blast
    then obtain item q r1 mm1 where pop: "heap_pop expiry_time (timeout_queue mm) = Some (item, q)"
      and item: "expire_item item (mm\<lparr>timeout_queue := q\<rparr>) = Some (r1, mm1)"
      and rest: "case r1 of None \<Rightarrow> pop_expired clock mm1 = Some (r, mm') | Some _ \<Rightarrow> r = r1 \<and> mm' = mm1"
      using "1.prems"(2) by (subst (asm) pop_expired.simps) (auto split: option.splits)
    have step: "pop_leaves mm r1 mm1" using pop_leaves_step [OF "1.prems"(1) pop item] .
    show ?thesis
    proof (cases r1)
      case (Some ihave)
      then show ?thesis using step rest by simp
    next
      case None
      obtain r2 mm2 where "expire_item item (mm\<lparr>timeout_queue := q\<rparr>) = Some (r2, mm2)" "missing_wf mm2"
        using heap_pop_before_item [OF "1.prems"(1) pop] by (rule expire_item_total)
      then have "missing_wf mm1" using item by simp
      then have "pop_leaves mm1 r mm'"
        using "1.IH" [OF x(1) _ pop refl item] x(2) None rest by auto
      with step None show ?thesis using pop_leaves_trans by blast
    qed
  qed
qed

section \<open>Packets and evidence\<close>

definition sends :: "('n, 'm, 'p) pt_action list \<Rightarrow> ('n \<times> ('n, 'm, 'p) pt_message) set" where
  "sends as = {(d, m). PtSend d m \<in> set as}"

lemma sends_simps [simp]:
  "sends [] = {}" "sends (as @ bs) = sends as \<union> sends bs"
  "sends (PtSend d m # as) = insert (d, m) (sends as)" "sends (Deliver x # as) = sends as"
  by (auto simp: sends_def)

definition holds :: "('n, 'm, 'p) pt_node \<Rightarrow> ('m, 'p) app_message \<Rightarrow> bool" where
  "holds n m \<longleftrightarrow> messages n (msg_id m) = Some (msg_payload m)"

text \<open>A gossip or an IHAVE for \<open>i\<close> from \<open>a\<close> to \<open>q\<close>, and a GRAFT for \<open>i\<close> from \<open>q\<close> to \<open>a\<close>.\<close>

definition tells :: "'n \<Rightarrow> 'm \<Rightarrow> 'n \<Rightarrow> ('n \<times> ('n, 'm, 'p) pt_message) set \<Rightarrow> bool" where
  "tells a i q P \<longleftrightarrow>
     (\<exists>g. (q, Gossip g) \<in> P \<and> gossip_sender g = a \<and> msg_id (gossip_message g) = i) \<or>
     (\<exists>ihave. (q, Ihave ihave) \<in> P \<and> ihave_sender ihave = a \<and> ihave_message_id ihave = i)"

definition requests :: "'n \<Rightarrow> 'm \<Rightarrow> 'n \<Rightarrow> ('n \<times> ('n, 'm, 'p) pt_message) set \<Rightarrow> bool" where
  "requests a i q P \<longleftrightarrow>
     (\<exists>graft. (a, Graft graft) \<in> P \<and> graft_sender graft = q \<and> graft_message_id graft = Some i)"

lemma tells_mono: "tells a i q P \<Longrightarrow> P \<subseteq> P' \<Longrightarrow> tells a i q P'"
  by (auto simp: tells_def)

lemma requests_mono: "requests a i q P \<Longrightarrow> P \<subseteq> P' \<Longrightarrow> requests a i q P'"
  by (auto simp: requests_def)

text \<open>
  A packet that node \<open>n\<close> may send: to a neighbour, in its own name, and a gossip or an IHAVE only
  for a message it stores, a GRAFT for a message only to a peer that announced it.
\<close>

fun evidence :: "('n, 'm, 'p) pt_node \<Rightarrow> ('n, 'm) missing_messages \<Rightarrow> 'n \<Rightarrow>
    ('n, 'm, 'p) pt_message \<Rightarrow> bool" where
  "evidence n mm d (Gossip g) = holds n (gossip_message g)"
| "evidence n mm d (Ihave ihave) = (ihave_message_id ihave \<in> dom (messages n))"
| "evidence n mm d (Graft graft) =
     (\<forall>i. graft_message_id graft = Some i \<longrightarrow>
        (\<exists>ihave \<in> timer_ihaves mm. ihave_sender ihave = d \<and> ihave_message_id ihave = i))"
| "evidence n mm d (Prune prune) = True"

definition warranted :: "('n, 'm, 'p) pt_node \<Rightarrow> ('n, 'm) missing_messages \<Rightarrow>
    'n \<times> ('n, 'm, 'p) pt_message \<Rightarrow> bool" where
  "warranted n mm dm \<longleftrightarrow>
     fst dm \<in> known_peers n \<and> pt_sender (snd dm) = pt_id n \<and> evidence n mm (fst dm) (snd dm)"

definition delivers :: "('n, 'm, 'p) pt_action list \<Rightarrow> ('m, 'p) app_message list" where
  "delivers as = concat (map (\<lambda>a. case a of Deliver m \<Rightarrow> [m] | _ \<Rightarrow> []) as)"

lemma delivers_simps [simp]:
  "delivers [] = []" "delivers (as @ bs) = delivers as @ delivers bs"
  "delivers (PtSend d m # as) = delivers as" "delivers (Deliver x # as) = x # delivers as"
  by (simp_all add: delivers_def)

lemma delivers_sends: "(\<And>a. a \<in> set as \<Longrightarrow> \<exists>p x. a = PtSend p x) \<Longrightarrow> delivers as = []"
  by (induction as) (auto, force)

section \<open>The interface\<close>

text \<open>
  The invariant of a node in a network: well formed, its timers and the heads of its entries
  name neighbours only, and it awaits no message that it stores.
\<close>

definition spread_wf :: "('n, 'm, 'p) pt_node \<Rightarrow> bool" where
  "spread_wf n \<longleftrightarrow> pt_wf n \<and>
     (\<forall>ihave \<in> timer_ihaves (missings n). ihave_sender ihave \<in> known_peers n) \<and>
     (\<forall>i e. ihaves (missings n) i = Some e \<longrightarrow> head_owner e \<in> known_peers n) \<and>
     (\<forall>i x. messages n i = Some x \<longrightarrow> ihaves (missings n) i = None)"

text \<open>
  An operation may be called that consumes a packet of a neighbour (if any) and stores new
  messages of the user, of which the node has not heard.
\<close>

definition ready :: "('n, 'm) iter_ops \<Rightarrow> ('n, 'm, 'p) pt_message option \<Rightarrow> ('m, 'p) app_message list \<Rightarrow>
    ('n, 'm, 'p) pt_node \<Rightarrow> bool" where
  "ready I consumed adds n \<longleftrightarrow> iter_ops_ok I \<and> spread_wf n \<and>
     (\<forall>m. consumed = Some m \<longrightarrow> pt_sender m \<in> known_peers n) \<and>
     (\<forall>m \<in> set adds. messages n (msg_id m) = None \<and> ihaves (missings n) (msg_id m) = None)"

locale spread_operation =
  fixes I :: "('n, 'm) iter_ops"
    and op :: "('n, 'm, 'p) pt_node \<Rightarrow> ('n, 'm, 'p) pt_node option"
    and consumed :: "('n, 'm, 'p) pt_message option"
    and adds :: "('m, 'p) app_message list"
  assumes keeps_wf: "ready I consumed adds n \<Longrightarrow> op n = Some n' \<Longrightarrow> spread_wf n'"
    and keeps_peers: "ready I consumed adds n \<Longrightarrow> op n = Some n' \<Longrightarrow>
      pt_id n' = pt_id n \<and> known_peers n' = known_peers n"
    and keeps_messages: "ready I consumed adds n \<Longrightarrow> op n = Some n' \<Longrightarrow> messages n \<subseteq>\<^sub>m messages n'"
    and new_messages: "ready I consumed adds n \<Longrightarrow> op n = Some n' \<Longrightarrow> holds n' m \<Longrightarrow>
      holds n m \<or> m \<in> set adds \<or> (\<exists>g. consumed = Some (Gossip g) \<and> m = gossip_message g)"
    and adds_messages: "ready I consumed adds n \<Longrightarrow> op n = Some n' \<Longrightarrow> m \<in> set adds \<Longrightarrow> holds n' m"
    and new_actions: "ready I consumed adds n \<Longrightarrow> op n = Some n' \<Longrightarrow>
      \<exists>as. pt_actions n' = pt_actions n @ as \<and>
        (\<forall>dm \<in> sends as. warranted n' (missings n) dm) \<and>
        distinct (delivers as) \<and> set (delivers as) = {m. holds n' m \<and> \<not> holds n m}"
    and tells_neighbours: "ready I consumed adds n \<Longrightarrow> op n = Some n' \<Longrightarrow> i \<in> dom (messages n') \<Longrightarrow>
      i \<notin> dom (messages n) \<Longrightarrow> q \<in> known_peers n \<Longrightarrow>
      tells (pt_id n) i q (sends (pt_actions n')) \<or>
      (\<exists>g. consumed = Some (Gossip g) \<and> gossip_sender g = q \<and> msg_id (gossip_message g) = i)"
    and stores_gossip: "ready I consumed adds n \<Longrightarrow> op n = Some n' \<Longrightarrow> consumed = Some (Gossip g) \<Longrightarrow>
      msg_id (gossip_message g) \<in> dom (messages n')"
    and notes_ihave: "ready I consumed adds n \<Longrightarrow> op n = Some n' \<Longrightarrow> consumed = Some (Ihave ihave) \<Longrightarrow>
      ihave_message_id ihave \<in> dom (messages n') \<or>
      will_ask (ihave_sender ihave) (ihave_message_id ihave) (missings n')"
    and answers_graft: "ready I consumed adds n \<Longrightarrow> op n = Some n' \<Longrightarrow> consumed = Some (Graft graft) \<Longrightarrow>
      graft_message_id graft = Some i \<Longrightarrow> i \<in> dom (messages n) \<Longrightarrow>
      tells (pt_id n) i (graft_sender graft) (sends (pt_actions n'))"
    and keeps_asking: "ready I consumed adds n \<Longrightarrow> op n = Some n' \<Longrightarrow> will_ask a i (missings n) \<Longrightarrow>
      will_ask a i (missings n') \<or> i \<in> dom (messages n') \<or>
      requests a i (pt_id n) (sends (pt_actions n'))"
    and new_timers: "ready I consumed adds n \<Longrightarrow> op n = Some n' \<Longrightarrow> x \<in> timer_ihaves (missings n') \<Longrightarrow>
      x \<in> timer_ihaves (missings n) \<or>
      (\<exists>y. consumed = Some (Ihave y) \<and> ihave_sender x = ihave_sender y \<and>
         ihave_message_id x = ihave_message_id y)"
    and new_entries: "ready I consumed adds n \<Longrightarrow> op n = Some n' \<Longrightarrow> i \<in> dom (ihaves (missings n')) \<Longrightarrow>
      i \<in> dom (ihaves (missings n)) \<or> (\<exists>y. consumed = Some (Ihave y) \<and> i = ihave_message_id y)"
begin

lemma sends_grow:
  "ready I consumed adds n \<Longrightarrow> op n = Some n' \<Longrightarrow> sends (pt_actions n) \<subseteq> sends (pt_actions n')"
  using new_actions by (metis Un_upper1 sends_simps(2))

end

section \<open>Its providers\<close>

lemmas spread_unfold = ready_def spread_wf_def pt_wf_defs

lemma iter_ops_peers: "iter_ops_ok I \<Longrightarrow> finite P \<Longrightarrow> set (peer_iter I P) = P \<and> distinct (peer_iter I P)"
  by (auto simp: iter_ops_ok_def iter_ok_def)

lemma sends_gossips:
  "iter_ops_ok I \<Longrightarrow> finite P \<Longrightarrow> sends (gossips I g self P) =
     (\<lambda>p. (p, Gossip (gossip_new self (gossip_message g) (saturating_add (gossip_round g) 1)))) `
       (P - {gossip_sender g})"
  by (auto simp: sends_def gossips_def iter_ops_peers)

lemma sends_announcements:
  "iter_ops_ok I \<Longrightarrow> finite P \<Longrightarrow> sends (announcements I g self P) =
     (\<lambda>p. (p, Ihave (ihave_new self (msg_id (gossip_message g)) (saturating_add (gossip_round g) 1) True))) `
       (P - {gossip_sender g})"
  by (auto simp: sends_def announcements_def iter_ops_peers)

lemma delivers_forwarding [simp]:
  "delivers (gossips I g self P) = []" "delivers (announcements I g self P) = []"
  "delivers (optimizations g n) = []"
  by (rule delivers_sends, auto simp: gossips_def announcements_def optimizations_def
      split: option.splits if_splits)+

text \<open>What a node that stores a message for the first time sends, apart from optimisations.\<close>

definition forwarding :: "('n, 'm) iter_ops \<Rightarrow> ('n, 'm, 'p) gossip_message \<Rightarrow> ('n, 'm, 'p) pt_node \<Rightarrow>
    ('n, 'm, 'p) pt_action list" where
  "forwarding I g n = gossips I g (pt_id n) (eager_push_peers n) @
     announcements I g (pt_id n) (lazy_push_peers n)"

lemma sends_forwarding:
  assumes "iter_ops_ok I" "pt_wf n"
  shows "sends (forwarding I g n) =
    (\<lambda>p. (p, Gossip (gossip_new (pt_id n) (gossip_message g) (saturating_add (gossip_round g) 1)))) `
      (eager_push_peers n - {gossip_sender g}) \<union>
    (\<lambda>p. (p, Ihave (ihave_new (pt_id n) (msg_id (gossip_message g)) (saturating_add (gossip_round g) 1) True))) `
      (lazy_push_peers n - {gossip_sender g})"
  using assms pt_wf_finite [OF assms(2)] by (simp add: forwarding_def sends_gossips sends_announcements)

lemma forwarding_tells:
  assumes "iter_ops_ok I" "pt_wf n" "q \<in> known_peers n" "q \<noteq> gossip_sender g"
  shows "tells (pt_id n) (msg_id (gossip_message g)) q (sends (forwarding I g n))"
proof -
  let ?g = "gossip_new (pt_id n) (gossip_message g) (saturating_add (gossip_round g) 1)"
  let ?ihave = "ihave_new (pt_id n) (msg_id (gossip_message g)) (saturating_add (gossip_round g) 1) True"
  have "(q, Gossip ?g) \<in> sends (forwarding I g n) \<or> (q, Ihave ?ihave) \<in> sends (forwarding I g n)"
    using assms(3,4) by (auto simp: sends_forwarding [OF assms(1,2)] known_peers_def)
  then show ?thesis unfolding tells_def by (metis message_new_sel(1,2,4,5))
qed

lemma forwarding_warranted:
  assumes "iter_ops_ok I" "pt_wf n" "known_peers n' = known_peers n" "pt_id n' = pt_id n"
    "holds n' (gossip_message g)" "dm \<in> sends (forwarding I g n)"
  shows "warranted n' mm dm"
proof -
  have "eager_push_peers n \<subseteq> known_peers n'" "lazy_push_peers n \<subseteq> known_peers n'"
    using assms(3) by (auto simp: known_peers_def)
  moreover have "msg_id (gossip_message g) \<in> dom (messages n')" using assms(5) by (auto simp: holds_def)
  ultimately show ?thesis
    using assms(4-6) unfolding sends_forwarding [OF assms(1,2)] by (auto simp: warranted_def)
qed

lemma missing_remove_timers [simp]:
  "timer_ihaves (missing_remove i mm) = timer_ihaves mm"
  "ihaves (missing_remove i mm) = (ihaves mm)(i := None)"
  "live_timer t s ihave (missing_remove i mm) \<longleftrightarrow> live_timer t s ihave mm \<and> ihave_message_id ihave \<noteq> i"
  by (auto simp: timer_ihaves_def missing_remove_def live_timer_def)

lemma will_ask_remove [simp]: "will_ask a j (missing_remove i mm) \<longleftrightarrow> will_ask a j mm \<and> j \<noteq> i"
  by (auto simp: will_ask_def)

lemma optimizations_warranted:
  assumes "spread_wf n" "gossip_sender g \<in> known_peers n" "known_peers n' = known_peers n"
    "pt_id n' = pt_id n" "dm \<in> sends (optimizations g n)"
  shows "warranted n' mm dm"
proof -
  have "owner \<in> known_peers n" if "get_ihave i (missings n) = Some (r, owner)" for i r owner
    using that assms(1) by (auto simp: get_ihave_def spread_wf_def ran_def)
  with assms show ?thesis
    by (auto simp: optimizations_def warranted_def split: option.splits if_splits prod.splits)
qed

lemma handle_gossip_sel:
  "messages (handle_gossip I g n) =
     (if messages n (msg_id (gossip_message g)) = None
      then (messages n)(msg_id (gossip_message g) \<mapsto> msg_payload (gossip_message g)) else messages n)"
  "missings (handle_gossip I g n) =
     (if messages n (msg_id (gossip_message g)) = None
      then missing_remove (msg_id (gossip_message g)) (missings n) else missings n)"
  by (cases "msg_id (gossip_message g) \<in> dom (messages n)";
      force simp: handle_gossip_duplicate handle_gossip_fresh domIff)+

lemma gossip_fresh_actions:
  "msg_id (gossip_message g) \<notin> dom (messages n) \<Longrightarrow>
   pt_actions (handle_gossip I g n) =
     pt_actions n @ Deliver (gossip_message g) # forwarding I g n @ optimizations g n"
  by (simp add: handle_gossip_fresh forwarding_def)

lemma gossip_new_actions:
  assumes "ready I (Some (Gossip g)) [] n"
  shows "\<exists>as. pt_actions (handle_gossip I g n) = pt_actions n @ as \<and>
    (\<forall>dm \<in> sends as. warranted (handle_gossip I g n) (missings n) dm) \<and> distinct (delivers as) \<and>
    set (delivers as) = {m. holds (handle_gossip I g n) m \<and> \<not> holds n m}"
proof (cases "msg_id (gossip_message g) \<in> dom (messages n)")
  case True
  with assms show ?thesis
    by (intro exI [of _ "[PtSend (gossip_sender g) (Prune (prune_new (pt_id n)))]"])
      (auto simp: handle_gossip_duplicate warranted_def ready_def known_peers_def holds_def)
next
  case False
  let ?n = "handle_gossip I g n" and ?as = "Deliver (gossip_message g) # forwarding I g n @ optimizations g n"
  have wf: "iter_ops_ok I" "spread_wf n" "pt_wf n" "gossip_sender g \<in> known_peers n"
    using assms by (auto simp: ready_def spread_wf_def)
  have n: "known_peers ?n = known_peers n" "pt_id ?n = pt_id n" "holds ?n (gossip_message g)"
    using handle_gossip_wf [OF wf(3,4), of I] False by (auto simp: handle_gossip_fresh holds_def)
  have "warranted ?n (missings n) dm" if "dm \<in> sends ?as" for dm
  proof -
    from that consider "dm \<in> sends (forwarding I g n)" | "dm \<in> sends (optimizations g n)" by auto
    then show ?thesis
      by cases (fact forwarding_warranted [OF wf(1,3) n] optimizations_warranted [OF wf(2,4) n(1,2)])+
  qed
  moreover have "set (delivers ?as) = {m. holds ?n m \<and> \<not> holds n m}"
    using False by (auto simp: forwarding_def handle_gossip_fresh holds_def split: if_splits)
  ultimately show ?thesis
    using gossip_fresh_actions [OF False, of I] by (intro exI [of _ ?as]) (simp add: forwarding_def)
qed

interpretation spread_gossip:
  spread_operation I "\<lambda>n. Some (handle_gossip I g n)" "Some (Gossip g)" "[]" for I g
proof (unfold_locales, goal_cases)
  case (1 n n')
  then show ?case using handle_gossip_wf [of n g I]
    by (cases "msg_id (gossip_message g) \<in> dom (messages n)")
     (auto simp: ready_def spread_wf_def handle_gossip_duplicate handle_gossip_fresh split: if_splits)
next
  case (2 n n')
  then show ?case using handle_gossip_wf [of n g I]
    by (cases "msg_id (gossip_message g) \<in> dom (messages n)")
     (auto simp: ready_def spread_wf_def handle_gossip_duplicate handle_gossip_fresh)
next
  case (6 n n')
  then show ?case using gossip_new_actions [of I g n] by simp
next
  case (7 n n' i q)
  then have fresh: "msg_id (gossip_message g) \<notin> dom (messages n)" "i = msg_id (gossip_message g)"
    by (auto simp: handle_gossip_sel domIff split: if_splits)
  with 7 have "tells (pt_id n) i q (sends (forwarding I g n))" if "q \<noteq> gossip_sender g"
    using that forwarding_tells [of I n q g] by (simp add: ready_def spread_wf_def)
  then show ?case
    using 7(2) fresh(2) gossip_fresh_actions [OF fresh(1), of I] by (auto elim!: tells_mono)
qed (auto simp: handle_gossip_sel holds_def map_le_def split: if_splits)

text \<open>A GRAFT is answered, a PRUNE only moves a peer, and a tick only moves the clock.\<close>

lemma handle_graft_sel:
  "messages (handle_graft g n) = messages n" "missings (handle_graft g n) = missings n"
  "pt_id (handle_graft g n) = pt_id n"
  "pt_actions (handle_graft g n) = pt_actions n @
     (case graft_message_id g of None \<Rightarrow> [] | Some i \<Rightarrow>
        (case messages n i of None \<Rightarrow> [] | Some x \<Rightarrow>
           [PtSend (graft_sender g) (Gossip (gossip_new (pt_id n)
              \<lparr>msg_id = i, msg_payload = x\<rparr> (graft_round g)))]))"
  by (auto simp: handle_graft_def make_eager_def queue_defs Let_def split: option.split)

interpretation spread_graft:
  spread_operation I "\<lambda>n. Some (handle_graft g n)" "Some (Graft g)" "[]" for I g
proof (unfold_locales, goal_cases)
  case (1 n n')
  then show ?case using handle_graft_wf [of n g]
    by (auto simp: ready_def spread_wf_def handle_graft_sel)
next
  case (2 n n')
  then show ?case using handle_graft_wf [of n g]
    by (auto simp: ready_def spread_wf_def handle_graft_sel)
next
  case (6 n n')
  then show ?case using handle_graft_wf [of n g]
    by (auto simp: ready_def spread_wf_def handle_graft_sel holds_def warranted_def split: option.split)
next
  case (10 n n' graft i)
  then show ?case
    by (auto simp: handle_graft_sel tells_def)
qed (auto simp: handle_graft_sel holds_def)

lemma handle_prune_sel:
  "messages (handle_prune p n) = messages n" "missings (handle_prune p n) = missings n"
  "pt_id (handle_prune p n) = pt_id n" "pt_actions (handle_prune p n) = pt_actions n"
  by (auto simp: handle_prune_def make_lazy_def)

interpretation spread_prune:
  spread_operation I "\<lambda>n. Some (handle_prune p n)" "Some (Prune p)" "[]" for I p
proof (unfold_locales, goal_cases)
  case (1 n n')
  then show ?case using handle_prune_wf [of n p]
    by (auto simp: ready_def spread_wf_def handle_prune_sel)
next
  case (2 n n')
  then show ?case using handle_prune_wf [of n p]
    by (auto simp: ready_def spread_wf_def handle_prune_sel)
qed (auto simp: handle_prune_sel holds_def)

lemma known_peers_update [simp]:
  "known_peers (n\<lparr>pt_clock := c\<rparr>) = known_peers n" "known_peers (n\<lparr>missings := mm\<rparr>) = known_peers n"
  "known_peers (n\<lparr>messages := M\<rparr>) = known_peers n"
  by (simp_all add: known_peers_def)

interpretation spread_tick: spread_operation I "pt_tick d" None "[]" for I d
proof (unfold_locales, goal_cases)
  case (1 n n')
  then show ?case by (auto simp: ready_def spread_wf_def pt_tick_def pt_wf_def)
qed (auto simp: pt_tick_def holds_def)

text \<open>An IHAVE starts a timer.\<close>

lemma missing_push_timers:
  assumes "missing_push ihave clock timeout mm = Some mm'"
  shows "timer_ihaves mm' = insert ihave (timer_ihaves mm)"
    "will_ask (ihave_sender ihave) (ihave_message_id ihave) mm'"
    "will_ask a i mm \<Longrightarrow> will_ask a i mm'"
    "dom (ihaves mm') = insert (ihave_message_id ihave) (dom (ihaves mm))"
    "ihaves mm' i = Some e' \<Longrightarrow> head_owner e' = ihave_sender ihave \<or>
       (\<exists>e. ihaves mm i = Some e \<and> head_owner e' = head_owner e)"
proof -
  from assms obtain e where e: "or_insert_entry ihave clock timeout mm = Some e"
    and mm': "mm' = \<lparr>timeout_queue = heap_push expiry_time
                (MessageItem (next_expiry e) (entry_id_seqno e) ihave) (timeout_queue mm),
            ihaves = (ihaves mm)(ihave_message_id ihave \<mapsto>
                e\<lparr>next_expiry := next_expiry e + timeout, owners := Suc (owners e)\<rparr>),
            entry_seqno = (if owners e = 0 then Suc (entry_seqno mm) else entry_seqno mm)\<rparr>"
    by (rule missing_push_cases)
  from e have old: "ihaves mm (ihave_message_id ihave) = Some e \<or>
      ihaves mm (ihave_message_id ihave) = None \<and> head_owner e = ihave_sender ihave"
    by (auto simp: or_insert_entry_def bind_eq_Some_conv split: option.splits)
  have live: "live_timer t s x mm'" if "live_timer t s x mm" for t s x
    using that old by (auto simp: live_timer_def mm')
  show "timer_ihaves mm' = insert ihave (timer_ihaves mm)" by (auto simp: timer_ihaves_def mm')
  have "live_timer (next_expiry e) (entry_id_seqno e) ihave mm'" by (simp add: live_timer_def mm')
  then show "will_ask (ihave_sender ihave) (ihave_message_id ihave) mm'" by (auto simp: will_ask_def)
  show "will_ask a i mm'" if "will_ask a i mm" using that live unfolding will_ask_def by blast
  show "dom (ihaves mm') = insert (ihave_message_id ihave) (dom (ihaves mm))" by (auto simp: mm')
  show "head_owner e' = ihave_sender ihave \<or>
       (\<exists>e. ihaves mm i = Some e \<and> head_owner e' = head_owner e)" if "ihaves mm' i = Some e'"
    using that old by (auto simp: mm' split: if_splits)
qed

lemma handle_ihave_cases:
  assumes "handle_ihave ihave n = Some n'"
  obtains "ihave_message_id ihave \<in> dom (messages n)" "n' = n"
  | ihave' mm where "messages n (ihave_message_id ihave) = None" "n' = n\<lparr>missings := mm\<rparr>"
    "missing_push ihave' (pt_clock n) (ihave_timeout (pt_opts n)) (missings n) = Some mm"
    "ihave_sender ihave' = ihave_sender ihave" "ihave_message_id ihave' = ihave_message_id ihave"
  using assms by (auto simp: handle_ihave_def Let_def domIff split: if_splits)

interpretation spread_ihave:
  spread_operation I "handle_ihave ihave" "Some (Ihave ihave)" "[]" for I ihave
proof (unfold_locales, goal_cases)
  case (1 n n')
  from 1(2) show ?case
  proof (cases rule: handle_ihave_cases)
    case (2 ihave' mm)
    note push = missing_push_timers [OF 2(3), unfolded 2(4,5)]
    have wf: "spread_wf n" "ihave_sender ihave \<in> known_peers n" using 1 by (simp_all add: ready_def)
    have "head_owner e \<in> known_peers n" if "ihaves mm i = Some e" for i e
      using push(5) [OF that] wf by (auto simp: spread_wf_def)
    moreover have "ihaves mm i = None" if "messages n i = Some x" for i x
    proof -
      from that 2(1) wf(1) have "i \<notin> insert (ihave_message_id ihave) (dom (ihaves (missings n)))"
        by (auto simp: spread_wf_def)
      with push(4) show ?thesis by auto
    qed
    ultimately show ?thesis using wf 2(2,4) push(1) handle_ihave_wf [OF _ 1(2)]
      by (simp add: spread_wf_def)
  qed (use 1 in \<open>simp add: ready_def\<close>)
next
  case (2 n n')
  then show ?case using handle_ihave_wf [of n ihave n']
    by (auto simp: ready_def spread_wf_def elim!: handle_ihave_cases)
next
  case (9 n n' i)
  from 9(2) show ?case
    by (cases rule: handle_ihave_cases) (use 9(3) missing_push_timers(2) in force)+
next
  case (11 n n' a i)
  from 11(2) show ?case
    by (cases rule: handle_ihave_cases) (use 11(3) missing_push_timers(3) in force)+
next
  case (12 n n' x)
  from 12(2) show ?case
    by (cases rule: handle_ihave_cases) (use 12(3) missing_push_timers(1) in force)+
next
  case (13 n n' i)
  from 13(2) show ?case
    by (cases rule: handle_ihave_cases) (use 13(3) missing_push_timers(4) in force)+
qed (auto elim!: handle_ihave_cases simp: holds_def)

text \<open>A broadcast tells every neighbour.\<close>

lemma broadcast_message_forwards:
  "broadcast_message I m n =
     n\<lparr>messages := (messages n)(msg_id m \<mapsto> msg_payload m),
       pt_actions := pt_actions n @ Deliver m # forwarding I (gossip_new (pt_id n) m 0) n\<rparr>"
  by (simp add: broadcast_message_eq forwarding_def)

interpretation spread_broadcast:
  spread_operation I "\<lambda>n. Some (broadcast_message I m n)" None "[m]" for I m
proof (unfold_locales, goal_cases)
  case (1 n n')
  then show ?case using broadcasting.peers_wf [of n I m n']
    by (auto simp: ready_def spread_wf_def broadcast_message_forwards split: if_splits)
next
  case (6 n n')
  let ?n = "broadcast_message I m n" and ?fwd = "forwarding I (gossip_new (pt_id n) m 0) n"
  have wf: "iter_ops_ok I" "pt_wf n" and new: "messages n (msg_id m) = None"
    using 6 by (auto simp: ready_def spread_wf_def)
  have n: "known_peers ?n = known_peers n" "pt_id ?n = pt_id n"
    "holds ?n (gossip_message (gossip_new (pt_id n) m 0))"
    by (simp_all add: broadcast_message_forwards known_peers_def holds_def)
  have "\<forall>dm \<in> sends (Deliver m # ?fwd). warranted ?n (missings n) dm"
    using forwarding_warranted [OF wf n] by simp
  moreover have "set (delivers (Deliver m # ?fwd)) = {x. holds ?n x \<and> \<not> holds n x}"
    using new by (auto simp: broadcast_message_forwards forwarding_def holds_def split: if_splits)
  moreover have "n' = ?n" using 6 by simp
  ultimately show ?case
    by (intro exI [of _ "Deliver m # ?fwd"]) (simp add: broadcast_message_forwards forwarding_def)
next
  case (7 n n' i q)
  then have i: "i = msg_id m" by (auto simp: broadcast_message_forwards split: if_splits)
  have "q \<noteq> pt_id n" using 7 by (auto simp: ready_def spread_wf_def pt_wf_def)
  then have "tells (pt_id n) i q (sends (forwarding I (gossip_new (pt_id n) m 0) n))"
    using 7 i forwarding_tells [of I n q "gossip_new (pt_id n) m 0"] by (simp add: ready_def spread_wf_def)
  then show ?case using 7(2) by (auto simp: broadcast_message_forwards elim!: tells_mono)
qed (auto simp: broadcast_message_forwards ready_def spread_wf_def holds_def known_peers_def map_le_def
    split: if_splits)

text \<open>The expiration loop asks the announcing peer whenever it takes a running timer.\<close>

definition asks_for :: "'n \<Rightarrow> ('n, 'm) ihave_message \<Rightarrow> 'n \<times> ('n, 'm, 'p) pt_message" where
  "asks_for me ihave = (ihave_sender ihave,
     Graft (graft_new me (Some (ihave_message_id ihave)) (ihave_round ihave)))"

definition expires :: "('n, 'm, 'p) pt_node \<Rightarrow> ('n, 'm, 'p) pt_node \<Rightarrow> bool" where
  "expires n n' \<longleftrightarrow> grafting n n' \<and> spread_wf n' \<and>
     timer_ihaves (missings n') \<subseteq> timer_ihaves (missings n) \<and>
     (\<exists>as. pt_actions n' = pt_actions n @ as \<and> delivers as = [] \<and>
        (\<forall>dm \<in> sends as. warranted n' (missings n) dm)) \<and>
     (\<forall>t s ihave. live_timer t s ihave (missings n) \<longrightarrow>
        live_timer t s ihave (missings n') \<or> asks_for (pt_id n) ihave \<in> sends (pt_actions n'))"

lemma warranted_mono:
  assumes "warranted n mm dm" "timer_ihaves mm \<subseteq> timer_ihaves mm'" "known_peers n' = known_peers n"
    "pt_id n' = pt_id n" "messages n' = messages n"
  shows "warranted n' mm' dm"
  using assms by (cases dm; cases "snd dm") (auto simp: warranted_def holds_def, blast)

lemma expires_trans:
  assumes "expires a b" "expires b c"
  shows "expires a c"
proof -
  from assms obtain as bs where as: "pt_actions b = pt_actions a @ as" "delivers as = []"
    "\<forall>dm \<in> sends as. warranted b (missings a) dm"
    and bs: "pt_actions c = pt_actions b @ bs" "delivers bs = []"
    "\<forall>dm \<in> sends bs. warranted c (missings b) dm"
    by (auto simp: expires_def)
  have ab: "timer_ihaves (missings b) \<subseteq> timer_ihaves (missings a)" "pt_id b = pt_id a"
    and bc: "known_peers c = known_peers b" "pt_id c = pt_id b" "messages c = messages b"
    using assms by (auto simp: expires_def grafting_def)
  have "warranted c (missings a) dm" if "warranted b (missings a) dm" for dm
    using warranted_mono [OF that order_refl bc] .
  moreover have "warranted c (missings a) dm" if "warranted c (missings b) dm" for dm
    using warranted_mono [OF that ab(1) refl refl refl] .
  ultimately have "\<forall>dm \<in> sends (as @ bs). warranted c (missings a) dm"
    using as(3) bs(3) unfolding sends_simps ball_Un by blast
  moreover have "pt_actions c = pt_actions a @ as @ bs" "delivers (as @ bs) = []" using as bs by simp_all
  ultimately have new: "\<exists>as. pt_actions c = pt_actions a @ as \<and> delivers as = [] \<and>
      (\<forall>dm \<in> sends as. warranted c (missings a) dm)" by blast
  have "sends (pt_actions b) \<subseteq> sends (pt_actions c)" by (simp add: bs(1))
  then have live: "live_timer t s ihave (missings c) \<or> asks_for (pt_id a) ihave \<in> sends (pt_actions c)"
    if "live_timer t s ihave (missings a)" for t s ihave
    using that assms ab(2) unfolding expires_def by (metis subsetD)
  have "grafting a c" "spread_wf c" "timer_ihaves (missings c) \<subseteq> timer_ihaves (missings a)"
    using assms grafting_trans unfolding expires_def by blast+
  with new live show ?thesis unfolding expires_def by blast
qed

lemma expires_missings:
  assumes wf: "spread_wf n" and pop: "pop_ok clock (missings n) r mm"
    and leaves: "pop_leaves (missings n) r mm"
  shows "r = None \<Longrightarrow> expires n (n\<lparr>missings := mm\<rparr>)" "spread_wf (n\<lparr>missings := mm\<rparr>)"
proof -
  let ?n = "n\<lparr>missings := mm\<rparr>"
  have graft: "grafting n ?n"
    using wf pop by (simp add: grafting_missings pop_ok_def spread_wf_def)
  have "head_owner e \<in> known_peers n" if "ihaves mm i = Some e" for i e
  proof -
    from leaves that have "head_owner e \<in> ihave_sender ` timer_ihaves (missings n) \<or>
        (\<exists>e'. ihaves (missings n) i = Some e' \<and> head_owner e = head_owner e')"
      unfolding pop_leaves_def by blast
    with wf show ?thesis by (auto simp: spread_wf_def)
  qed
  moreover have "ihaves mm i = None" if "messages n i = Some x" for i x
    using that pop wf unfolding pop_ok_def spread_wf_def by blast
  moreover have "timer_ihaves mm \<subseteq> timer_ihaves (missings n)" using leaves by (simp add: pop_leaves_def)
  moreover have "pt_wf ?n" using graft by (simp add: grafting_def)
  ultimately show spread: "spread_wf ?n" using wf unfolding spread_wf_def by (simp add: subset_iff)
  show "expires n ?n" if "r = None"
    using that graft spread leaves unfolding expires_def pop_leaves_def by simp
qed

lemma expires_step:
  fixes n :: "('n, 'm, 'p) pt_node"
  assumes wf: "spread_wf n" and pop: "pop_ok clock (missings n) (Some ihave) mm"
    and leaves: "pop_leaves (missings n) (Some ihave) mm"
  shows "expires n (snd (send_graft ihave (n\<lparr>missings := mm\<rparr>)))"
proof -
  let ?n = "snd (send_graft ihave (n\<lparr>missings := mm\<rparr>))"
  have mem: "ihave \<in> timer_ihaves (missings n)" using leaves by (simp add: pop_leaves_def)
  then have known: "ihave_sender ihave \<in> known_peers n" using wf by (simp add: spread_wf_def)
  have graft: "grafting n ?n" using grafting_step [of n clock ihave mm] wf pop by (simp add: spread_wf_def)
  have missings: "missings ?n = mm" by simp
  obtain d and m :: "('n, 'm, 'p) pt_message" where dm: "asks_for (pt_id n) ihave = (d, m)" by fastforce
  have actions: "pt_actions ?n = pt_actions n @ [PtSend d m]"
    using known dm by (simp add: send_graft_def is_known_node_iff queue_defs make_eager_def asks_for_def)
  have "known_peers ?n = known_peers n" "pt_id ?n = pt_id n" "messages ?n = messages n" "pt_wf ?n"
    using graft by (simp_all add: grafting_def)
  moreover note expires_missings(2) [OF wf pop leaves]
  ultimately have "spread_wf ?n"
    using missings unfolding spread_wf_def by simp
  moreover have "warranted ?n (missings n) (d, m)"
    unfolding dm [symmetric] using mem known \<open>known_peers ?n = known_peers n\<close> \<open>pt_id ?n = pt_id n\<close>
    by (auto simp: warranted_def asks_for_def)
  then have "\<exists>as. pt_actions ?n = pt_actions n @ as \<and> delivers as = [] \<and>
      (\<forall>dm \<in> sends as. warranted ?n (missings n) dm)"
    using actions by (intro exI [of _ "[PtSend d m]"]) simp
  moreover have "asks_for (pt_id n) ihave \<in> sends (pt_actions ?n)" by (simp add: actions dm)
  ultimately show ?thesis
    using graft leaves [unfolded pop_leaves_def option.inject]
    unfolding expires_def missings by (metis (mono_tags, lifting))
qed

lemma handle_expiration_expires:
  "spread_wf n \<Longrightarrow> handle_expiration n = Some n' \<Longrightarrow> expires n n'"
proof (induction n rule: handle_expiration.induct)
  case (1 n)
  have wf: "missing_wf (missings n)" using "1.prems"(1) by (simp add: spread_wf_def pt_wf_def)
  then obtain r mm where pop: "pop_expired (pt_clock n) (missings n) = Some (r, mm)"
    and ok: "pop_ok (pt_clock n) (missings n) r mm" using pop_expired_ok by blast
  have leaves: "pop_leaves (missings n) r mm" using pop_expired_leaves [OF wf pop] .
  show ?case
  proof (cases r)
    case None
    then have "n' = n\<lparr>missings := mm\<rparr>"
      using pop "1.prems"(2) by (subst (asm) handle_expiration.simps) simp
    then show ?thesis using expires_missings(1) [OF "1.prems"(1) ok leaves] None by simp
  next
    case (Some ihave)
    let ?n = "snd (send_graft ihave (n\<lparr>missings := mm\<rparr>))"
    have step: "expires n ?n" using expires_step "1.prems"(1) ok leaves Some by blast
    then have "spread_wf ?n" by (simp add: expires_def)
    moreover have "handle_expiration ?n = Some n'"
      using pop Some "1.prems"(2) by (subst (asm) handle_expiration.simps) simp
    ultimately show ?thesis using "1.IH" [OF pop refl Some] step expires_trans by blast
  qed
qed

interpretation spread_expiry: spread_operation I handle_expiration None "[]" for I
proof (unfold_locales, goal_cases)
  case (6 n n')
  then show ?case using handle_expiration_expires [of n n']
    by (auto simp: ready_def expires_def grafting_def holds_def)
next
  case (11 n n' a i)
  then obtain t s ihave where live: "live_timer t s ihave (missings n)"
    and ihave: "ihave_sender ihave = a" "ihave_message_id ihave = i" by (auto simp: will_ask_def)
  with 11(1,2) have "live_timer t s ihave (missings n') \<or> asks_for (pt_id n) ihave \<in> sends (pt_actions n')"
    using handle_expiration_expires [of n n'] by (auto simp: ready_def expires_def)
  then show ?case using ihave by (auto simp: will_ask_def requests_def asks_for_def)
next
  case (12 n n' x)
  then show ?case using handle_expiration_expires [of n n'] by (auto simp: ready_def expires_def)
next
  case (13 n n' i)
  then show ?case using handle_expiration_expires [of n n'] by (auto simp: ready_def expires_def grafting_def)
qed (auto simp: ready_def holds_def dest!: handle_expiration_expires simp: expires_def grafting_def)

end
