(* ===== verification/Plumtree_Network.thy ===== *)
theory Plumtree_Network
  imports Plumtree_Spread
begin

text \<open>
  Plumtree nodes that exchange packets: every node of a finite set may at any moment be given a
  message to broadcast, be polled, have its clock advanced or be handed one of the packets in
  transit, in any order.  Links do not change and packets are not lost, but they are reordered
  at will.  The theory shows what the nodes achieve together.
\<close>

section \<open>State and steps\<close>

record ('n, 'm, 'p) pt_network =
  net_nodes :: "'n \<Rightarrow> ('n, 'm, 'p) pt_node"
  in_flight :: "('n \<times> ('n, 'm, 'p) pt_message) list"
  delivered :: "'n \<Rightarrow> ('m, 'p) app_message list"
  published :: "('m, 'p) app_message list"

datatype ('n, 'm, 'p) net_event =
    Publish 'n "('m, 'p) app_message"
  | Emit 'n
  | Hand_Over 'n
  | Idle 'n
  | Arrive 'n "('n, 'm, 'p) pt_message"
  | Pass 'n duration

text \<open>
  The steps.  A message is published under an identifier that no earlier message had, as the
  crate asks of its user.  A poll puts a packet on the way, hands a message to the user, or
  finds nothing to do.
\<close>

inductive net_step ::
  "('n, 'm) iter_ops \<Rightarrow> 'n set \<Rightarrow> ('n, 'm, 'p) pt_network \<Rightarrow> ('n, 'm, 'p) net_event \<Rightarrow>
   ('n, 'm, 'p) pt_network \<Rightarrow> bool" for I V where
  publish: "p \<in> V \<Longrightarrow> msg_id m \<notin> msg_id ` set (published N) \<Longrightarrow>
    net_step I V N (Publish p m)
      (N\<lparr>net_nodes := (net_nodes N)(p := broadcast_message I m (net_nodes N p)),
         published := published N @ [m]\<rparr>)"
| emit: "p \<in> V \<Longrightarrow> pt_poll_action (net_nodes N p) = Some (Some (PtSend d m), n) \<Longrightarrow>
    net_step I V N (Emit p)
      (N\<lparr>net_nodes := (net_nodes N)(p := n), in_flight := in_flight N @ [(d, m)]\<rparr>)"
| hand_over: "p \<in> V \<Longrightarrow> pt_poll_action (net_nodes N p) = Some (Some (Deliver m), n) \<Longrightarrow>
    net_step I V N (Hand_Over p)
      (N\<lparr>net_nodes := (net_nodes N)(p := n),
         delivered := (delivered N)(p := delivered N p @ [m])\<rparr>)"
| idle: "p \<in> V \<Longrightarrow> pt_poll_action (net_nodes N p) = Some (None, n) \<Longrightarrow>
    net_step I V N (Idle p) (N\<lparr>net_nodes := (net_nodes N)(p := n)\<rparr>)"
| arrive: "in_flight N = xs @ (d, m) # ys \<Longrightarrow>
    pt_handle_protocol_message I m (net_nodes N d) = Some (b, n) \<Longrightarrow>
    net_step I V N (Arrive d m)
      (N\<lparr>net_nodes := (net_nodes N)(d := n), in_flight := xs @ ys\<rparr>)"
| pass: "p \<in> V \<Longrightarrow> pt_tick t (net_nodes N p) = Some n \<Longrightarrow>
    net_step I V N (Pass p t) (N\<lparr>net_nodes := (net_nodes N)(p := n)\<rparr>)"

inductive net_run ::
  "('n, 'm) iter_ops \<Rightarrow> 'n set \<Rightarrow> ('n, 'm, 'p) pt_network \<Rightarrow> ('n, 'm, 'p) net_event list \<Rightarrow>
   ('n, 'm, 'p) pt_network \<Rightarrow> bool" for I V where
  net_done: "net_run I V N [] N"
| net_more: "net_step I V N x N1 \<Longrightarrow> net_run I V N1 xs N2 \<Longrightarrow> net_run I V N (x # xs) N2"

inductive_cases net_stepE: "net_step I V N x N'"
inductive_cases net_run_ConsE: "net_run I V N (x # xs) N'"
inductive_simps net_run_simps: "net_run I V N [] N'" "net_run I V N (x # xs) N'"

text \<open>The step an event determines, as a function: what a driver of the nodes computes.\<close>

fun net_do ::
  "('n, 'm) iter_ops \<Rightarrow> ('n, 'm, 'p) net_event \<Rightarrow> ('n, 'm, 'p) pt_network \<Rightarrow>
   ('n, 'm, 'p) pt_network option" where
  "net_do I (Publish p m) N =
     (if msg_id m \<in> set (map msg_id (published N)) then None
      else Some (N\<lparr>net_nodes := (net_nodes N)(p := broadcast_message I m (net_nodes N p)),
                   published := published N @ [m]\<rparr>))"
| "net_do I (Emit p) N =
     (case pt_poll_action (net_nodes N p) of
        Some (Some (PtSend d m), n) \<Rightarrow>
          Some (N\<lparr>net_nodes := (net_nodes N)(p := n), in_flight := in_flight N @ [(d, m)]\<rparr>)
      | _ \<Rightarrow> None)"
| "net_do I (Hand_Over p) N =
     (case pt_poll_action (net_nodes N p) of
        Some (Some (Deliver m), n) \<Rightarrow>
          Some (N\<lparr>net_nodes := (net_nodes N)(p := n),
                  delivered := (delivered N)(p := delivered N p @ [m])\<rparr>)
      | _ \<Rightarrow> None)"
| "net_do I (Idle p) N =
     (case pt_poll_action (net_nodes N p) of
        Some (None, n) \<Rightarrow> Some (N\<lparr>net_nodes := (net_nodes N)(p := n)\<rparr>)
      | _ \<Rightarrow> None)"
| "net_do I (Arrive d m) N =
     (if (d, m) \<in> set (in_flight N) then
        map_option (\<lambda>(b, n). N\<lparr>net_nodes := (net_nodes N)(d := n), in_flight := remove1 (d, m) (in_flight N)\<rparr>)
          (pt_handle_protocol_message I m (net_nodes N d))
      else None)"
| "net_do I (Pass p t) N =
     map_option (\<lambda>n. N\<lparr>net_nodes := (net_nodes N)(p := n)\<rparr>) (pt_tick t (net_nodes N p))"

fun event_node :: "('n, 'm, 'p) net_event \<Rightarrow> 'n" where
  "event_node (Publish p m) = p"
| "event_node (Emit p) = p"
| "event_node (Hand_Over p) = p"
| "event_node (Idle p) = p"
| "event_node (Arrive p m) = p"
| "event_node (Pass p t) = p"

lemma net_do_step:
  assumes "net_do I x N = Some N'" "event_node x \<in> V"
  shows "net_step I V N x N'"
proof (cases x)
  case (Arrive d m)
  then have mem: "(d, m) \<in> set (in_flight N)" using assms(1) by (auto split: if_splits)
  then obtain xs ys where xs: "in_flight N = xs @ (d, m) # ys" "(d, m) \<notin> set xs"
    by (meson split_list_first)
  then have "remove1 (d, m) (in_flight N) = xs @ ys" by (simp add: remove1_append)
  with Arrive assms(1) mem show ?thesis by (auto intro: net_step.arrive [OF xs(1)])
qed (use assms in \<open>auto intro: net_step.intros split: if_splits option.splits prod.splits pt_action.splits\<close>)

fun net_exec ::
  "('n, 'm) iter_ops \<Rightarrow> ('n, 'm, 'p) net_event list \<Rightarrow> ('n, 'm, 'p) pt_network \<Rightarrow>
   ('n, 'm, 'p) pt_network option" where
  "net_exec I [] N = Some N"
| "net_exec I (x # xs) N = Option.bind (net_do I x N) (net_exec I xs)"

lemma net_exec_run:
  "net_exec I xs N = Some N' \<Longrightarrow> event_node ` set xs \<subseteq> V \<Longrightarrow> net_run I V N xs N'"
  by (induction xs arbitrary: N)
    (auto simp: bind_eq_Some_conv net_done intro!: net_more net_do_step)

text \<open>
  The start: every node has been told of its neighbours.  The links are those of \<open>links\<close>, in
  both directions.
\<close>

definition net_links :: "'n set \<Rightarrow> ('n \<Rightarrow> 'n list) \<Rightarrow> bool" where
  "net_links V links \<longleftrightarrow>
     (\<forall>p \<in> V. \<forall>q \<in> set (links p). q \<in> V \<and> q \<noteq> p \<and> p \<in> set (links q))"

definition net_start ::
  "('n, 'm) iter_ops \<Rightarrow> ('n \<Rightarrow> 'n list) \<Rightarrow> ('n \<Rightarrow> pt_options) \<Rightarrow> ('n, 'm, 'p) pt_network" where
  "net_start I links opts =
     \<lparr>net_nodes = \<lambda>p. fold (handle_neighbor_up I) (links p) (pt_with_options p (opts p)),
      in_flight = [], delivered = \<lambda>p. [], published = []\<rparr>"

section \<open>Invariant\<close>

abbreviation node_at :: "('n, 'm, 'p) pt_network \<Rightarrow> 'n \<Rightarrow> ('n, 'm, 'p) pt_node" where
  "node_at \<equiv> net_nodes"

definition packets :: "'n set \<Rightarrow> ('n, 'm, 'p) pt_network \<Rightarrow> ('n \<times> ('n, 'm, 'p) pt_message) set" where
  "packets V N = set (in_flight N) \<union> (\<Union>p \<in> V. sends (pt_actions (node_at N p)))"

text \<open>Nodes and links.\<close>

definition net_wf :: "'n set \<Rightarrow> ('n, 'm, 'p) pt_network \<Rightarrow> bool" where
  "net_wf V N \<longleftrightarrow>
     (\<forall>p \<in> V. spread_wf (node_at N p) \<and> pt_id (node_at N p) = p \<and> known_peers (node_at N p) \<subseteq> V) \<and>
     (\<forall>p \<in> V. \<forall>q \<in> known_peers (node_at N p). p \<in> known_peers (node_at N q))"

text \<open>
  What a packet proves: it runs along a link; the sender of a gossip or an IHAVE stores the
  message, and so does the receiver of a GRAFT for it.
\<close>

fun packet_ok :: "('n, 'm, 'p) pt_network \<Rightarrow> 'n \<Rightarrow> ('n, 'm, 'p) pt_message \<Rightarrow> bool" where
  "packet_ok N d (Gossip g) = holds (node_at N (gossip_sender g)) (gossip_message g)"
| "packet_ok N d (Ihave x) = (ihave_message_id x \<in> dom (messages (node_at N (ihave_sender x))))"
| "packet_ok N d (Graft g) = (\<forall>i. graft_message_id g = Some i \<longrightarrow> i \<in> dom (messages (node_at N d)))"
| "packet_ok N d (Prune p) = True"

definition net_evidence :: "'n set \<Rightarrow> ('n, 'm, 'p) pt_network \<Rightarrow> bool" where
  "net_evidence V N \<longleftrightarrow>
     (\<forall>(d, m) \<in> packets V N. d \<in> V \<and> pt_sender m \<in> V \<and> d \<in> known_peers (node_at N (pt_sender m)) \<and>
        packet_ok N d m) \<and>
     (\<forall>p \<in> V. \<forall>x \<in> timer_ihaves (missings (node_at N p)).
        ihave_message_id x \<in> dom (messages (node_at N (ihave_sender x)))) \<and>
     (\<forall>p \<in> V. dom (ihaves (missings (node_at N p))) \<subseteq> msg_id ` set (published N))"

text \<open>Exactly the published messages are stored, and each node delivers what it stores, once.\<close>

definition net_stored :: "'n set \<Rightarrow> ('n, 'm, 'p) pt_network \<Rightarrow> bool" where
  "net_stored V N \<longleftrightarrow> distinct (map msg_id (published N)) \<and>
     (\<forall>p \<in> V. \<forall>m. holds (node_at N p) m \<longrightarrow> m \<in> set (published N)) \<and>
     (\<forall>m \<in> set (published N). \<exists>p \<in> V. holds (node_at N p) m) \<and>
     (\<forall>p \<in> V. distinct (delivered N p @ delivers (pt_actions (node_at N p))) \<and>
        set (delivered N p @ delivers (pt_actions (node_at N p))) = {m. holds (node_at N p) m})"

text \<open>
  A message on one end of a link is on the other end too, or is on its way there: as a gossip
  or an announcement, as a request for it, or as a timer that will request it.
\<close>

definition on_the_way :: "'n set \<Rightarrow> ('n, 'm, 'p) pt_network \<Rightarrow> 'n \<Rightarrow> 'm \<Rightarrow> 'n \<Rightarrow> bool" where
  "on_the_way V N a i b \<longleftrightarrow> tells a i b (packets V N) \<or> requests a i b (packets V N) \<or>
     will_ask a i (missings (node_at N b))"

definition net_spreading :: "'n set \<Rightarrow> ('n, 'm, 'p) pt_network \<Rightarrow> bool" where
  "net_spreading V N \<longleftrightarrow>
     (\<forall>a \<in> V. \<forall>b \<in> known_peers (node_at N a). \<forall>i \<in> dom (messages (node_at N a)).
        i \<in> dom (messages (node_at N b)) \<or> on_the_way V N a i b)"

definition net_inv :: "'n set \<Rightarrow> ('n, 'm, 'p) pt_network \<Rightarrow> bool" where
  "net_inv V N \<longleftrightarrow> net_wf V N \<and> net_evidence V N \<and> net_stored V N \<and> net_spreading V N"

lemma net_wf_at:
  assumes "net_wf V N" "p \<in> V"
  shows "spread_wf (node_at N p)" "pt_wf (node_at N p)" "pt_id (node_at N p) = p"
    "known_peers (node_at N p) \<subseteq> V" "q \<in> known_peers (node_at N p) \<Longrightarrow> p \<in> known_peers (node_at N q)"
  using assms by (auto simp: net_wf_def spread_wf_def)

lemma net_evidence_packet:
  assumes "net_evidence V N" "(d, m) \<in> packets V N"
  shows "d \<in> V" "pt_sender m \<in> V" "d \<in> known_peers (node_at N (pt_sender m))" "packet_ok N d m"
  using assms by (auto simp: net_evidence_def)

lemma holds_mono: "holds n m \<Longrightarrow> messages n \<subseteq>\<^sub>m messages n' \<Longrightarrow> holds n' m"
  unfolding holds_def map_le_def by (metis domI)

lemma dom_mono: "i \<in> dom m \<Longrightarrow> m \<subseteq>\<^sub>m m' \<Longrightarrow> i \<in> dom m'"
  by (metis map_le_implies_dom_le subsetD)

text \<open>The fresh identifier of a new message is unknown everywhere.\<close>

lemma fresh_everywhere:
  assumes "net_inv V N" "p \<in> V" "i \<notin> msg_id ` set (published N)"
  shows "messages (node_at N p) i = None" "ihaves (missings (node_at N p)) i = None"
proof -
  have "holds (node_at N p) \<lparr>msg_id = i, msg_payload = x\<rparr>" if "messages (node_at N p) i = Some x" for x
    using that by (simp add: holds_def)
  then show "messages (node_at N p) i = None"
    using assms unfolding net_inv_def net_stored_def
    by (metis (no_types, lifting) app_message.select_convs(1) image_eqI option.exhaust)
  show "ihaves (missings (node_at N p)) i = None"
    using assms unfolding net_inv_def net_evidence_def by blast
qed

section \<open>One operation at one node\<close>

text \<open>
  The network after an operation at node \<open>p\<close>: the node is replaced, the packets \<open>F\<close> remain in
  transit, and the messages \<open>adds\<close> have been published.
\<close>

definition net_replace :: "('n, 'm, 'p) pt_network \<Rightarrow> 'n \<Rightarrow> ('n, 'm, 'p) pt_node \<Rightarrow>
    ('n \<times> ('n, 'm, 'p) pt_message) list \<Rightarrow> ('m, 'p) app_message list \<Rightarrow> ('n, 'm, 'p) pt_network" where
  "net_replace N p n F adds =
     N\<lparr>net_nodes := (net_nodes N)(p := n), in_flight := F, published := published N @ adds\<rparr>"

lemma net_replace_sel [simp]:
  "node_at (net_replace N p n F adds) q = (if q = p then n else node_at N q)"
  "in_flight (net_replace N p n F adds) = F" "delivered (net_replace N p n F adds) = delivered N"
  "published (net_replace N p n F adds) = published N @ adds"
  by (simp_all add: net_replace_def)

text \<open>The packets that may be handed to the operation, and those that stay.\<close>

definition takes_packet :: "('n, 'm, 'p) pt_network \<Rightarrow> 'n \<Rightarrow> ('n, 'm, 'p) pt_message option \<Rightarrow>
    ('n \<times> ('n, 'm, 'p) pt_message) list \<Rightarrow> bool" where
  "takes_packet N p c F \<longleftrightarrow> set F \<subseteq> set (in_flight N) \<and>
     set (in_flight N) \<subseteq> set F \<union> Pair p ` set_option c \<and> Pair p ` set_option c \<subseteq> set (in_flight N)"

definition publishable :: "('n, 'm, 'p) pt_network \<Rightarrow> ('m, 'p) app_message list \<Rightarrow> bool" where
  "publishable N adds \<longleftrightarrow> distinct (map msg_id adds) \<and>
     msg_id ` set adds \<inter> msg_id ` set (published N) = {}"

context spread_operation
begin

lemma ready_in_network:
  assumes inv: "net_inv V N" and p: "p \<in> V" and I: "iter_ops_ok I"
    and takes: "takes_packet N p consumed F" and new: "publishable N adds"
  shows "ready I consumed adds (node_at N p)"
proof -
  have wf: "net_wf V N" and ev: "net_evidence V N" using inv by (simp_all add: net_inv_def)
  have "pt_sender m \<in> known_peers (node_at N p)" if "consumed = Some m" for m
  proof -
    have "(p, m) \<in> packets V N" using takes that by (auto simp: takes_packet_def packets_def)
    then show ?thesis using net_evidence_packet [OF ev] net_wf_at(5) [OF wf] by blast
  qed
  moreover have "messages (node_at N p) (msg_id m) = None \<and> ihaves (missings (node_at N p)) (msg_id m) = None"
    if "m \<in> set adds" for m
    using fresh_everywhere [OF inv p] new that unfolding publishable_def by blast
  ultimately show ?thesis using I net_wf_at(1) [OF wf p] by (simp add: ready_def)
qed

text \<open>The packets afterwards, and what they still prove.\<close>

lemma packets_after:
  assumes run: "ready I consumed adds (node_at N p)" "op (node_at N p) = Some n'" and p: "p \<in> V"
    and takes: "takes_packet N p consumed F"
    and new: "pt_actions n' = pt_actions (node_at N p) @ as"
  shows "packets V (net_replace N p n' F adds) \<subseteq> packets V N \<union> sends as"
    "packets V N \<subseteq> packets V (net_replace N p n' F adds) \<union> Pair p ` set_option consumed"
    "sends (pt_actions n') \<subseteq> packets V (net_replace N p n' F adds)"
proof -
  let ?N = "net_replace N p n' F adds"
  have at: "sends (pt_actions (node_at ?N q)) =
      sends (pt_actions (node_at N q)) \<union> (if q = p then sends as else {})" for q
    by (simp add: new)
  show "packets V ?N \<subseteq> packets V N \<union> sends as"
    using takes unfolding packets_def at by (auto simp: takes_packet_def split: if_splits)
  show "packets V N \<subseteq> packets V ?N \<union> Pair p ` set_option consumed"
    using takes unfolding packets_def at by (auto simp: takes_packet_def)
  show "sends (pt_actions n') \<subseteq> packets V ?N"
    using p by (auto simp: packets_def)
qed

lemma op_net_wf:
  assumes "net_wf V N" "ready I consumed adds (node_at N p)" "op (node_at N p) = Some n'"
  shows "net_wf V (net_replace N p n' F adds)"
proof -
  have "spread_wf n'" "known_peers n' = known_peers (node_at N p)" "pt_id n' = pt_id (node_at N p)"
    using keeps_wf keeps_peers assms(2,3) by blast+
  with assms(1) show ?thesis by (auto simp: net_wf_def)
qed

lemma op_messages_grow:
  assumes "ready I consumed adds (node_at N p)" "op (node_at N p) = Some n'"
  shows "messages (node_at N q) \<subseteq>\<^sub>m messages (node_at (net_replace N p n' F adds) q)"
  using keeps_messages [OF assms] by simp

lemma op_packet_ok:
  assumes "ready I consumed adds (node_at N p)" "op (node_at N p) = Some n'" "packet_ok N d m"
  shows "packet_ok (net_replace N p n' F adds) d m"
proof (cases m)
  case (Gossip g)
  then show ?thesis using assms(3) holds_mono [OF _ op_messages_grow [OF assms(1,2)]] by simp
next
  case (Ihave x)
  then show ?thesis using assms(3) dom_mono [OF _ op_messages_grow [OF assms(1,2)]]
    by (simp only: packet_ok.simps)
next
  case (Graft g)
  then show ?thesis using assms(3) dom_mono [OF _ op_messages_grow [OF assms(1,2)]]
    by (simp only: packet_ok.simps) blast
qed simp

lemma op_new_packet:
  assumes inv: "net_inv V N" and p: "p \<in> V"
    and run: "ready I consumed adds (node_at N p)" "op (node_at N p) = Some n'"
    and new: "warranted n' (missings (node_at N p)) (d, m)"
  shows "d \<in> V \<and> pt_sender m \<in> V \<and> d \<in> known_peers (node_at N (pt_sender m)) \<and>
    packet_ok (net_replace N p n' F adds) d m"
proof -
  note wf = net_wf_at [of V N p]
  have peers: "pt_id n' = p" "known_peers n' = known_peers (node_at N p)"
    using keeps_peers [OF run] wf(3) inv p by (auto simp: net_inv_def)
  then have link: "d \<in> known_peers (node_at N p)" "pt_sender m = p"
    using new by (auto simp: warranted_def)
  have dV: "d \<in> V" using link(1) wf(4) inv p by (auto simp: net_inv_def)
  have "packet_ok (net_replace N p n' F adds) d m"
  proof (cases m)
    case (Graft g)
    have "i \<in> dom (messages (node_at N d))" if "graft_message_id g = Some i" for i
    proof -
      from that new Graft obtain x where "x \<in> timer_ihaves (missings (node_at N p))"
        "ihave_sender x = d" "ihave_message_id x = i" by (auto simp: warranted_def)
      with inv p show ?thesis unfolding net_inv_def net_evidence_def by blast
    qed
    then show ?thesis using Graft dom_mono [OF _ op_messages_grow [OF run]]
      by (simp only: packet_ok.simps) blast
  qed (use new link in \<open>auto simp: warranted_def\<close>)
  with dV p link show ?thesis by simp
qed

lemma op_net_evidence:
  assumes inv: "net_inv V N" and p: "p \<in> V"
    and run: "ready I consumed adds (node_at N p)" "op (node_at N p) = Some n'"
    and takes: "takes_packet N p consumed F"
  shows "net_evidence V (net_replace N p n' F adds)"
proof -
  let ?N = "net_replace N p n' F adds"
  have ev: "net_evidence V N" using inv by (simp add: net_inv_def)
  obtain as where as: "pt_actions n' = pt_actions (node_at N p) @ as"
    "\<forall>dm \<in> sends as. warranted n' (missings (node_at N p)) dm" using new_actions [OF run] by blast
  have grow: "messages (node_at N q) \<subseteq>\<^sub>m messages (node_at ?N q)" for q using op_messages_grow [OF run] .
  have peers: "known_peers (node_at ?N q) = known_peers (node_at N q)" for q
    using keeps_peers [OF run] by simp
  have packet: "d \<in> V \<and> pt_sender m \<in> V \<and> d \<in> known_peers (node_at ?N (pt_sender m)) \<and> packet_ok ?N d m"
    if "(d, m) \<in> packets V ?N" for d m
  proof (cases "(d, m) \<in> packets V N")
    case True
    then show ?thesis unfolding peers
      using net_evidence_packet [OF ev True] op_packet_ok [OF run] by blast
  next
    case False
    then have "warranted n' (missings (node_at N p)) (d, m)"
      using that packets_after(1) [OF run p takes as(1)] as(2) by blast
    then show ?thesis unfolding peers using op_new_packet [OF inv p run] by blast
  qed
  have taken: "ihave_message_id y \<in> dom (messages (node_at N (ihave_sender y))) \<and> ihave_sender y \<in> V"
    if "consumed = Some (Ihave y)" for y
    using that takes net_evidence_packet [OF ev, of p "Ihave y"]
    by (auto simp: takes_packet_def packets_def)
  have timer: "ihave_message_id x \<in> dom (messages (node_at ?N (ihave_sender x)))"
    if q: "q \<in> V" "x \<in> timer_ihaves (missings (node_at ?N q))" for q x
  proof -
    from q(2) consider "x \<in> timer_ihaves (missings (node_at N q))"
      | y where "consumed = Some (Ihave y)" "ihave_sender x = ihave_sender y"
        "ihave_message_id x = ihave_message_id y"
      using new_timers [OF run] by (auto split: if_splits)
    then have "ihave_message_id x \<in> dom (messages (node_at N (ihave_sender x)))"
    proof cases
      case 1
      then show ?thesis using ev q(1) unfolding net_evidence_def by blast
    next
      case 2
      then show ?thesis using taken by simp
    qed
    then show ?thesis using dom_mono [OF _ grow] by blast
  qed
  have entry: "i \<in> msg_id ` set (published ?N)"
    if q: "q \<in> V" "i \<in> dom (ihaves (missings (node_at ?N q)))" for q i
  proof -
    from q(2) consider "i \<in> dom (ihaves (missings (node_at N q)))"
      | y where "consumed = Some (Ihave y)" "i = ihave_message_id y"
      using new_entries [OF run] by (auto split: if_splits)
    then have "i \<in> msg_id ` set (published N)"
    proof cases
      case 1
      then show ?thesis using ev q(1) unfolding net_evidence_def by blast
    next
      case 2
      then obtain x where "holds (node_at N (ihave_sender y)) \<lparr>msg_id = i, msg_payload = x\<rparr>"
        "ihave_sender y \<in> V" using taken by (auto simp: holds_def)
      then show ?thesis using inv unfolding net_inv_def net_stored_def
        by (metis app_message.select_convs(1) image_eqI)
    qed
    then show ?thesis by auto
  qed
  show ?thesis unfolding net_evidence_def using packet timer entry by blast
qed

lemma op_net_stored:
  assumes inv: "net_inv V N" and p: "p \<in> V"
    and run: "ready I consumed adds (node_at N p)" "op (node_at N p) = Some n'"
    and takes: "takes_packet N p consumed F" and new: "publishable N adds"
  shows "net_stored V (net_replace N p n' F adds)"
proof -
  let ?N = "net_replace N p n' F adds"
  have st: "net_stored V N" and ev: "net_evidence V N" using inv by (simp_all add: net_inv_def)
  have grow: "holds (node_at N q) m \<Longrightarrow> holds (node_at ?N q) m" for q m
    using holds_mono op_messages_grow [OF run] by blast
  have known: "m \<in> set (published ?N)" if q: "q \<in> V" "holds (node_at ?N q) m" for q m
  proof -
    from q(2) consider "holds (node_at N q) m" | "m \<in> set adds"
      | g where "consumed = Some (Gossip g)" "m = gossip_message g"
      using new_messages [OF run] by (auto split: if_splits)
    then show ?thesis
    proof cases
      case 3
      then have "(p, Gossip g) \<in> packets V N" using takes by (auto simp: takes_packet_def packets_def)
      from net_evidence_packet [OF ev this] 3 st show ?thesis by (simp add: net_stored_def)
    qed (use st q(1) in \<open>auto simp: net_stored_def\<close>)
  qed
  have stored: "\<exists>q \<in> V. holds (node_at ?N q) m" if "m \<in> set (published ?N)" for m
  proof (cases "m \<in> set adds")
    case True
    then show ?thesis using adds_messages [OF run] p by (intro bexI [of _ p]) simp
  next
    case False
    then have "\<exists>q \<in> V. holds (node_at N q) m" using that st by (simp add: net_stored_def)
    then show ?thesis using grow by blast
  qed
  obtain as where as: "pt_actions n' = pt_actions (node_at N p) @ as" "distinct (delivers as)"
    "set (delivers as) = {m. holds n' m \<and> \<not> holds (node_at N p) m}" using new_actions [OF run] by blast
  have once: "distinct (delivered ?N q @ delivers (pt_actions (node_at ?N q))) \<and>
      set (delivered ?N q @ delivers (pt_actions (node_at ?N q))) = {m. holds (node_at ?N q) m}"
    if q: "q \<in> V" for q
  proof (cases "q = p")
    case True
    have "distinct (delivered N p @ delivers (pt_actions (node_at N p)))"
      "set (delivered N p @ delivers (pt_actions (node_at N p))) = {m. holds (node_at N p) m}"
      using st p by (simp_all add: net_stored_def)
    then show ?thesis using True as grow [of p] by auto
  qed (use st q in \<open>simp add: net_stored_def\<close>)
  have "distinct (map msg_id (published ?N))"
    using st new by (auto simp: net_stored_def publishable_def)
  with known stored once show ?thesis unfolding net_stored_def by blast
qed

text \<open>What was on the way over a link still is, or has arrived.\<close>

lemma op_on_the_way:
  assumes inv: "net_inv V N" and p: "p \<in> V"
    and run: "ready I consumed adds (node_at N p)" "op (node_at N p) = Some n'"
    and takes: "takes_packet N p consumed F"
    and has: "i \<in> dom (messages (node_at N a))" and way: "on_the_way V N a i b"
  shows "i \<in> dom (messages (node_at (net_replace N p n' F adds) b)) \<or>
    on_the_way V (net_replace N p n' F adds) a i b"
proof -
  let ?N = "net_replace N p n' F adds"
  obtain as where as: "pt_actions n' = pt_actions (node_at N p) @ as" using new_actions [OF run] by blast
  note after = packets_after [OF run p takes as]
  have me: "pt_id (node_at N p) = p"
    using inv by (intro net_wf_at(3) [OF _ p]) (simp add: net_inv_def)
  have kept: "pk \<in> packets V ?N \<or> (\<exists>m. consumed = Some m \<and> pk = (p, m))" if "pk \<in> packets V N" for pk
    using that after(2) by auto
  from way consider (told) m where "(b, m) \<in> packets V N"
      "(\<exists>g. m = Gossip g \<and> gossip_sender g = a \<and> msg_id (gossip_message g) = i) \<or>
       (\<exists>x. m = Ihave x \<and> ihave_sender x = a \<and> ihave_message_id x = i)"
    | (asked) graft where "(a, Graft graft) \<in> packets V N" "graft_sender graft = b"
      "graft_message_id graft = Some i"
    | (timer) "will_ask a i (missings (node_at N b))"
    unfolding on_the_way_def tells_def requests_def by blast
  then show ?thesis
  proof cases
    case told
    from kept [OF told(1)] show ?thesis
    proof (elim disjE exE conjE)
      assume "(b, m) \<in> packets V ?N"
      with told(2) have "tells a i b (packets V ?N)" by (auto simp: tells_def)
      then show ?thesis by (simp add: on_the_way_def)
    next
      fix m' assume "consumed = Some m'" "(b, m) = (p, m')"
      then show ?thesis using told(2) stores_gossip [OF run] notes_ihave [OF run]
        by (auto simp: on_the_way_def)
    qed
  next
    case asked
    from kept [OF asked(1)] show ?thesis
    proof (elim disjE exE conjE)
      assume "(a, Graft graft) \<in> packets V ?N"
      with asked(2,3) have "requests a i b (packets V ?N)" by (auto simp: requests_def)
      then show ?thesis by (simp add: on_the_way_def)
    next
      fix m' assume "consumed = Some m'" "(a, Graft graft) = (p, m')"
      then have "tells a i b (sends (pt_actions n'))"
        using answers_graft [OF run, of graft i] asked has me by auto
      then show ?thesis using tells_mono [OF _ after(3)] by (simp add: on_the_way_def)
    qed
  next
    case timer
    show ?thesis
    proof (cases "b = p")
      case True
      with timer keeps_asking [OF run] me
      consider "will_ask a i (missings n')" | "i \<in> dom (messages n')"
        | "requests a i p (sends (pt_actions n'))" by auto
      then show ?thesis
        by cases (use True requests_mono [OF _ after(3)] in \<open>auto simp: on_the_way_def\<close>)
    qed (use timer in \<open>simp add: on_the_way_def\<close>)
  qed
qed

lemma op_net_spreading:
  assumes inv: "net_inv V N" and p: "p \<in> V"
    and run: "ready I consumed adds (node_at N p)" "op (node_at N p) = Some n'"
    and takes: "takes_packet N p consumed F"
  shows "net_spreading V (net_replace N p n' F adds)"
  unfolding net_spreading_def
proof (intro ballI)
  let ?N = "net_replace N p n' F adds"
  fix a b i assume a: "a \<in> V" and "b \<in> known_peers (node_at ?N a)" and has: "i \<in> dom (messages (node_at ?N a))"
  then have link: "b \<in> known_peers (node_at N a)"
    using keeps_peers [OF run] by (auto split: if_splits)
  show "i \<in> dom (messages (node_at ?N b)) \<or> on_the_way V ?N a i b"
  proof (cases "i \<in> dom (messages (node_at N a))")
    case True
    then consider "i \<in> dom (messages (node_at N b))" | "on_the_way V N a i b"
      using inv a link unfolding net_inv_def net_spreading_def by blast
    then show ?thesis
      by cases (use dom_mono [OF _ op_messages_grow [OF run]] op_on_the_way [OF inv p run takes True] in blast)+
  next
    case False
    with has have ap: "a = p" "i \<in> dom (messages n')" by (auto split: if_splits)
    have me: "pt_id (node_at N p) = p"
    using inv by (intro net_wf_at(3) [OF _ p]) (simp add: net_inv_def)
    obtain as where as: "pt_actions n' = pt_actions (node_at N p) @ as" using new_actions [OF run] by blast
    from tells_neighbours [OF run ap(2)] False ap(1) link
    consider "tells p i b (sends (pt_actions n'))"
      | g where "consumed = Some (Gossip g)" "gossip_sender g = b" "msg_id (gossip_message g) = i"
      using me by auto
    then show ?thesis
    proof cases
      case 1
      then show ?thesis using tells_mono [OF _ packets_after(3) [OF run p takes as]] ap(1)
        by (simp add: on_the_way_def)
    next
      case 2
      then have "(p, Gossip g) \<in> packets V N" using takes by (auto simp: takes_packet_def packets_def)
      with inv 2 have "holds (node_at N b) (gossip_message g)"
        using net_evidence_packet(4) [of V N p "Gossip g"] by (simp add: net_inv_def)
      then have "i \<in> dom (messages (node_at N b))" using 2 by (auto simp: holds_def)
      then show ?thesis using dom_mono [OF _ op_messages_grow [OF run]] by blast
    qed
  qed
qed

lemma op_net_inv:
  assumes inv: "net_inv V N" and p: "p \<in> V" and I: "iter_ops_ok I"
    and run: "op (node_at N p) = Some n'"
    and takes: "takes_packet N p consumed F" and new: "publishable N adds"
  shows "net_inv V (net_replace N p n' F adds)"
proof -
  have ready: "ready I consumed adds (node_at N p)" using ready_in_network [OF inv p I takes new] .
  note parts = op_net_wf [OF _ ready run] op_net_evidence [OF inv p ready run takes]
    op_net_stored [OF inv p ready run takes new] op_net_spreading [OF inv p ready run takes]
  show ?thesis using parts inv unfolding net_inv_def by blast
qed

end

section \<open>Every step keeps the invariant\<close>

text \<open>The head of the queue leaves a node for the network or for the user.\<close>

lemma net_inv_cong:
  assumes "net_inv V N" and packets: "packets V N' = packets V N" "published N' = published N"
    and same: "\<And>q. messages (node_at N' q) = messages (node_at N q) \<and>
      missings (node_at N' q) = missings (node_at N q) \<and> pt_wf (node_at N' q) = pt_wf (node_at N q) \<and>
      pt_id (node_at N' q) = pt_id (node_at N q) \<and> known_peers (node_at N' q) = known_peers (node_at N q) \<and>
      delivered N' q @ delivers (pt_actions (node_at N' q)) =
        delivered N q @ delivers (pt_actions (node_at N q))"
  shows "net_inv V N'"
proof -
  have holds: "holds (node_at N' q) m = holds (node_at N q) m" for q m by (simp add: holds_def same)
  have ok: "packet_ok N' d m = packet_ok N d m" for d m by (cases m) (simp_all add: holds same)
  have wf: "spread_wf (node_at N' q) = spread_wf (node_at N q)" for q by (simp add: spread_wf_def same)
  have "net_wf V N'" using assms(1) by (simp add: net_inv_def net_wf_def wf same)
  moreover have "net_evidence V N'" using assms(1) by (simp add: net_inv_def net_evidence_def packets ok same)
  moreover have "net_stored V N'" using assms(1)
    by (simp add: net_inv_def net_stored_def packets holds same del: distinct_append set_append)
  moreover have "net_spreading V N'"
    using assms(1) by (simp add: net_inv_def net_spreading_def on_the_way_def packets same)
  ultimately show ?thesis by (simp add: net_inv_def)
qed

lemma net_inv_emit:
  assumes inv: "net_inv V N" and p: "p \<in> V" and head: "pt_actions (node_at N p) = PtSend d m # as"
  shows "net_inv V (N\<lparr>net_nodes := (net_nodes N)(p := (node_at N p)\<lparr>pt_actions := as\<rparr>),
    in_flight := in_flight N @ [(d, m)]\<rparr>)" (is "net_inv V ?N")
proof (rule net_inv_cong [OF inv])
  have "sends (pt_actions (node_at N p)) = insert (d, m) (sends (pt_actions (node_at ?N p)))"
    by (simp add: head)
  then show "packets V ?N = packets V N"
    using p by (force simp: packets_def split: if_splits)
qed (simp_all add: head)

lemma net_inv_hand_over:
  assumes inv: "net_inv V N" and p: "p \<in> V" and head: "pt_actions (node_at N p) = Deliver m # as"
  shows "net_inv V (N\<lparr>net_nodes := (net_nodes N)(p := (node_at N p)\<lparr>pt_actions := as\<rparr>),
    delivered := (delivered N)(p := delivered N p @ [m])\<rparr>)" (is "net_inv V ?N")
proof (rule net_inv_cong [OF inv])
  have "sends (pt_actions (node_at N p)) = sends (pt_actions (node_at ?N p))" by (simp add: head)
  then show "packets V ?N = packets V N" by (force simp: packets_def split: if_splits)
qed (simp_all add: head)

lemma takes_nothing: "takes_packet N p None (in_flight N)"
  by (simp add: takes_packet_def)

lemma publishable_Nil: "publishable N []"
  by (simp add: publishable_def)

text \<open>The timers that fire in a poll, before its action is taken off the queue.\<close>

lemma net_inv_expiry:
  fixes N :: "('n, 'm, 'p) pt_network" and I :: "('n, 'm) iter_ops"
  assumes "net_inv V N" "p \<in> V" "iter_ops_ok I" "handle_expiration (node_at N p) = Some n"
  shows "net_inv V (N\<lparr>net_nodes := (net_nodes N)(p := n)\<rparr>)"
proof -
  have "net_inv V (net_replace N p n (in_flight N) [])"
    by (rule spread_expiry.op_net_inv [OF assms takes_nothing publishable_Nil])
  then show ?thesis by (simp add: net_replace_def)
qed

lemma receive_cases:
  assumes "pt_handle_protocol_message I m n = Some (b, n')" "pt_sender m \<in> known_peers n"
  shows "case m of Gossip g \<Rightarrow> Some (handle_gossip I g n) = Some n'
    | Ihave x \<Rightarrow> handle_ihave x n = Some n'
    | Graft g \<Rightarrow> Some (handle_graft g n) = Some n' | Prune x \<Rightarrow> Some (handle_prune x n) = Some n'"
  using assms by (auto simp: pt_handle_protocol_message_def is_known_node_iff split: pt_message.splits)

lemma net_inv_arrive:
  assumes inv: "net_inv V N" and I: "iter_ops_ok I" and flight: "in_flight N = xs @ (d, m) # ys"
    and run: "pt_handle_protocol_message I m (node_at N d) = Some (b, n)"
  shows "net_inv V (N\<lparr>net_nodes := (net_nodes N)(d := n), in_flight := xs @ ys\<rparr>)"
proof -
  have ev: "net_evidence V N" and wf: "net_wf V N" using inv by (simp_all add: net_inv_def)
  have "(d, m) \<in> packets V N" by (simp add: packets_def flight)
  note packet = net_evidence_packet [OF ev this]
  have "pt_sender m \<in> known_peers (node_at N d)" by (rule net_wf_at(5) [OF wf packet(2,3)])
  note steps = receive_cases [OF run this]
  have takes: "takes_packet N d (Some m) (xs @ ys)" by (auto simp: takes_packet_def flight)
  have "net_inv V (net_replace N d n (xs @ ys) [])"
    using steps takes
    by (cases m)
      (auto intro: spread_gossip.op_net_inv [OF inv packet(1) I _ _ publishable_Nil]
        spread_ihave.op_net_inv [OF inv packet(1) I _ _ publishable_Nil]
        spread_graft.op_net_inv [OF inv packet(1) I _ _ publishable_Nil]
        spread_prune.op_net_inv [OF inv packet(1) I _ _ publishable_Nil])
  then show ?thesis by (simp add: net_replace_def)
qed

lemma poll_action_cases:
  assumes "pt_poll_action n = Some (a, n')"
  obtains x n1 where "a = Some x" "handle_expiration n = Some n1" "pt_actions n1 = x # pt_actions n'"
    "n' = n1\<lparr>pt_actions := pt_actions n'\<rparr>"
  | "a = None" "handle_expiration n = Some n'" "pt_actions n' = []"
proof -
  from assms obtain n1 where n1: "handle_expiration n = Some n1"
    "n' = n1\<lparr>pt_actions := tl (pt_actions n1)\<rparr>"
    "a = (case pt_actions n1 of [] \<Rightarrow> None | x # _ \<Rightarrow> Some x)"
    by (auto simp: pt_poll_action_expiration)
  show thesis
    by (cases "pt_actions n1") (use n1 that in auto)
qed

lemma net_step_inv:
  assumes step: "net_step I V N x N'" and inv: "net_inv V N" and I: "iter_ops_ok I"
  shows "net_inv V N'"
  using step
proof cases
  case (publish p m)
  have "net_inv V (net_replace N p (broadcast_message I m (node_at N p)) (in_flight N) [m])"
    by (rule spread_broadcast.op_net_inv [OF inv publish(3) I refl takes_nothing])
      (use publish(4) in \<open>auto simp: publishable_def\<close>)
  then show ?thesis unfolding publish(2) by (simp add: net_replace_def)
next
  case (emit p d m n)
  from emit(4) show ?thesis
  proof (cases rule: poll_action_cases)
    case (1 y n1)
    then have head: "pt_actions n1 = PtSend d m # pt_actions n" by simp
    from net_inv_emit [OF net_inv_expiry [OF inv emit(3) I 1(2)] emit(3), of d m "pt_actions n"] head 1(4)
    show ?thesis unfolding emit(2) by simp
  qed simp
next
  case (hand_over p m n)
  from hand_over(4) show ?thesis
  proof (cases rule: poll_action_cases)
    case (1 y n1)
    then have head: "pt_actions n1 = Deliver m # pt_actions n" by simp
    from net_inv_hand_over [OF net_inv_expiry [OF inv hand_over(3) I 1(2)] hand_over(3), of m "pt_actions n"] head 1(4)
    show ?thesis unfolding hand_over(2) by simp
  qed simp
next
  case (idle p n)
  from idle(4) show ?thesis
    by (cases rule: poll_action_cases) (simp_all add: idle(2) net_inv_expiry [OF inv idle(3) I])
next
  case (arrive xs d m ys b n)
  show ?thesis unfolding arrive(2) by (rule net_inv_arrive [OF inv I arrive(3,4)])
next
  case (pass p t n)
  have "net_inv V (net_replace N p n (in_flight N) [])"
    by (rule spread_tick.op_net_inv [OF inv pass(3) I pass(4) takes_nothing publishable_Nil])
  then show ?thesis unfolding pass(2) by (simp add: net_replace_def)
qed

lemma net_run_inv: "net_run I V N xs N' \<Longrightarrow> net_inv V N \<Longrightarrow> iter_ops_ok I \<Longrightarrow> net_inv V N'"
  by (induction rule: net_run.induct) (auto dest: net_step_inv)

end
