(* ===== verification/Plumtree_Broadcast.thy ===== *)
theory Plumtree_Broadcast
  imports Plumtree_Network
begin

text \<open>
  What a network of Plumtree nodes guarantees once it is quiet: every published message has
  been delivered at every node, exactly once.
\<close>

section \<open>Links\<close>

lemma net_step_known:
  assumes step: "net_step I V N x N'" and inv: "net_inv V N"
  shows "known_peers (node_at N' q) = known_peers (node_at N q)"
proof -
  have wf: "pt_wf (node_at N p)" if "p \<in> V" for p
    by (rule net_wf_at(2) [OF _ that]) (use inv in \<open>simp add: net_inv_def\<close>)
  have poll: "known_peers n = known_peers (node_at N p)"
    if "p \<in> V" "pt_poll_action (node_at N p) = Some (a, n)" for p a n
    using polling.peers_known [OF wf [OF that(1)], of n] that(2) by simp
  from step show ?thesis
  proof cases
    case (publish p m)
    then show ?thesis by (simp add: broadcast_message_eq known_peers_def)
  next
    case (arrive xs d m ys b n)
    have ev: "net_evidence V N" using inv by (simp add: net_inv_def)
    have "(d, m) \<in> packets V N" by (simp add: packets_def arrive(3))
    then have "d \<in> V" by (rule net_evidence_packet(1) [OF ev])
    then show ?thesis using receiving.peers_known [OF wf, of d I m n] arrive by simp
  next
    case (pass p t n)
    then show ?thesis using ticking.peers_known [OF wf, of p t n] by simp
  qed (simp_all add: poll)
qed

lemma net_run_known:
  "net_run I V N xs N' \<Longrightarrow> net_inv V N \<Longrightarrow> iter_ops_ok I \<Longrightarrow>
     known_peers (node_at N' q) = known_peers (node_at N q)"
  by (induction rule: net_run.induct) (simp_all add: net_step_inv net_step_known)

section \<open>The start\<close>

lemma ups_eq:
  assumes "iter_ops_ok I" "messages n = Map.empty" "pt_id n \<notin> set ps"
  shows "known_peers (fold (handle_neighbor_up I) ps n) = known_peers n \<union> set ps \<and>
    messages (fold (handle_neighbor_up I) ps n) = Map.empty \<and>
    missings (fold (handle_neighbor_up I) ps n) = missings n \<and>
    pt_actions (fold (handle_neighbor_up I) ps n) = pt_actions n \<and>
    pt_id (fold (handle_neighbor_up I) ps n) = pt_id n \<and>
    (pt_wf n \<longrightarrow> pt_wf (fold (handle_neighbor_up I) ps n))"
  using assms
proof (induction ps arbitrary: n)
  case (Cons p ps)
  have "key_iter I {} = []" using Cons.prems(1) by (auto simp: iter_ops_ok_def iter_ok_def)
  then have up: "handle_neighbor_up I p n =
      (if p \<in> known_peers n then n else n\<lparr>eager_push_peers := insert p (eager_push_peers n)\<rparr>)"
    using Cons.prems(2,3) by (auto simp: handle_neighbor_up_eq)
  have "pt_wf n \<Longrightarrow> pt_wf (handle_neighbor_up I p n)" using coming_up.peers_wf [of n I p] by simp
  then show ?case using Cons.IH [of "handle_neighbor_up I p n"] Cons.prems
    by (auto simp: up known_peers_def)
qed simp

lemma start_node:
  fixes n :: "('n, 'm, 'p) pt_node"
  assumes "iter_ops_ok I" "p \<notin> set ps"
    and n: "n = fold (handle_neighbor_up I) ps (pt_with_options p opts)"
  shows "known_peers n = set ps" "messages n = Map.empty" "missings n = missing_new"
    "pt_actions n = []" "pt_id n = p" "pt_wf n"
proof -
  let ?n = "pt_with_options p opts :: ('n, 'm, 'p) pt_node"
  have "missings ?n = missing_new" by (simp add: pt_with_options_def)
  then show "known_peers n = set ps" "messages n = Map.empty" "missings n = missing_new"
    "pt_actions n = []" "pt_id n = p" "pt_wf n"
    using ups_eq [OF assms(1), of ?n ps] assms(2)
    by (simp_all add: pt_with_options_peers n)
qed

lemma net_start_inv:
  fixes N :: "('n, 'm, 'p) pt_network"
  assumes I: "iter_ops_ok I" and links: "net_links V links" and N: "N = net_start I links opts"
  shows "net_inv V N" "p \<in> V \<Longrightarrow> known_peers (node_at N p) = set (links p)"
proof -
  let ?N = "net_start I links opts :: ('n, 'm, 'p) pt_network"
  have self: "p \<notin> set (links p)" if "p \<in> V" for p using links that by (auto simp: net_links_def)
  have node: "node_at ?N p = fold (handle_neighbor_up I) (links p) (pt_with_options p (opts p))" for p
    by (simp add: net_start_def)
  note start = start_node [OF I self node]
  have known: "known_peers (node_at ?N p) = set (links p)" if "p \<in> V" for p
    using start(1) [OF that] .
  have fresh: "messages (node_at ?N p) = Map.empty" "missings (node_at ?N p) = missing_new"
    "pt_actions (node_at ?N p) = []" "pt_id (node_at ?N p) = p" "pt_wf (node_at ?N p)" if "p \<in> V" for p
    using start(2-) [OF that] .
  have "in_flight ?N = []" by (simp add: net_start_def)
  then have none: "packets V ?N = {}" by (auto simp: packets_def fresh)
  have mm: "timer_ihaves missing_new = {}" "ihaves missing_new = Map.empty"
    by (simp_all add: timer_ihaves_def missing_new_def)
  have link: "q \<in> V \<and> p \<in> set (links q)" if "p \<in> V" "q \<in> set (links p)" for p q
    using links that unfolding net_links_def by blast
  have "net_wf V ?N" unfolding net_wf_def
  proof (intro conjI ballI)
    fix p assume p: "p \<in> V"
    show "spread_wf (node_at ?N p)" by (simp add: spread_wf_def fresh [OF p] mm)
    show "known_peers (node_at ?N p) \<subseteq> V" unfolding known [OF p] using link [OF p] by blast
    show "p \<in> known_peers (node_at ?N q)" if "q \<in> known_peers (node_at ?N p)" for q
    proof -
      have "q \<in> set (links p)" using that known [OF p] by simp
      then show ?thesis using link [OF p] known [of q] by blast
    qed
  qed (fact fresh)
  moreover have "net_evidence V ?N" by (simp add: net_evidence_def none fresh mm)
  moreover have "published ?N = []" "delivered ?N p = []" for p by (simp_all add: net_start_def)
  then have "net_stored V ?N" by (simp add: net_stored_def fresh holds_def)
  moreover have "net_spreading V ?N" by (simp add: net_spreading_def fresh)
  ultimately show "net_inv V N" "p \<in> V \<Longrightarrow> known_peers (node_at N p) = set (links p)"
    unfolding N using known by (simp_all add: net_inv_def)
qed

section \<open>A quiet network\<close>

definition net_quiet :: "'n set \<Rightarrow> ('n, 'm, 'p) pt_network \<Rightarrow> bool" where
  "net_quiet V N \<longleftrightarrow> in_flight N = [] \<and>
     (\<forall>p \<in> V. pt_actions (node_at N p) = [] \<and> pt_waiting_messages (node_at N p) = 0)"

definition net_connected :: "'n set \<Rightarrow> ('n \<Rightarrow> 'n list) \<Rightarrow> bool" where
  "net_connected V links \<longleftrightarrow> (\<forall>p \<in> V. \<forall>q \<in> V. (p, q) \<in> {(a, b). a \<in> V \<and> b \<in> set (links a)}\<^sup>*)"

lemma quiet_nothing_on_the_way:
  assumes inv: "net_inv V N" and quiet: "net_quiet V N" and b: "b \<in> V"
  shows "\<not> on_the_way V N a i b"
proof -
  have "packets V N = {}" using quiet by (auto simp: packets_def net_quiet_def)
  moreover have "finite (dom (ihaves (missings (node_at N b))))"
    using inv b net_wf_at(2) [of V N b] by (simp add: net_inv_def pt_wf_def missing_wf_def)
  moreover have "card (dom (ihaves (missings (node_at N b)))) = 0"
    using quiet b by (simp add: net_quiet_def pt_waiting_messages_def missing_waiting_def)
  ultimately have "packets V N = {}" "dom (ihaves (missings (node_at N b))) = {}" by simp_all
  then show ?thesis
    by (simp add: on_the_way_def tells_def requests_def will_ask_def live_timer_def)
qed

lemma quiet_neighbours_agree:
  assumes inv: "net_inv V N" and quiet: "net_quiet V N" and a: "a \<in> V" and b: "b \<in> known_peers (node_at N a)"
    and has: "holds (node_at N a) m"
  shows "holds (node_at N b) m"
proof -
  have wf: "net_wf V N" using inv by (simp add: net_inv_def)
  have bV: "b \<in> V" using b net_wf_at(4) [OF wf a] by blast
  have "msg_id m \<in> dom (messages (node_at N a))" using has by (auto simp: holds_def)
  then obtain x where x: "messages (node_at N b) (msg_id m) = Some x"
    using inv a b quiet_nothing_on_the_way [OF inv quiet bV] unfolding net_inv_def net_spreading_def by blast
  then have "holds (node_at N b) \<lparr>msg_id = msg_id m, msg_payload = x\<rparr>" by (simp add: holds_def)
  then have "\<lparr>msg_id = msg_id m, msg_payload = x\<rparr> \<in> set (published N)" "m \<in> set (published N)"
    "distinct (map msg_id (published N))"
    using inv a bV has unfolding net_inv_def net_stored_def by blast+
  then have "\<lparr>msg_id = msg_id m, msg_payload = x\<rparr> = m"
    unfolding distinct_map by (metis app_message.select_convs(1) inj_onD)
  then have "x = msg_payload m" by (metis app_message.select_convs(2))
  with x show ?thesis by (simp add: holds_def)
qed

lemma quiet_all_agree:
  assumes inv: "net_inv V N" and quiet: "net_quiet V N"
    and known: "\<And>a. a \<in> V \<Longrightarrow> known_peers (node_at N a) = set (links a)"
    and path: "(p, q) \<in> {(a, b). a \<in> V \<and> b \<in> set (links a)}\<^sup>*" and has: "holds (node_at N p) m"
  shows "holds (node_at N q) m"
  using path
proof (induction rule: rtrancl_induct)
  case (step a b)
  then show ?case using quiet_neighbours_agree [OF inv quiet] known by auto
qed (fact has)

lemma quiet_delivers:
  assumes inv: "net_inv V N" and known: "\<And>a. a \<in> V \<Longrightarrow> known_peers (node_at N a) = set (links a)"
    and conn: "net_connected V links" and quiet: "net_quiet V N" and p: "p \<in> V"
  shows "mset (delivered N p) = mset (published N)"
    "\<forall>m \<in> set (published N). messages (node_at N p) (msg_id m) = Some (msg_payload m)"
proof -
  have stored: "net_stored V N" using inv by (simp add: net_inv_def)
  have all: "holds (node_at N p) m" if m: "m \<in> set (published N)" for m
  proof -
    obtain q where q: "q \<in> V" "holds (node_at N q) m" using stored m unfolding net_stored_def by blast
    then have "(q, p) \<in> {(a, b). a \<in> V \<and> b \<in> set (links a)}\<^sup>*"
      using conn p by (simp add: net_connected_def)
    then show ?thesis using quiet_all_agree [OF inv quiet known] q(2) by blast
  qed
  then show "\<forall>m \<in> set (published N). messages (node_at N p) (msg_id m) = Some (msg_payload m)"
    by (simp add: holds_def)
  have "pt_actions (node_at N p) = []" using quiet p by (simp add: net_quiet_def)
  then have "distinct (delivered N p)" "set (delivered N p) = {m. holds (node_at N p) m}"
    using stored p unfolding net_stored_def by fastforce+
  moreover have "distinct (published N)" using stored by (simp add: net_stored_def distinct_map)
  moreover have "{m. holds (node_at N p) m} = set (published N)"
    using all stored p unfolding net_stored_def by blast
  ultimately show "mset (delivered N p) = mset (published N)" by (simp add: set_eq_iff_mset_eq_distinct)
qed

lemma run_from_start:
  assumes I: "iter_ops_ok I" and links: "net_links V links" and run: "net_run I V (net_start I links opts) xs N"
  shows "net_inv V N" "a \<in> V \<Longrightarrow> known_peers (node_at N a) = set (links a)"
proof -
  note start = net_start_inv [OF I links refl]
  show "net_inv V N" using net_run_inv [OF run start(1) I] .
  show "a \<in> V \<Longrightarrow> known_peers (node_at N a) = set (links a)"
    using net_run_known [OF run start(1) I] start(2) by simp
qed

text \<open>
  C2. A broadcast reaches everyone.  In a network of nodes whose links connect them all, whatever
  messages the nodes were given to broadcast, in whatever order packets arrived, nodes were
  polled and clocks advanced, and whichever links the protocol has pruned: once no packet is in
  transit, no action is queued and no node waits for a message, every node stores every
  published message and has delivered exactly the published messages, each of them once.
\<close>

theorem broadcast_reaches_everyone:
  assumes I: "iter_ops_ok I" and links: "net_links V links" and conn: "net_connected V links"
    and run: "net_run I V (net_start I links opts) xs N" and quiet: "net_quiet V N" and p: "p \<in> V"
  shows "mset (delivered N p) = mset (published N) \<and>
    (\<forall>m \<in> set (published N). messages (node_at N p) (msg_id m) = Some (msg_payload m))"
  using quiet_delivers [OF run_from_start [OF I links run] conn quiet p] by blast

section \<open>An example\<close>

text \<open>Three nodes in a row: the message of the first reaches the third over the second.\<close>

definition row_links :: "nat \<Rightarrow> nat list" where
  "row_links p = (if p = 0 then [1] else if p = 1 then [0, 2] else if p = 2 then [1] else [])"

definition row_start :: "(nat, nat, string) pt_network" where
  "row_start = net_start sorted_iter row_links (\<lambda>p. default_pt_options)"

definition row_message :: "(nat, string) app_message" where
  "row_message = \<lparr>msg_id = 7, msg_payload = ''hello''\<rparr>"

definition row_run :: "(nat, nat, string) net_event list" where
  "row_run =
     [Publish 0 row_message, Hand_Over 0, Emit 0, Arrive 1 (Gossip (gossip_new 0 row_message 1)),
      Hand_Over 1, Emit 1, Arrive 2 (Gossip (gossip_new 1 row_message 2)), Hand_Over 2]"

lemma row_network:
  "net_links {0, 1, 2} row_links" "net_connected {0, 1, 2} row_links"
proof -
  let ?R = "{(a, b). a \<in> {0, 1, 2} \<and> b \<in> set (row_links a)}"
  show "net_links {0, 1, 2} row_links" by (auto simp: net_links_def row_links_def)
  have steps: "(0, 1) \<in> ?R" "(1, 0) \<in> ?R" "(1, 2) \<in> ?R" "(2, 1) \<in> ?R" by (auto simp: row_links_def)
  have "(0, 2) \<in> ?R\<^sup>*" "(2, 0) \<in> ?R\<^sup>*"
    by (rule rtrancl_trans [of _ 1]; rule r_into_rtrancl; fact steps)+
  then show "net_connected {0, 1, 2} row_links"
    using steps [THEN r_into_rtrancl] unfolding net_connected_def by blast
qed

lemmas network_evaluate =
  row_start_def row_run_def row_message_def row_links_def net_start_def pt_evaluate
  broadcast_message_def net_quiet_def pt_waiting_messages_def missing_waiting_def from_millis_def

lemma row_run_result:
  "\<exists>N. net_exec sorted_iter row_run row_start = Some N \<and> net_quiet {0, 1, 2} N \<and>
     delivered N 2 = [row_message] \<and> published N = [row_message]"
  by (simp add: network_evaluate)

theorem broadcast_reaches_everyone_witness:
  "\<exists>N. net_run sorted_iter {0, 1, 2} row_start row_run N \<and> net_quiet {0, 1, 2} N \<and>
     mset (delivered N 2) = {#row_message#} \<and> messages (net_nodes N 2) 7 = Some ''hello''"
proof -
  obtain N where N: "net_exec sorted_iter row_run row_start = Some N" "net_quiet {0, 1, 2} N"
    "published N = [row_message]" using row_run_result by blast
  have run: "net_run sorted_iter {0, 1, 2} (net_start sorted_iter row_links (\<lambda>p. default_pt_options)) row_run N"
    unfolding row_start_def [symmetric] by (rule net_exec_run [OF N(1)]) (simp add: row_run_def)
  have "mset (delivered N 2) = mset (published N) \<and>
      (\<forall>m \<in> set (published N). messages (net_nodes N 2) (msg_id m) = Some (msg_payload m))"
    by (rule broadcast_reaches_everyone [OF sorted_iter_ok row_network run N(2)]) simp
  then show ?thesis using run N(2,3) by (auto simp: row_start_def row_message_def)
qed

end
