(* ===== verification/Plumtree_Settle.thy ===== *)
theory Plumtree_Settle
  imports Plumtree_Broadcast
begin

text \<open>
  How much work a broadcast causes, and that it comes to an end: a potential that every packet
  handled and every message handed over lowers, a bound on the work of any run, and the fact
  that a network that is not quiet can always go on.
\<close>

section \<open>Weights\<close>

text \<open>
  A duplicate gossip is answered by a PRUNE, a GRAFT by a gossip, a timer by a GRAFT, and an
  IHAVE starts a timer; queued packets weigh one more than packets in transit.
\<close>

fun packet_weight :: "('n, 'm, 'p) pt_message \<Rightarrow> nat" where
  "packet_weight (Prune p) = 1"
| "packet_weight (Gossip g) = 3"
| "packet_weight (Graft g) = (if graft_message_id g = None then 1 else 5)"
| "packet_weight (Ihave x) = 8"

fun action_weight :: "('n, 'm, 'p) pt_action \<Rightarrow> nat" where
  "action_weight (PtSend d m) = Suc (packet_weight m)"
| "action_weight (Deliver m) = 1"

fun is_message_item :: "('n, 'm) queue_item \<Rightarrow> bool" where
  "is_message_item (MessageItem _ _ _) = True"
| "is_message_item (EntryItem _ _ _) = False"

definition message_timers :: "('n, 'm) missing_messages \<Rightarrow> nat" where
  "message_timers mm = size (filter_mset is_message_item (mset (timeout_queue mm)))"

definition queue_weight :: "('n, 'm, 'p) pt_action list \<Rightarrow> nat" where
  "queue_weight as = sum_list (map action_weight as)"

definition load :: "('n, 'm, 'p) pt_node \<Rightarrow> nat" where
  "load n = queue_weight (pt_actions n) + 7 * message_timers (missings n)"

lemma queue_weight_simps [simp]:
  "queue_weight [] = 0" "queue_weight (a # as) = action_weight a + queue_weight as"
  "queue_weight (as @ bs) = queue_weight as + queue_weight bs"
  by (simp_all add: queue_weight_def)

lemma queue_weight_const:
  "(\<And>a. a \<in> set as \<Longrightarrow> action_weight a \<le> k) \<Longrightarrow> queue_weight as \<le> k * length as"
proof (induction as)
  case (Cons a as)
  then have "action_weight a \<le> k" "queue_weight as \<le> k * length as" by simp_all
  then show ?case by simp
qed simp

text \<open>What one newly stored message may cost at a node.\<close>

definition store_cost :: "'n set \<Rightarrow> nat" where
  "store_cost V = 9 * card V + 5"

section \<open>The cost of an operation\<close>

locale spread_cost = spread_operation +
  assumes cost: "ready I consumed adds n \<Longrightarrow> op n = Some n' \<Longrightarrow>
    load n' + (case consumed of None \<Rightarrow> 0 | Some m \<Rightarrow> 1) \<le>
      load n + (case consumed of None \<Rightarrow> 0 | Some m \<Rightarrow> packet_weight m) +
      store_cost (known_peers n) * card (dom (messages n') - dom (messages n))"

lemma queue_weight_peers:
  assumes "iter_ops_ok I" "finite P" "\<And>p. action_weight (f p) \<le> 9"
  shows "queue_weight (map f (filter Q (peer_iter I P))) \<le> 9 * card P"
proof -
  have "length (peer_iter I P) = card P"
    using iter_ops_peers [OF assms(1,2)] distinct_card by metis
  then have "length (map f (filter Q (peer_iter I P))) \<le> card P"
    by (metis length_filter_le length_map)
  moreover have "queue_weight (map f (filter Q (peer_iter I P))) \<le>
      9 * length (map f (filter Q (peer_iter I P)))"
    by (rule queue_weight_const) (use assms(3) in auto)
  ultimately show ?thesis by linarith
qed

lemma forwarding_weight:
  assumes "iter_ops_ok I" "pt_wf n"
  shows "queue_weight (forwarding I g n) \<le> 9 * card (known_peers n)"
proof -
  have fin: "finite (eager_push_peers n)" "finite (lazy_push_peers n)" using pt_wf_finite [OF assms(2)] by auto
  have "card (known_peers n) = card (eager_push_peers n) + card (lazy_push_peers n)"
    using assms(2) fin by (simp add: pt_wf_def known_peers_def card_Un_disjoint)
  moreover have "queue_weight (gossips I g (pt_id n) (eager_push_peers n)) \<le> 9 * card (eager_push_peers n)"
    unfolding gossips_def by (rule queue_weight_peers [OF assms(1) fin(1)]) simp
  moreover have "queue_weight (announcements I g (pt_id n) (lazy_push_peers n)) \<le> 9 * card (lazy_push_peers n)"
    unfolding announcements_def by (rule queue_weight_peers [OF assms(1) fin(2)]) simp
  ultimately show ?thesis by (simp add: forwarding_def)
qed

lemma optimizations_weight: "queue_weight (optimizations g n) \<le> 4"
  by (auto simp: optimizations_def split: option.split)

lemma message_timers_remove [simp]: "message_timers (missing_remove i mm) = message_timers mm"
  by (simp add: message_timers_def missing_remove_def)

interpretation cost_gossip:
  spread_cost I "\<lambda>n. Some (handle_gossip I g n)" "Some (Gossip g)" "[]" for I g
proof (unfold_locales, goal_cases)
  case (1 n n')
  show ?case
  proof (cases "msg_id (gossip_message g) \<in> dom (messages n)")
    case True
    with 1 show ?thesis by (auto simp: handle_gossip_duplicate load_def)
  next
    case False
    have "dom (messages n') - dom (messages n) = {msg_id (gossip_message g)}"
      using 1(2) False by (auto simp: handle_gossip_sel split: if_splits)
    moreover have "queue_weight (forwarding I g n) \<le> 9 * card (known_peers n)"
      using 1(1) by (intro forwarding_weight) (simp_all add: ready_def spread_wf_def)
    moreover have "missings n' = missing_remove (msg_id (gossip_message g)) (missings n)"
      using 1(2) False by (auto simp: handle_gossip_sel domIff)
    ultimately show ?thesis
      using 1(2) gossip_fresh_actions [OF False, of I] optimizations_weight [of g n]
      by (auto simp: load_def store_cost_def)
  qed
qed

interpretation cost_broadcast:
  spread_cost I "\<lambda>n. Some (broadcast_message I m n)" None "[m]" for I m
proof (unfold_locales, goal_cases)
  case (1 n n')
  have "dom (messages n') - dom (messages n) = {msg_id m}"
    using 1 by (auto simp: broadcast_message_forwards ready_def)
  moreover have "queue_weight (forwarding I (gossip_new (pt_id n) m 0) n) \<le> 9 * card (known_peers n)"
    using 1(1) by (intro forwarding_weight) (simp_all add: ready_def spread_wf_def)
  ultimately show ?case using 1(2) by (auto simp: broadcast_message_forwards load_def store_cost_def)
qed

interpretation cost_graft:
  spread_cost I "\<lambda>n. Some (handle_graft g n)" "Some (Graft g)" "[]" for I g
  by unfold_locales (auto simp: load_def handle_graft_sel split: option.splits)

interpretation cost_prune:
  spread_cost I "\<lambda>n. Some (handle_prune p n)" "Some (Prune p)" "[]" for I p
  by unfold_locales (auto simp: load_def handle_prune_sel)

interpretation cost_tick: spread_cost I "pt_tick d" None "[]" for I d
  by unfold_locales (auto simp: load_def pt_tick_def)

lemma missing_push_message_timers:
  "missing_push ihave clock timeout mm = Some mm' \<Longrightarrow> message_timers mm' = Suc (message_timers mm)"
  by (erule missing_push_cases) (simp add: message_timers_def mset_heap_push)

interpretation cost_ihave: spread_cost I "handle_ihave x" "Some (Ihave x)" "[]" for I x
proof (unfold_locales, goal_cases)
  case (1 n n')
  from 1(2) show ?case
    by (cases rule: handle_ihave_cases) (auto simp: load_def missing_push_message_timers)
qed

text \<open>Every message the expiration loop takes is a timer less.\<close>

lemma pop_expired_message_timers:
  "pop_expired clock mm = Some (r, mm') \<Longrightarrow>
     message_timers mm' + (if r = None then 0 else 1) \<le> message_timers mm"
proof (induction clock mm rule: pop_expired.induct)
  case (1 clock mm)
  show ?case
  proof (cases "\<exists>x. heap_peek (timeout_queue mm) = Some x \<and> expiry_time x \<le> clock_now clock")
    case False
    then have "r = None" "mm' = mm"
      using "1.prems" by (subst (asm) pop_expired.simps; auto split: option.splits)+
    then show ?thesis by simp
  next
    case True
    then obtain x where x: "heap_peek (timeout_queue mm) = Some x" "expiry_time x \<le> clock_now clock"
      by blast
    then obtain item q r1 mm1 where pop: "heap_pop expiry_time (timeout_queue mm) = Some (item, q)"
      and item: "expire_item item (mm\<lparr>timeout_queue := q\<rparr>) = Some (r1, mm1)"
      and rest: "case r1 of None \<Rightarrow> pop_expired clock mm1 = Some (r, mm') | Some _ \<Rightarrow> r = r1 \<and> mm' = mm1"
      using "1.prems" by (subst (asm) pop_expired.simps) (auto split: option.splits)
    have "message_timers mm1 + (if r1 = None then 0 else 1) \<le> message_timers mm"
      using item timeouts.items_pop [OF pop]
      by (auto simp: expire_item_def Let_def message_timers_def mset_heap_push
          split: option.splits if_splits queue_item.splits)
    then show ?thesis
      using rest "1.IH" [OF x(1) _ pop refl item] x(2) by (cases r1) auto
  qed
qed

lemma send_graft_load:
  "load (snd (send_graft x (n\<lparr>missings := mm\<rparr>))) \<le> queue_weight (pt_actions n) + 6 + 7 * message_timers mm"
  by (simp add: send_graft_def load_def make_eager_def queue_defs)

lemma expiration_cost: "handle_expiration n = Some n' \<Longrightarrow> load n' \<le> load n"
proof (induction n rule: handle_expiration.induct)
  case (1 n)
  obtain r mm where pop: "pop_expired (pt_clock n) (missings n) = Some (r, mm)"
    using "1.prems" by (subst (asm) handle_expiration.simps) (auto split: option.splits)
  note less = pop_expired_message_timers [OF pop]
  show ?case
  proof (cases r)
    case None
    then have "n' = n\<lparr>missings := mm\<rparr>"
      using pop "1.prems" by (subst (asm) handle_expiration.simps) simp
    with less show ?thesis by (simp add: load_def)
  next
    case (Some x)
    then have "handle_expiration (snd (send_graft x (n\<lparr>missings := mm\<rparr>))) = Some n'"
      using pop "1.prems" by (subst (asm) handle_expiration.simps) simp
    then have "load n' \<le> load (snd (send_graft x (n\<lparr>missings := mm\<rparr>)))" using "1.IH" [OF pop refl Some] by blast
    then show ?thesis using less Some send_graft_load [of x mm n] by (simp add: load_def)
  qed
qed

interpretation cost_expiry: spread_cost I handle_expiration None "[]" for I
  by unfold_locales (auto dest: expiration_cost)

section \<open>The potential of a network\<close>

abbreviation published_ids :: "('n, 'm, 'p) pt_network \<Rightarrow> 'm set" where
  "published_ids N \<equiv> msg_id ` set (published N)"

definition flight_weight :: "('n \<times> ('n, 'm, 'p) pt_message) list \<Rightarrow> nat" where
  "flight_weight F = sum_list (map (packet_weight \<circ> snd) F)"

definition unstored :: "('n, 'm, 'p) pt_network \<Rightarrow> 'n \<Rightarrow> nat" where
  "unstored N p = card (published_ids N - dom (messages (node_at N p)))"

definition net_potential :: "'n set \<Rightarrow> ('n, 'm, 'p) pt_network \<Rightarrow> nat" where
  "net_potential V N =
     (\<Sum>p \<in> V. load (node_at N p) + store_cost V * unstored N p) + flight_weight (in_flight N)"

lemma sum_change_one:
  fixes f g :: "'n \<Rightarrow> nat"
  assumes "finite V" "p \<in> V" and there: "f p + c \<le> g p + k" and other: "\<And>q. q \<in> V \<Longrightarrow> q \<noteq> p \<Longrightarrow> f q \<le> g q + k"
  shows "sum f V + c \<le> sum g V + k * card V"
proof -
  have "sum f (V - {p}) \<le> (\<Sum>q \<in> V - {p}. g q + k)" by (rule sum_mono) (use other in auto)
  also have "\<dots> = sum g (V - {p}) + k * card (V - {p})" by (simp add: sum.distrib)
  finally have "sum f (V - {p}) + (f p + c) \<le> sum g (V - {p}) + k * card (V - {p}) + (g p + k)"
    using there by linarith
  moreover have "k * card V = k * card (V - {p}) + k"
    using assms(1,2) by (metis card.remove mult_Suc_right add.commute)
  ultimately show ?thesis
    using sum.remove [OF assms(1,2), of f] sum.remove [OF assms(1,2), of g] by simp
qed

context spread_cost
begin

lemma unstored_after:
  assumes inv: "net_inv V N" and p: "p \<in> V"
    and run: "ready I consumed adds (node_at N p)" "op (node_at N p) = Some n'"
    and takes: "takes_packet N p consumed F" and new: "publishable N adds"
  shows "unstored (net_replace N p n' F adds) p +
      card (dom (messages n') - dom (messages (node_at N p))) \<le> unstored N p + length adds"
    "q \<noteq> p \<Longrightarrow> unstored (net_replace N p n' F adds) q \<le> unstored N q + length adds"
proof -
  let ?N = "net_replace N p n' F adds"
  have ids: "published_ids ?N = published_ids N \<union> msg_id ` set adds" by auto
  have add: "card (published_ids ?N - D) \<le> card (published_ids N - D) + length adds" for D
  proof -
    have "card (published_ids ?N - D) \<le> card (published_ids N - D) + card (msg_id ` set adds)"
      unfolding ids by (rule order_trans [OF card_mono card_Un_le]) auto
    moreover have "card (msg_id ` set adds) \<le> length adds"
      using card_length [of "map msg_id adds"] by simp
    ultimately show ?thesis by simp
  qed
  show "q \<noteq> p \<Longrightarrow> unstored ?N q \<le> unstored N q + length adds"
    using add by (simp add: unstored_def)
  have "net_stored V ?N" by (rule op_net_stored [OF inv p run takes new])
  then have stored: "holds n' m \<Longrightarrow> m \<in> set (published ?N)" for m using p by (auto simp: net_stored_def)
  have all: "dom (messages n') \<subseteq> published_ids ?N"
  proof
    fix i assume "i \<in> dom (messages n')"
    then obtain x where "holds n' \<lparr>msg_id = i, msg_payload = x\<rparr>" by (auto simp: holds_def)
    from stored [OF this] show "i \<in> published_ids ?N" by (rule rev_image_eqI) simp
  qed
  have grow: "dom (messages (node_at N p)) \<subseteq> dom (messages n')"
    using keeps_messages [OF run] by (rule map_le_implies_dom_le)
  have "published_ids ?N - dom (messages (node_at N p)) =
      (published_ids ?N - dom (messages n')) \<union> (dom (messages n') - dom (messages (node_at N p)))"
    using all grow by blast
  then have "card (published_ids ?N - dom (messages (node_at N p))) =
      card (published_ids ?N - dom (messages n')) + card (dom (messages n') - dom (messages (node_at N p)))"
    by (simp only:) (rule card_Un_disjoint; use finite_subset [OF all] in auto)
  with add [of "dom (messages (node_at N p))"]
  show "unstored ?N p + card (dom (messages n') - dom (messages (node_at N p))) \<le> unstored N p + length adds"
    by (simp add: unstored_def)
qed

lemma op_potential:
  assumes fin: "finite V" and inv: "net_inv V N" and p: "p \<in> V" and I: "iter_ops_ok I"
    and run: "op (node_at N p) = Some n'"
    and takes: "takes_packet N p consumed F" and new: "publishable N adds"
    and flight: "flight_weight (in_flight N) =
      flight_weight F + (case consumed of None \<Rightarrow> 0 | Some m \<Rightarrow> packet_weight m)"
  shows "net_potential V (net_replace N p n' F adds) + (case consumed of None \<Rightarrow> 0 | Some m \<Rightarrow> 1) \<le>
    net_potential V N + store_cost V * length adds * card V"
proof -
  let ?N = "net_replace N p n' F adds" and ?S = "store_cost V"
  let ?c = "case consumed of None \<Rightarrow> 0 | Some m \<Rightarrow> 1"
    and ?w = "case consumed of None \<Rightarrow> 0 | Some m \<Rightarrow> packet_weight m"
  let ?new = "card (dom (messages n') - dom (messages (node_at N p)))"
  have wf: "net_wf V N" using inv by (simp add: net_inv_def)
  have ready: "ready I consumed adds (node_at N p)" by (rule ready_in_network [OF inv p I takes new])
  note unst = unstored_after [OF inv p ready run takes new]
  have "card (known_peers (node_at N p)) \<le> card V"
    by (rule card_mono [OF fin net_wf_at(4) [OF wf p]])
  then have "store_cost (known_peers (node_at N p)) * ?new \<le> ?S * ?new"
    by (simp add: store_cost_def)
  then have load: "load n' + ?c \<le> load (node_at N p) + ?w + ?S * ?new"
    using cost [OF ready run] by linarith
  have "?S * unstored ?N p + ?S * ?new \<le> ?S * unstored N p + ?S * length adds"
    using unst(1) by (metis add_mult_distrib2 mult_le_mono2)
  with load have there: "(load (node_at ?N p) + ?S * unstored ?N p) + ?c \<le>
      (load (node_at N p) + ?S * unstored N p + ?w) + ?S * length adds" by simp
  have "(\<Sum>q \<in> V. load (node_at ?N q) + ?S * unstored ?N q) + ?c \<le>
      (\<Sum>q \<in> V. load (node_at N q) + ?S * unstored N q + (if q = p then ?w else 0)) +
      ?S * length adds * card V"
  proof (rule sum_change_one [OF fin p])
    fix q assume "q \<in> V" "q \<noteq> p"
    then have "?S * unstored ?N q \<le> ?S * (unstored N q + length adds)" using unst(2) by (intro mult_le_mono2)
    then show "load (node_at ?N q) + ?S * unstored ?N q \<le>
        load (node_at N q) + ?S * unstored N q + (if q = p then ?w else 0) + ?S * length adds"
      using \<open>q \<noteq> p\<close> by (simp add: add_mult_distrib2)
  qed (use there in simp)
  moreover have "(\<Sum>q \<in> V. load (node_at N q) + ?S * unstored N q + (if q = p then ?w else 0)) =
      (\<Sum>q \<in> V. load (node_at N q) + ?S * unstored N q) + ?w"
    using fin p by (simp add: sum.distrib)
  ultimately show ?thesis using flight by (simp add: net_potential_def)
qed

end

section \<open>Work\<close>

text \<open>The steps that do work: a packet sent, a message handed over, a packet handled.\<close>

fun is_work :: "('n, 'm, 'p) net_event \<Rightarrow> bool" where
  "is_work (Emit p) = True"
| "is_work (Hand_Over p) = True"
| "is_work (Arrive d m) = True"
| "is_work _ = False"

fun is_publish :: "('n, 'm, 'p) net_event \<Rightarrow> bool" where
  "is_publish (Publish p m) = True"
| "is_publish _ = False"

definition work :: "('n, 'm, 'p) net_event list \<Rightarrow> nat" where
  "work xs = length (filter is_work xs)"

definition publications :: "('n, 'm, 'p) net_event list \<Rightarrow> nat" where
  "publications xs = length (filter is_publish xs)"

lemma work_simps [simp]:
  "work [] = 0" "work (x # xs) = (if is_work x then 1 else 0) + work xs" "work (xs @ ys) = work xs + work ys"
  "publications [] = 0" "publications (x # xs) = (if is_publish x then 1 else 0) + publications xs"
  "publications (xs @ ys) = publications xs + publications ys"
  by (simp_all add: work_def publications_def)

lemma flight_weight_simps [simp]:
  "flight_weight [] = 0" "flight_weight (F @ G) = flight_weight F + flight_weight G"
  "flight_weight ((d, m) # F) = packet_weight m + flight_weight F"
  by (simp_all add: flight_weight_def)

lemma net_potential_change:
  assumes fin: "finite V" and p: "p \<in> V" and "published N' = published N"
    and "\<And>q. q \<noteq> p \<Longrightarrow> node_at N' q = node_at N q"
    and "messages (node_at N' p) = messages (node_at N p)"
    and "load (node_at N' p) + flight_weight (in_flight N') + c \<le>
      load (node_at N p) + flight_weight (in_flight N)"
  shows "net_potential V N' + c \<le> net_potential V N"
proof -
  have same: "unstored N' q = unstored N q" for q
    using assms(3-5) by (cases "q = p") (simp_all add: unstored_def)
  have "(\<Sum>q \<in> V - {p}. load (node_at N' q) + store_cost V * unstored N' q) =
      (\<Sum>q \<in> V - {p}. load (node_at N q) + store_cost V * unstored N q)"
    by (rule sum.cong) (use assms(4) same in auto)
  then show ?thesis
    using assms(6) sum.remove [OF fin p, of "\<lambda>q. load (node_at N' q) + store_cost V * unstored N' q"]
      sum.remove [OF fin p, of "\<lambda>q. load (node_at N q) + store_cost V * unstored N q"] same [of p]
    by (simp add: net_potential_def)
qed

lemma expiry_potential:
  assumes fin: "finite V" and inv: "net_inv V N" and p: "p \<in> V"
    and run: "handle_expiration (node_at N p) = Some n"
  shows "messages n = messages (node_at N p)" "load n \<le> load (node_at N p)"
proof -
  have wf: "net_wf V N" using inv by (simp add: net_inv_def)
  show "messages n = messages (node_at N p)"
    using handle_expiration_ok [OF net_wf_at(2) [OF wf p]] run by (auto simp: grafting_def)
  show "load n \<le> load (node_at N p)" by (rule expiration_cost [OF run])
qed

lemma arrive_potential:
  assumes fin: "finite V" and inv: "net_inv V N" and I: "iter_ops_ok I"
    and flight: "in_flight N = xs @ (d, m) # ys"
    and run: "pt_handle_protocol_message I m (node_at N d) = Some (b, n)"
  shows "net_potential V (N\<lparr>net_nodes := (net_nodes N)(d := n), in_flight := xs @ ys\<rparr>) + 1 \<le> net_potential V N"
proof -
  have ev: "net_evidence V N" and wf: "net_wf V N" using inv by (simp_all add: net_inv_def)
  have "(d, m) \<in> packets V N" by (simp add: packets_def flight)
  note packet = net_evidence_packet [OF ev this]
  have "pt_sender m \<in> known_peers (node_at N d)" by (rule net_wf_at(5) [OF wf packet(2,3)])
  note steps = receive_cases [OF run this]
  have takes: "takes_packet N d (Some m) (xs @ ys)" by (auto simp: takes_packet_def flight)
  have weight: "flight_weight (in_flight N) = flight_weight (xs @ ys) + packet_weight m" by (simp add: flight)
  have "net_potential V (net_replace N d n (xs @ ys) []) + 1 \<le> net_potential V N"
  proof (cases m)
    case (Gossip g)
    from cost_gossip.op_potential [OF fin inv packet(1) I _ takes [unfolded Gossip] publishable_Nil]
    show ?thesis using steps weight Gossip by simp
  next
    case (Ihave x)
    from cost_ihave.op_potential [OF fin inv packet(1) I _ takes [unfolded Ihave] publishable_Nil]
    show ?thesis using steps weight Ihave by simp
  next
    case (Graft g)
    from cost_graft.op_potential [OF fin inv packet(1) I _ takes [unfolded Graft] publishable_Nil]
    show ?thesis using steps weight Graft by simp
  next
    case (Prune x)
    from cost_prune.op_potential [OF fin inv packet(1) I _ takes [unfolded Prune] publishable_Nil]
    show ?thesis using steps weight Prune by simp
  qed
  then show ?thesis by (simp add: net_replace_def)
qed

lemma net_step_potential:
  assumes step: "net_step I V N x N'" and fin: "finite V" and inv: "net_inv V N" and I: "iter_ops_ok I"
  shows "net_potential V N' + (if is_work x then 1 else 0) \<le>
    net_potential V N + (if is_publish x then store_cost V * card V else 0)"
  using step
proof cases
  case (publish p m)
  have new: "publishable N [m]" using publish(4) by (auto simp: publishable_def)
  from cost_broadcast.op_potential [OF fin inv publish(3) I refl takes_nothing new]
  show ?thesis unfolding publish(1,2) by (simp add: net_replace_def)
next
  case (emit p d m n)
  from emit(4) show ?thesis
  proof (cases rule: poll_action_cases)
    case (1 y n1)
    note exp = expiry_potential [OF fin inv emit(3) 1(2)]
    have n: "messages n = messages n1" "missings n = missings n1" by (subst 1(4); simp)+
    from 1 have head: "pt_actions n1 = PtSend d m # pt_actions n" by simp
    have "net_potential V N' + 1 \<le> net_potential V N" unfolding emit(2)
      by (rule net_potential_change [OF fin emit(3)]) (use exp head n in \<open>simp_all add: load_def\<close>)
    then show ?thesis by (simp add: emit(1))
  qed simp
next
  case (hand_over p m n)
  from hand_over(4) show ?thesis
  proof (cases rule: poll_action_cases)
    case (1 y n1)
    note exp = expiry_potential [OF fin inv hand_over(3) 1(2)]
    have n: "messages n = messages n1" "missings n = missings n1" by (subst 1(4); simp)+
    from 1 have head: "pt_actions n1 = Deliver m # pt_actions n" by simp
    have "net_potential V N' + 1 \<le> net_potential V N" unfolding hand_over(2)
      by (rule net_potential_change [OF fin hand_over(3)]) (use exp head n in \<open>simp_all add: load_def\<close>)
    then show ?thesis by (simp add: hand_over(1))
  qed simp
next
  case (idle p n)
  from idle(4) have exp: "handle_expiration (node_at N p) = Some n"
    by (cases rule: poll_action_cases) simp_all
  have "net_potential V N' + 0 \<le> net_potential V N" unfolding idle(2)
    by (rule net_potential_change [OF fin idle(3)]) (use expiry_potential [OF fin inv idle(3) exp] in simp_all)
  then show ?thesis by (simp add: idle(1))
next
  case (arrive xs d m ys b n)
  show ?thesis using arrive_potential [OF fin inv I arrive(3,4)] by (simp add: arrive(1,2))
next
  case (pass p t n)
  have "net_potential V N' + 0 \<le> net_potential V N" unfolding pass(2)
    by (rule net_potential_change [OF fin pass(3)]) (use pass(4) in \<open>auto simp: pt_tick_def load_def\<close>)
  then show ?thesis by (simp add: pass(1))
qed

lemma net_run_potential:
  "net_run I V N xs N' \<Longrightarrow> finite V \<Longrightarrow> net_inv V N \<Longrightarrow> iter_ops_ok I \<Longrightarrow>
     work xs + net_potential V N' \<le> net_potential V N + store_cost V * card V * publications xs"
proof (induction rule: net_run.induct)
  case (net_more N x N1 xs N2)
  have "net_inv V N1" by (rule net_step_inv [OF net_more(1) net_more.prems(2,3)])
  then show ?case
    using net_more.IH net_step_potential [OF net_more(1) net_more.prems] net_more.prems
    by (auto split: if_splits)
qed simp

end
