(* ===== verification/Plumtree_Liveness.thy ===== *)
theory Plumtree_Liveness
  imports Plumtree_Settle
begin

text \<open>
  A network that is not quiet can go on, whatever happened before, as long as its clocks and
  counters are far enough from the end of their ranges; with the bound on work it settles.
\<close>

section \<open>Bounded work\<close>

lemma net_start_potential:
  fixes N :: "('n, 'm, 'p) pt_network"
  assumes I: "iter_ops_ok I" and links: "net_links V links" and N: "N = net_start I links opts"
  shows "net_potential V N = 0"
proof -
  have self: "p \<notin> set (links p)" if "p \<in> V" for p using links that by (auto simp: net_links_def)
  have node: "node_at N p = fold (handle_neighbor_up I) (links p) (pt_with_options p (opts p))" for p
    by (simp add: N net_start_def)
  have "load (node_at N p) = 0" if "p \<in> V" for p
    using start_node(3,4) [OF I self [OF that] node]
    by (simp add: load_def message_timers_def missing_new_def)
  moreover have "published N = []" "in_flight N = []" by (simp_all add: N net_start_def)
  ultimately show ?thesis by (simp add: net_potential_def unstored_def)
qed

text \<open>
  C4. The work that broadcasts cause is bounded.  In a network of \<open>n\<close> nodes, however packets are
  delayed and reordered, nodes polled and clocks advanced, the packets sent, the packets
  handled and the messages handed over number at most \<open>(9 n + 5) n\<close> for each published message:
  gossip, prunes, announcements, requests and repairs together never go on forever.
\<close>

theorem broadcast_work_bounded:
  fixes N :: "('n, 'm, 'p) pt_network"
  assumes I: "iter_ops_ok I" and links: "net_links V links" and fin: "finite V"
    and run: "net_run I V (net_start I links opts) xs N"
  shows "work xs \<le> (9 * card V + 5) * card V * publications xs"
proof -
  let ?start = "net_start I links opts :: ('n, 'm, 'p) pt_network"
  have "net_potential V ?start = 0" by (rule net_start_potential [OF I links refl])
  with net_run_potential [OF run fin net_start_inv(1) [OF I links refl] I]
  show ?thesis by (simp add: store_cost_def)
qed

theorem broadcast_work_bounded_witness:
  "\<exists>N. net_run sorted_iter {0, 1, 2} row_start row_run N \<and> work row_run = 7 \<and>
     work row_run \<le> (9 * 3 + 5) * 3 * publications row_run"
proof -
  obtain N where N: "net_exec sorted_iter row_run row_start = Some N" using row_run_result by blast
  have run: "net_run sorted_iter {0, 1, 2} (net_start sorted_iter row_links (\<lambda>p. default_pt_options)) row_run N"
    unfolding row_start_def [symmetric] by (rule net_exec_run [OF N]) (simp add: row_run_def)
  have "work row_run \<le> (9 * card {0, 1, 2 :: nat} + 5) * card {0, 1, 2 :: nat} * publications row_run"
    by (rule broadcast_work_bounded [OF sorted_iter_ok row_network(1) _ run]) simp
  then show ?thesis using run by (auto simp: row_start_def) (simp add: row_run_def)
qed

section \<open>Room for the clocks and counters\<close>

definition missing_within :: "duration \<Rightarrow> nat \<Rightarrow> ('n, 'm) missing_messages \<Rightarrow> bool" where
  "missing_within H s mm \<longleftrightarrow>
     (\<forall>x \<in> set (timeout_queue mm). expiry_time x \<le> H) \<and> entry_seqno mm \<le> s \<and>
     (\<forall>i e. ihaves mm i = Some e \<longrightarrow> next_expiry e \<le> H \<and> owners e \<le> s)"

definition within :: "duration \<Rightarrow> duration \<Rightarrow> nat \<Rightarrow> ('n, 'm, 'p) pt_node \<Rightarrow> bool" where
  "within T H s n \<longleftrightarrow> ihave_timeout (pt_opts n) \<le> T \<and> pt_clock n \<le> H \<and> missing_within H s (missings n)"

lemma missing_within_mono: "missing_within H s mm \<Longrightarrow> H \<le> H' \<Longrightarrow> s \<le> s' \<Longrightarrow> missing_within H' s' mm"
  unfolding missing_within_def by (meson order_trans)

lemma within_mono: "within T H s n \<Longrightarrow> H \<le> H' \<Longrightarrow> s \<le> s' \<Longrightarrow> within T H' s' n"
  unfolding within_def using missing_within_mono [of H s "missings n" H' s'] by (meson order_trans)

lemma expire_item_within:
  "expire_item item mm = Some (r, mm') \<Longrightarrow> missing_within H s mm \<Longrightarrow> missing_within H s mm'"
  by (auto simp: expire_item_def Let_def missing_within_def
      split: option.splits if_splits queue_item.splits) force+

lemma pop_expired_within:
  "pop_expired clock mm = Some (r, mm') \<Longrightarrow> missing_within H s mm \<Longrightarrow> missing_within H s mm'"
proof (induction clock mm rule: pop_expired.induct)
  case (1 clock mm)
  show ?case
  proof (cases "\<exists>x. heap_peek (timeout_queue mm) = Some x \<and> expiry_time x \<le> clock_now clock")
    case False
    then have "mm' = mm"
      using "1.prems" by (subst (asm) pop_expired.simps; auto split: option.splits)+
    with "1.prems" show ?thesis by simp
  next
    case True
    then obtain x where x: "heap_peek (timeout_queue mm) = Some x" "expiry_time x \<le> clock_now clock"
      by blast
    then obtain item q r1 mm1 where pop: "heap_pop expiry_time (timeout_queue mm) = Some (item, q)"
      and item: "expire_item item (mm\<lparr>timeout_queue := q\<rparr>) = Some (r1, mm1)"
      and rest: "case r1 of None \<Rightarrow> pop_expired clock mm1 = Some (r, mm') | Some _ \<Rightarrow> r = r1 \<and> mm' = mm1"
      using "1.prems" by (subst (asm) pop_expired.simps) (auto split: option.splits)
    have "missing_within H s (mm\<lparr>timeout_queue := q\<rparr>)"
      using "1.prems"(2) set_heap_pop [OF pop] by (auto simp: missing_within_def)
    then have "missing_within H s mm1" by (rule expire_item_within [OF item])
    then show ?thesis
      using rest "1.IH" [OF x(1) _ pop refl item] x(2) by (cases r1) auto
  qed
qed

lemma handle_expiration_within:
  "handle_expiration n = Some n' \<Longrightarrow> within T H s n \<Longrightarrow> within T H s n'"
proof (induction n rule: handle_expiration.induct)
  case (1 n)
  obtain r mm where pop: "pop_expired (pt_clock n) (missings n) = Some (r, mm)"
    using "1.prems"(1) by (subst (asm) handle_expiration.simps) (auto split: option.splits)
  have within: "within T H s (n\<lparr>missings := mm\<rparr>)"
    using "1.prems"(2) pop_expired_within [OF pop] by (simp add: within_def)
  show ?case
  proof (cases r)
    case None
    then show ?thesis
      using pop "1.prems"(1) within by (subst (asm) handle_expiration.simps) simp
  next
    case (Some x)
    let ?n = "snd (send_graft x (n\<lparr>missings := mm\<rparr>))"
    have "handle_expiration ?n = Some n'"
      using pop Some "1.prems"(1) by (subst (asm) handle_expiration.simps) simp
    moreover have "within T H s ?n"
      using within by (simp add: within_def send_graft_def make_eager_def queue_defs)
    ultimately show ?thesis using "1.IH" [OF pop refl Some] by blast
  qed
qed

text \<open>An IHAVE is handled without overflow and moves the horizon by two timeouts at most.\<close>

lemma handle_ihave_within:
  assumes n: "within T H s n" and room: "H + 2 * T \<le> DURATION_MAX" "Suc s < 2 ^ 64"
  obtains n' where "handle_ihave x n = Some n'" "within T (H + 2 * T) (Suc s) n'"
proof (cases "ihave_message_id x \<in> dom (messages n)")
  case True
  then show ?thesis using that within_mono [OF n, of "H + 2 * T" "Suc s"] by (simp add: handle_ihave_def)
next
  case False
  define y where "y = (if eager_push_peers n = {} then x\<lparr>ihave_realtime := True\<rparr> else x)"
  let ?c = "pt_clock n" and ?d = "ihave_timeout (pt_opts n)" and ?mm = "missings n"
  have d: "?d \<le> T" "?c \<le> H" and mm: "missing_within H s ?mm" using n by (simp_all add: within_def)
  obtain e where e: "or_insert_entry y ?c ?d ?mm = Some e" "next_expiry e \<le> H + T" "owners e \<le> s"
  proof (cases "ihaves ?mm (ihave_message_id y)")
    case None
    have "?c + ?d \<le> DURATION_MAX" using d room(1) by simp
    with None d show ?thesis
      by (cases "ihave_realtime y"; intro that) (auto simp: or_insert_entry_def node_time_add_def duration_add_def clock_now_def)
  next
    case (Some e)
    then have "next_expiry e \<le> H" "owners e \<le> s" using mm by (auto simp: missing_within_def)
    with Some show ?thesis by (intro that [of e]) (simp_all add: or_insert_entry_def)
  qed
  let ?mm' = "\<lparr>timeout_queue = heap_push expiry_time
                (MessageItem (next_expiry e) (entry_id_seqno e) y) (timeout_queue ?mm),
            ihaves = (ihaves ?mm)(ihave_message_id y \<mapsto>
                e\<lparr>next_expiry := next_expiry e + ?d, owners := Suc (owners e)\<rparr>),
            entry_seqno = (if owners e = 0 then Suc (entry_seqno ?mm) else entry_seqno ?mm)\<rparr>"
  have "next_expiry e + ?d \<le> DURATION_MAX" "Suc (owners e) < 2 ^ 64" "Suc (entry_seqno ?mm) < 2 ^ 64"
    using e d room mm by (auto simp: missing_within_def)
  then have push: "missing_push y ?c ?d ?mm = Some ?mm'"
    using e(1) by (simp add: missing_push_def node_time_add_def duration_add_def u64_add_def)
  have "missing_within (H + 2 * T) (Suc s) ?mm'"
    using e d mm missing_within_mono [OF mm, of "H + 2 * T" "Suc s"]
    by (auto simp: missing_within_def split: if_splits)
  then have "within T (H + 2 * T) (Suc s) (n\<lparr>missings := ?mm'\<rparr>)"
    using d by (simp add: within_def)
  moreover have "handle_ihave x n = Some (n\<lparr>missings := ?mm'\<rparr>)"
    using False push by (simp add: handle_ihave_def y_def)
  ultimately show ?thesis using that by blast
qed

lemma receive_within:
  assumes n: "within T H s n" and room: "H + 2 * T \<le> DURATION_MAX" "Suc s < 2 ^ 64"
  obtains b n' where "pt_handle_protocol_message I m n = Some (b, n')" "within T (H + 2 * T) (Suc s) n'"
proof -
  have more: "within T (H + 2 * T) (Suc s) n" by (rule within_mono [OF n]) simp_all
  show ?thesis
  proof (cases "is_known_node (pt_sender m) n")
    case False
    then show ?thesis using that more by (simp add: pt_handle_protocol_message_def)
  next
    case known: True
    show ?thesis
    proof (cases m)
      case (Gossip g)
      have "within T (H + 2 * T) (Suc s) (handle_gossip I g n)"
      proof (cases "msg_id (gossip_message g) \<in> dom (messages n)")
        case True
        then show ?thesis using more by (simp add: handle_gossip_duplicate within_def)
      next
        case False
        then show ?thesis using more
          by (auto simp: handle_gossip_fresh within_def missing_within_def missing_remove_def split: if_splits)
      qed
      then show ?thesis using that known Gossip by (simp add: pt_handle_protocol_message_def)
    next
      case (Ihave x)
      obtain n' where "handle_ihave x n = Some n'" "within T (H + 2 * T) (Suc s) n'"
        using handle_ihave_within [OF n room] .
      then show ?thesis using that known Ihave by (simp add: pt_handle_protocol_message_def)
    next
      case (Graft g)
      have "within T (H + 2 * T) (Suc s) (handle_graft g n)"
        using more by (auto simp: handle_graft_def Let_def make_eager_def queue_defs within_def split: option.split)
      then show ?thesis using that known Graft by (simp add: pt_handle_protocol_message_def)
    next
      case (Prune p)
      have "within T (H + 2 * T) (Suc s) (handle_prune p n)"
        using more by (simp add: handle_prune_def make_lazy_def within_def)
      then show ?thesis using that known Prune by (simp add: pt_handle_protocol_message_def)
    qed
  qed
qed

section \<open>Progress\<close>

definition net_within :: "'n set \<Rightarrow> duration \<Rightarrow> duration \<Rightarrow> nat \<Rightarrow> ('n, 'm, 'p) pt_network \<Rightarrow> bool" where
  "net_within V T H s N \<longleftrightarrow> (\<forall>p \<in> V. within T H s (node_at N p))"

text \<open>A step that does work, perhaps after the clock of a node was moved to its next timer.\<close>

definition advances :: "('n, 'm) iter_ops \<Rightarrow> 'n set \<Rightarrow> duration \<Rightarrow> duration \<Rightarrow> nat \<Rightarrow>
    ('n, 'm, 'p) pt_network \<Rightarrow> bool" where
  "advances I V T H s N \<longleftrightarrow>
     (\<exists>xs N'. net_run I V N xs N' \<and> work xs = 1 \<and> publications xs = 0 \<and>
        net_within V T (H + 2 * T) (Suc s) N')"

lemma net_within_update:
  assumes "net_within V T H s N" "within T H' s' n" "H \<le> H'" "s \<le> s'"
    "\<And>q. node_at N' q = (if q = p then n else node_at N q)"
  shows "net_within V T H' s' N'"
  unfolding net_within_def
proof
  fix q assume "q \<in> V"
  then have "within T H s (node_at N q)" using assms(1) by (simp add: net_within_def)
  then show "within T H' s' (node_at N' q)"
    unfolding assms(5) using assms(2) by (auto intro: within_mono [OF _ assms(3,4)])
qed

lemma packet_advances:
  assumes inv: "net_inv V N" and room: "net_within V T H s N" "H + 2 * T \<le> DURATION_MAX" "Suc s < 2 ^ 64"
    and flight: "in_flight N \<noteq> []"
  shows "advances I V T H s N"
proof -
  from flight obtain d m F where F: "in_flight N = (d, m) # F" by (cases "in_flight N") auto
  have ev: "net_evidence V N" using inv by (simp add: net_inv_def)
  have "(d, m) \<in> packets V N" by (simp add: packets_def F)
  then have d: "d \<in> V" by (rule net_evidence_packet(1) [OF ev])
  then have "within T H s (node_at N d)" using room(1) by (simp add: net_within_def)
  then obtain b n where n: "pt_handle_protocol_message I m (node_at N d) = Some (b, n)"
    "within T (H + 2 * T) (Suc s) n"
    by (rule receive_within [OF _ room(2,3)])
  let ?N = "N\<lparr>net_nodes := (net_nodes N)(d := n), in_flight := [] @ F\<rparr>"
  have "net_step I V N (Arrive d m) ?N" by (rule net_step.arrive [OF _ n(1)]) (simp add: F)
  then have "net_run I V N [Arrive d m] ?N" by (rule net_more [OF _ net_done])
  moreover have "net_within V T (H + 2 * T) (Suc s) ?N"
    by (rule net_within_update [OF room(1) n(2), of _ d]) simp_all
  ultimately show ?thesis unfolding advances_def by (intro exI [of _ "[Arrive d m]"] exI [of _ ?N]) simp
qed

text \<open>A poll does work as soon as the expired timers leave an action in the queue.\<close>

lemma poll_advances:
  assumes p: "p \<in> V" and room: "net_within V T H s N"
    and run: "handle_expiration (node_at N p) = Some n1" and busy: "pt_actions n1 \<noteq> []"
  obtains x N' where "net_step I V N x N'" "is_work x" "\<not> is_publish x" "net_within V T H s N'"
proof -
  from busy obtain a as where as: "pt_actions n1 = a # as" by (cases "pt_actions n1") auto
  let ?n = "n1\<lparr>pt_actions := as\<rparr>"
  have poll: "pt_poll_action (node_at N p) = Some (Some a, ?n)"
    using run as by (simp add: pt_poll_action_expiration)
  have "within T H s (node_at N p)" using room p by (simp add: net_within_def)
  then have n: "within T H s ?n" using handle_expiration_within [OF run] by (simp add: within_def)
  show thesis
  proof (cases a)
    case (PtSend d m)
    show thesis
      by (rule that [OF net_step.emit [OF p poll [unfolded PtSend]]])
        (simp_all add: net_within_update [OF room n, of _ p])
  next
    case (Deliver m)
    show thesis
      by (rule that [OF net_step.hand_over [OF p poll [unfolded Deliver]]])
        (simp_all add: net_within_update [OF room n, of _ p])
  qed
qed

lemma net_run_append:
  "net_run I V N xs N1 \<Longrightarrow> net_run I V N1 ys N2 \<Longrightarrow> net_run I V N (xs @ ys) N2"
  by (induction rule: net_run.induct) (auto intro: net_more)

lemma advances_step:
  assumes "net_run I V N xs N1" "work xs = 0" "publications xs = 0"
    and "net_step I V N1 x N'" "is_work x" "\<not> is_publish x" "net_within V T H s N'"
  shows "advances I V T H s N"
proof -
  have "net_run I V N (xs @ [x]) N'"
    by (rule net_run_append [OF assms(1) net_more [OF assms(4) net_done]])
  moreover have "net_within V T (H + 2 * T) (Suc s) N'"
    using assms(7) by (auto simp: net_within_def intro: within_mono)
  ultimately show ?thesis
    unfolding advances_def using assms(2,3,5,6) by (intro exI [of _ "xs @ [x]"] exI [of _ N']) simp
qed

text \<open>A running timer fires once the clock has reached it, and then something is sent.\<close>

lemma live_timer_fires:
  assumes n: "spread_wf n" and live: "live_timer t k x (missings n)" and due: "t \<le> pt_clock n"
  obtains n' where "handle_expiration n = Some n'" "pt_actions n' \<noteq> []"
proof -
  have "pt_wf n" using n by (simp add: spread_wf_def)
  then obtain n' where run: "handle_expiration n = Some n'" "grafting n n'" "no_timer_due (pt_clock n') n'"
    using handle_expiration_ok by blast
  then have "pt_clock n' = pt_clock n" by (simp add: grafting_def)
  with run(3) due have "\<not> live_timer t k x (missings n')"
    by (force simp: live_timer_def no_timer_due_def)
  then have "asks_for (pt_id n) x \<in> sends (pt_actions n')"
    using handle_expiration_expires [OF n run(1)] live unfolding expires_def by blast
  then have "pt_actions n' \<noteq> []" by auto
  with run(1) that show thesis by blast
qed

lemma timer_advances:
  assumes inv: "net_inv V N" and I: "iter_ops_ok I" and room: "net_within V T H s N" "H \<le> DURATION_MAX"
    and p: "p \<in> V" and live: "live_timer t k x (missings (node_at N p))"
  shows "advances I V T H s N"
proof -
  have wf: "net_wf V N" using inv by (simp add: net_inv_def)
  have here: "within T H s (node_at N p)" using room(1) p by (simp add: net_within_def)
  then have t: "t \<le> H" using live by (force simp: within_def missing_within_def live_timer_def)
  show ?thesis
  proof (cases "t \<le> pt_clock (node_at N p)")
    case True
    obtain n where n: "handle_expiration (node_at N p) = Some n" "pt_actions n \<noteq> []"
      by (rule live_timer_fires [OF net_wf_at(1) [OF wf p] live True])
    obtain y N' where "net_step I V N y N'" "is_work y" "\<not> is_publish y" "net_within V T H s N'"
      by (rule poll_advances [OF p room(1) n])
    then show ?thesis by (intro advances_step [OF net_done]) simp_all
  next
    case False
    let ?d = "t - pt_clock (node_at N p)" and ?n = "(node_at N p)\<lparr>pt_clock := t\<rparr>"
    let ?N = "N\<lparr>net_nodes := (net_nodes N)(p := ?n)\<rparr>"
    have "pt_tick ?d (node_at N p) = Some ?n"
      using False t room(2) by (simp add: pt_tick_def clock_tick_def duration_add_def)
    then have step: "net_step I V N (Pass p ?d) ?N" by (rule net_step.pass [OF p])
    have "net_inv V ?N" by (rule net_step_inv [OF step inv I])
    then have wf': "net_wf V ?N" by (simp add: net_inv_def)
    have "within T H s ?n" using here t by (simp add: within_def)
    then have room': "net_within V T H s ?N" by (rule net_within_update [OF room(1), of _ _ _ _ p]) simp_all
    have live': "live_timer t k x (missings (node_at ?N p))" using live by simp
    obtain n where n: "handle_expiration (node_at ?N p) = Some n" "pt_actions n \<noteq> []"
      by (rule live_timer_fires [OF net_wf_at(1) [OF wf' p] live']) simp_all
    obtain y N' where "net_step I V ?N y N'" "is_work y" "\<not> is_publish y" "net_within V T H s N'"
      by (rule poll_advances [OF p room' n])
    then show ?thesis by (intro advances_step [OF net_more [OF step net_done]]) simp_all
  qed
qed

lemma path_leaves_set:
  "(p, q) \<in> R\<^sup>* \<Longrightarrow> P p \<Longrightarrow> \<not> P q \<Longrightarrow> \<exists>a b. (a, b) \<in> R \<and> P a \<and> \<not> P b"
  by (induction rule: rtrancl_induct) blast+

text \<open>When nothing is in transit or queued and the network is not quiet, a timer is running.\<close>

lemma waiting_has_live_timer:
  assumes inv: "net_inv V N" and conn: "net_connected V links"
    and known: "\<And>a. a \<in> V \<Longrightarrow> known_peers (node_at N a) = set (links a)"
    and still: "in_flight N = []" "\<And>p. p \<in> V \<Longrightarrow> pt_actions (node_at N p) = []"
    and busy: "\<not> net_quiet V N"
  obtains p t k x where "p \<in> V" "live_timer t k x (missings (node_at N p))"
proof -
  have none: "packets V N = {}" using still by (auto simp: packets_def)
  from busy still obtain b where b: "b \<in> V" "pt_waiting_messages (node_at N b) \<noteq> 0"
    by (auto simp: net_quiet_def)
  from b(2) have "dom (ihaves (missings (node_at N b))) \<noteq> {}"
    by (auto simp: pt_waiting_messages_def missing_waiting_def)
  then obtain i e where i: "ihaves (missings (node_at N b)) i = Some e" by blast
  have wf: "net_wf V N" and ev: "net_evidence V N" and st: "net_stored V N" and sp: "net_spreading V N"
    using inv by (simp_all add: net_inv_def)
  from i have lacks: "i \<notin> dom (messages (node_at N b))"
    using net_wf_at(1) [OF wf b(1)] by (auto simp: spread_wf_def)
  from i ev b(1) obtain m where m: "m \<in> set (published N)" "msg_id m = i"
    unfolding net_evidence_def by blast
  then obtain p where p: "p \<in> V" "holds (node_at N p) m" using st unfolding net_stored_def by blast
  then have "i \<in> dom (messages (node_at N p))" using m(2) by (auto simp: holds_def)
  moreover have "(p, b) \<in> {(a, b). a \<in> V \<and> b \<in> set (links a)}\<^sup>*"
    using conn p(1) b(1) by (simp add: net_connected_def)
  ultimately obtain c d where cd: "c \<in> V" "d \<in> set (links c)" "i \<in> dom (messages (node_at N c))"
    "i \<notin> dom (messages (node_at N d))"
    using path_leaves_set [of p b _ "\<lambda>a. i \<in> dom (messages (node_at N a))"] lacks by blast
  then have link: "d \<in> known_peers (node_at N c)" using known by simp
  then have "d \<in> V" using net_wf_at(4) [OF wf cd(1)] by blast
  moreover have "on_the_way V N c i d" using sp cd(1,3,4) link unfolding net_spreading_def by blast
  then have "will_ask c i (missings (node_at N d))"
    using none by (simp add: on_the_way_def tells_def requests_def)
  ultimately show thesis using that by (auto simp: will_ask_def)
qed

lemma busy_network_advances:
  assumes inv: "net_inv V N" and I: "iter_ops_ok I" and conn: "net_connected V links"
    and known: "\<And>a. a \<in> V \<Longrightarrow> known_peers (node_at N a) = set (links a)"
    and room: "net_within V T H s N" "H + 2 * T \<le> DURATION_MAX" "Suc s < 2 ^ 64"
    and busy: "\<not> net_quiet V N"
  shows "advances I V T H s N"
proof (cases "in_flight N = []")
  case False
  then show ?thesis by (rule packet_advances [OF inv room])
next
  case still: True
  have wf: "net_wf V N" using inv by (simp add: net_inv_def)
  show ?thesis
  proof (cases "\<exists>p \<in> V. pt_actions (node_at N p) \<noteq> []")
    case True
    then obtain p where p: "p \<in> V" "pt_actions (node_at N p) \<noteq> []" by blast
    obtain n where n: "handle_expiration (node_at N p) = Some n" "grafting (node_at N p) n"
      using handle_expiration_ok [OF net_wf_at(2) [OF wf p(1)]] by blast
    then have "pt_actions n \<noteq> []" using p(2) by (auto simp: grafting_def graft_actions_def)
    then obtain y N' where "net_step I V N y N'" "is_work y" "\<not> is_publish y" "net_within V T H s N'"
      by (rule poll_advances [OF p(1) room(1) n(1)])
    then show ?thesis by (intro advances_step [OF net_done]) simp_all
  next
    case False
    then obtain p t k x where "p \<in> V" "live_timer t k x (missings (node_at N p))"
      using waiting_has_live_timer [OF inv conn known still _ busy] by blast
    then show ?thesis using timer_advances [OF inv I room(1)] room(2) by simp
  qed
qed

section \<open>Every broadcast completes\<close>

lemma net_run_settles:
  assumes I: "iter_ops_ok I" and conn: "net_connected V links" and fin: "finite V"
  shows "net_inv V N \<Longrightarrow> (\<And>a. a \<in> V \<Longrightarrow> known_peers (node_at N a) = set (links a)) \<Longrightarrow>
    net_potential V N < k \<Longrightarrow> net_within V T H s N \<Longrightarrow> H + 2 * T * k \<le> DURATION_MAX \<Longrightarrow>
    s + k < 2 ^ 64 \<Longrightarrow>
    \<exists>ys N'. net_run I V N ys N' \<and> publications ys = 0 \<and> net_quiet V N'"
proof (induction k arbitrary: N H s)
  case (Suc k N H s)
  show ?case
  proof (cases "net_quiet V N")
    case True
    then show ?thesis by (intro exI [of _ "[]"] exI [of _ N]) (simp add: net_done)
  next
    case False
    have "H + 2 * T \<le> DURATION_MAX" "Suc s < 2 ^ 64" using Suc.prems(5,6) by simp_all
    with busy_network_advances [OF Suc.prems(1) I conn Suc.prems(2,4) _ _ False]
    obtain xs N1 where xs: "net_run I V N xs N1" "work xs = 1" "publications xs = 0"
      and N1: "net_within V T (H + 2 * T) (Suc s) N1" unfolding advances_def by blast
    have "net_inv V N1" by (rule net_run_inv [OF xs(1) Suc.prems(1) I])
    moreover have "known_peers (node_at N1 a) = set (links a)" if "a \<in> V" for a
      using net_run_known [OF xs(1) Suc.prems(1) I] Suc.prems(2) [OF that] by simp
    moreover have "net_potential V N1 < k"
      using net_run_potential [OF xs(1) fin Suc.prems(1) I] xs(2,3) Suc.prems(3) by simp
    moreover have "H + 2 * T + 2 * T * k \<le> DURATION_MAX" "Suc s + k < 2 ^ 64"
      using Suc.prems(5,6) by simp_all
    ultimately obtain ys N' where "net_run I V N1 ys N'" "publications ys = 0" "net_quiet V N'"
      using Suc.IH [of N1] N1 by blast
    then show ?thesis using net_run_append [OF xs(1)] xs(3)
      by (intro exI [of _ "xs @ ys"] exI [of _ N']) simp
  qed
qed simp

lemma net_run_published:
  "net_run I V N xs N' \<Longrightarrow> publications xs = 0 \<Longrightarrow> published N' = published N"
  by (induction rule: net_run.induct) (auto elim!: net_stepE split: if_splits)

text \<open>
  C3. Every broadcast completes.  Take a connected network in any state it can reach, by whatever
  run.  As long as its clocks and timers are below \<open>H\<close>, its counters below \<open>s\<close>, and both are far
  enough from the end of their ranges for the work that is left, the nodes can be driven, by
  handing over packets, polling, and advancing clocks, to a state in which nothing is left to
  do and every node has delivered exactly the published messages, each of them once.  Nothing
  that happened before can have lost a message or stopped the protocol.
\<close>

theorem broadcast_completes:
  fixes N :: "('n, 'm, 'p) pt_network"
  assumes I: "iter_ops_ok I" and links: "net_links V links" and conn: "net_connected V links"
    and fin: "finite V" and run: "net_run I V (net_start I links opts) xs N"
    and within: "net_within V T H s N"
    and room: "H + 2 * T * Suc ((9 * card V + 5) * card V * publications xs) \<le> DURATION_MAX"
      "s + Suc ((9 * card V + 5) * card V * publications xs) < 2 ^ 64"
  shows "\<exists>ys N'. net_run I V N ys N' \<and> publications ys = 0 \<and> net_quiet V N' \<and>
    (\<forall>p \<in> V. mset (delivered N' p) = mset (published N))"
proof -
  let ?start = "net_start I links opts :: ('n, 'm, 'p) pt_network"
  note reached = run_from_start [OF I links run]
  have "net_potential V ?start = 0" by (rule net_start_potential [OF I links refl])
  then have "net_potential V N < Suc ((9 * card V + 5) * card V * publications xs)"
    using net_run_potential [OF run fin net_start_inv(1) [OF I links refl] I] by (simp add: store_cost_def)
  then obtain ys N' where ys: "net_run I V N ys N'" "publications ys = 0" "net_quiet V N'"
    using net_run_settles [OF I conn fin reached(1,2) _ within room] by blast
  have all: "mset (delivered N' p) = mset (published N')" if "p \<in> V" for p
    by (rule quiet_delivers(1) [OF run_from_start [OF I links net_run_append [OF run ys(1)]] conn ys(3) that])
  then show ?thesis using ys net_run_published [OF ys(1,2)] by auto
qed

definition row_published :: "(nat, nat, string) pt_network" where
  "row_published = row_start\<lparr>net_nodes := (net_nodes row_start)
       (0 := broadcast_message sorted_iter row_message (net_nodes row_start 0)), published := [row_message]\<rparr>"

lemma row_published_run: "net_run sorted_iter {0, 1, 2} row_start [Publish 0 row_message] row_published"
  by (rule net_exec_run) (simp_all add: row_published_def network_evaluate)

lemma row_published_within: "net_within {0, 1, 2} (from_millis 500) 0 0 row_published"
  by (simp add: net_within_def within_def missing_within_def row_published_def network_evaluate)

theorem broadcast_completes_witness:
  "\<exists>ys N. net_run sorted_iter {0, 1, 2} row_published ys N \<and> publications ys = 0 \<and>
     net_quiet {0, 1, 2} N \<and> mset (delivered N 2) = {#row_message#}"
proof -
  have pub: "published row_published = [row_message]" "publications [Publish 0 row_message] = 1"
    by (simp_all add: row_published_def)
  note completes = broadcast_completes [OF sorted_iter_ok row_network _
      row_published_run [unfolded row_start_def] row_published_within]
  have "\<exists>ys N. net_run sorted_iter {0, 1, 2} row_published ys N \<and> publications ys = 0 \<and>
      net_quiet {0, 1, 2} N \<and> (\<forall>p \<in> {0, 1, 2}. mset (delivered N p) = mset (published row_published))"
    by (rule completes) (simp_all add: pub from_millis_def DURATION_MAX_def)
  then show ?thesis by (auto simp: pub)
qed

end
