(* ===== verification/Plumtree_Simulation.thy ===== *)
theory Plumtree_Simulation
  imports Plumtree_Liveness
begin

text \<open>
  The simulation that runs a set of Plumtree nodes in one process (\<^verbatim>\<open>execute\<close> and \<^verbatim>\<open>execute_single\<close> of
  \<^verbatim>\<open>plumtree/src/lib.rs\<close>): it empties the queue of each node in turn, has the destination handle
  what is sent, and advances the clocks, until a whole round finds no action.  It is one way to
  drive the network of \<^verbatim>\<open>Plumtree_Network\<close>, and it ends.
\<close>

section \<open>The simulation\<close>

text \<open>\<^verbatim>\<open>get\<close> panics without a node of that identifier.\<close>

fun with_node :: "'n \<Rightarrow> (('n, 'm, 'p) pt_node \<Rightarrow> ('n, 'm, 'p) pt_node option) \<Rightarrow>
    ('n, 'm, 'p) pt_node list \<Rightarrow> ('n, 'm, 'p) pt_node list option" where
  "with_node d f [] = None"
| "with_node d f (n # ns) =
     (if pt_id n = d then map_option (\<lambda>n'. n' # ns) (f n) else map_option (Cons n) (with_node d f ns))"

definition hand_to :: "('n, 'm) iter_ops \<Rightarrow> 'n \<Rightarrow> ('n, 'm, 'p) pt_message \<Rightarrow> ('n, 'm, 'p) pt_node list \<Rightarrow>
    ('n, 'm, 'p) pt_node list option" where
  "hand_to I d m ns = with_node d (\<lambda>n. map_option snd (pt_handle_protocol_message I m n)) ns"

partial_function (option) drain_node :: "('n, 'm) iter_ops \<Rightarrow> nat \<Rightarrow>
    ('n, 'm, 'p) pt_node list \<times> bool \<Rightarrow> (('n, 'm, 'p) pt_node list \<times> bool) option" where
  "drain_node I i s = Option.bind (pt_poll_action (fst s ! i)) (\<lambda>(action, n).
     let ns = (fst s)[i := n] in
     case action of
       None \<Rightarrow> Some (ns, snd s)
     | Some (Deliver message) \<Rightarrow> drain_node I i (ns, True)
     | Some (PtSend destination message) \<Rightarrow>
         Option.bind (hand_to I destination message ns) (\<lambda>ns. drain_node I i (ns, True)))"

fun drain_all :: "('n, 'm) iter_ops \<Rightarrow> nat list \<Rightarrow> ('n, 'm, 'p) pt_node list \<times> bool \<Rightarrow>
    (('n, 'm, 'p) pt_node list \<times> bool) option" where
  "drain_all I [] s = Some s"
| "drain_all I (i # is) s = Option.bind (drain_node I i s) (drain_all I is)"

fun tick_all :: "duration \<Rightarrow> ('n, 'm, 'p) pt_node list \<Rightarrow> ('n, 'm, 'p) pt_node list option" where
  "tick_all t [] = Some []"
| "tick_all t (n # ns) = Option.bind (pt_tick t n) (\<lambda>n. map_option (Cons n) (tick_all t ns))"

partial_function (option) execute :: "('n, 'm) iter_ops \<Rightarrow> ('n, 'm, 'p) pt_node list \<Rightarrow>
    ('n, 'm, 'p) pt_node list option" where
  "execute I ns = Option.bind (drain_all I [0..<length ns] (ns, False)) (\<lambda>s.
     Option.bind (tick_all (from_millis 100) (fst s)) (\<lambda>ns. if snd s then execute I ns else Some ns))"

text \<open>One node alone: what it delivers; sending anything panics.\<close>

partial_function (option) execute_single ::
  "('n, 'm, 'p) pt_node \<Rightarrow> (('m, 'p) app_message list \<times> ('n, 'm, 'p) pt_node) option" where
  "execute_single n = Option.bind (pt_poll_action n) (\<lambda>(action, n).
     case action of
       None \<Rightarrow> Some ([], n)
     | Some (Deliver message) \<Rightarrow> Option.bind (execute_single n) (\<lambda>(ms, n). Some (message # ms, n))
     | Some (PtSend destination message) \<Rightarrow> None)"

text \<open>A node without timers whose queue holds only deliveries hands them over in order.\<close>

lemma no_timer_no_expiration: "timeout_queue (missings n) = [] \<Longrightarrow> handle_expiration n = Some n"
proof -
  assume "timeout_queue (missings n) = []"
  then have "pop_expired (pt_clock n) (missings n) = Some (None, missings n)"
    by (subst pop_expired.simps) (simp add: heap_peek_def)
  then show ?thesis by (subst handle_expiration.simps) simp
qed

lemma execute_single_delivers:
  "timeout_queue (missings n) = [] \<Longrightarrow> pt_actions n = map Deliver ms \<Longrightarrow>
     execute_single n = Some (ms, n\<lparr>pt_actions := []\<rparr>)"
proof (induction ms arbitrary: n)
  case Nil
  then have "pt_poll_action n = Some (None, n\<lparr>pt_actions := []\<rparr>)"
    using no_timer_no_expiration [of n] by (auto simp: pt_poll_action_expiration)
  then show ?case by (subst execute_single.simps) simp
next
  case (Cons m ms)
  then have "pt_poll_action n = Some (Some (Deliver m), n\<lparr>pt_actions := map Deliver ms\<rparr>)"
    using no_timer_no_expiration [of n] by (auto simp: pt_poll_action_expiration)
  then show ?case using Cons.IH [of "n\<lparr>pt_actions := map Deliver ms\<rparr>"] Cons.prems(1)
    by (subst execute_single.simps) simp
qed

lemma single_node_delivers_broadcast:
  assumes "iter_ops_ok I"
  shows "execute_single (broadcast_message I m (pt_new p)) =
    Some ([m], (broadcast_message I m (pt_new p))\<lparr>pt_actions := []\<rparr>)"
proof -
  have "peer_iter I {} = []" using assms iter_ok_set [of "peer_iter I" "{}"] by (simp add: iter_ops_ok_def)
  then have "timeout_queue (missings (broadcast_message I m (pt_new p))) = []"
    "pt_actions (broadcast_message I m (pt_new p)) = map Deliver [m]"
    by (simp_all add: broadcast_message_def pt_new_def pt_evaluate)
  then show ?thesis by (rule execute_single_delivers)
qed

text \<open>The test of one node alone, with all its assertions.\<close>

definition test_message :: "nat \<Rightarrow> (nat, unit) app_message" where
  "test_message i = \<lparr>msg_id = i, msg_payload = ()\<rparr>"

definition single_node_works :: "(string, nat) iter_ops \<Rightarrow> bool" where
  "single_node_works I =
     (let node = pt_new ''foo'' in
      card (eager_push_peers node) = 0 \<and> card (lazy_push_peers node) = 0 \<and> card (dom (messages node)) = 0 \<and>
      pt_waiting_messages node = 0 \<and> pt_clock node = 0 \<and>
      (case pt_poll_action node of
         Some (None, node) \<Rightarrow>
           (case execute_single (broadcast_message I (test_message 0) node) of
              Some (ms, node) \<Rightarrow>
                ms = [test_message 0] \<and> card (dom (messages node)) = 1 \<and> pt_waiting_messages node = 0 \<and>
                card (dom (messages (snd (forget_message 0 node)))) = 0
            | None \<Rightarrow> False)
       | _ \<Rightarrow> False))"

lemma single_node_test_passes:
  assumes "iter_ops_ok I"
  shows "single_node_works I"
proof -
  have "timeout_queue (missings (pt_new ''foo'' :: (string, nat, unit) pt_node)) = []" by (simp add: pt_new_def pt_evaluate)
  from no_timer_no_expiration [OF this]
  have "pt_poll_action (pt_new ''foo'' :: (string, nat, unit) pt_node) = Some (None, pt_new ''foo'')"
    by (simp add: pt_poll_action_expiration) (simp add: pt_new_def pt_evaluate)
  moreover have "peer_iter I {} = []"
    using assms iter_ok_set [of "peer_iter I" "{}"] by (simp add: iter_ops_ok_def)
  ultimately show ?thesis
    unfolding single_node_works_def single_node_delivers_broadcast [OF assms] Let_def
    by (simp add: single_node_delivers_broadcast [OF assms])
      (simp add: test_message_def broadcast_message_def pt_new_def pt_evaluate forget_message_def pt_waiting_messages_def missing_waiting_def)
qed

section \<open>The simulation drives the network\<close>

text \<open>A list of nodes with different identifiers is the state of a network with nothing in transit.\<close>

definition listed :: "('n, 'm, 'p) pt_node list \<Rightarrow> ('n, 'm, 'p) pt_network \<Rightarrow> bool" where
  "listed ns N \<longleftrightarrow> distinct (map pt_id ns) \<and> in_flight N = [] \<and> (\<forall>n \<in> set ns. node_at N (pt_id n) = n)"

lemma listed_update:
  assumes "listed ns N" and "i < length ns" and "pt_id n = pt_id (ns ! i)"
  shows "listed (ns[i := n]) (N\<lparr>net_nodes := (net_nodes N)(pt_id (ns ! i) := n)\<rparr>)"
proof -
  have ids: "map pt_id (ns[i := n]) = map pt_id ns"
    using assms(2,3) by (simp add: map_update list_update_same_conv)
  have cases: "node_at N (pt_id k) = k \<and> pt_id k \<noteq> pt_id (ns ! i) \<or> k = n" if k: "k \<in> set (ns[i := n])" for k
  proof -
    obtain j where j: "j < length ns" "k = ns[i := n] ! j" using k by (auto simp: in_set_conv_nth)
    show ?thesis
    proof (cases "j = i")
      case False
      have "distinct (map pt_id ns)" using assms(1) by (simp add: listed_def)
      then have "map pt_id ns ! j \<noteq> map pt_id ns ! i"
        using False j(1) assms(2) by (subst nth_eq_iff_index_eq) simp_all
      then show ?thesis using False j assms(1,2) by (simp add: listed_def)
    qed (use j in simp)
  qed
  have "node_at (N\<lparr>net_nodes := (net_nodes N)(pt_id (ns ! i) := n)\<rparr>) (pt_id k) = k" if "k \<in> set (ns[i := n])" for k
    using cases [OF that] assms(3) by (elim disjE) simp_all
  then show ?thesis using assms(1) ids by (simp add: listed_def)
qed

lemma hand_to_eq:
  assumes "pt_id n = d" "n \<in> set ns" "distinct (map pt_id ns)" "pt_handle_protocol_message I m n = Some (b, n')"
  shows "\<exists>i < length ns. ns ! i = n \<and> hand_to I d m ns = Some (ns[i := n'])"
  using assms(2,3) unfolding hand_to_def
proof (induction ns)
  case (Cons k ns)
  show ?case
  proof (cases "pt_id k = d")
    case True
    moreover have "n \<notin> set ns" if "n \<noteq> k"
    proof
      assume "n \<in> set ns"
      then have "pt_id n \<in> pt_id ` set ns" by (rule imageI)
      then show False using Cons.prems(2) True assms(1) by simp
    qed
    ultimately have "k = n" using Cons.prems(1) by auto
    then show ?thesis using True assms(4) by (intro exI [of _ 0]) simp
  next
    case False
    then have "n \<in> set ns" using Cons.prems(1) assms(1) by auto
    then obtain i where "i < length ns" "ns ! i = n"
      "with_node d (\<lambda>n. map_option snd (pt_handle_protocol_message I m n)) ns = Some (ns[i := n'])"
      using Cons.IH Cons.prems(2) by auto
    then show ?thesis using False by (intro exI [of _ "Suc i"]) simp
  qed
qed simp

text \<open>
  What a stretch of the simulation does: the nodes it leaves are the state of the network after a
  run that publishes nothing, and horizon and counters have moved with the work of the run.
\<close>

definition drives :: "('n, 'm) iter_ops \<Rightarrow> 'n set \<Rightarrow> duration \<Rightarrow> duration \<Rightarrow> nat \<Rightarrow> ('n, 'm, 'p) pt_network \<Rightarrow>
    nat \<Rightarrow> ('n, 'm, 'p) pt_node list \<Rightarrow> ('n, 'm, 'p) pt_network \<Rightarrow> bool" where
  "drives I V T H s N w ns N' \<longleftrightarrow>
     (\<exists>xs. net_run I V N xs N' \<and> work xs = w \<and> publications xs = 0) \<and>
     listed ns N' \<and> pt_id ` set ns = V \<and> net_within V T (H + 2 * T * w) (s + w) N'"

lemma drives_trans:
  assumes "drives I V T H s N w ns N1" and "drives I V T (H + 2 * T * w) (s + w) N1 w' ns' N2"
  shows "drives I V T H s N (w + w') ns' N2"
proof -
  obtain xs ys where "net_run I V N xs N1" "work xs = w" "publications xs = 0"
    "net_run I V N1 ys N2" "work ys = w'" "publications ys = 0" using assms by (auto simp: drives_def)
  then have "\<exists>zs. net_run I V N zs N2 \<and> work zs = w + w' \<and> publications zs = 0"
    by (intro exI [of _ "xs @ ys"]) (simp add: net_run_append)
  then show ?thesis using assms(2) by (simp add: drives_def algebra_simps)
qed

lemma drivesI:
  assumes "net_run I V N xs N'" "work xs = w" "publications xs = 0" "listed ns N'" "pt_id ` set ns = V"
    "net_within V T (H + 2 * T * w) (s + w) N'"
  shows "drives I V T H s N w ns N'"
  using assms by (auto simp: drives_def)

lemma drives_inv:
  assumes "drives I V T H s N w ns N'" "net_inv V N" "iter_ops_ok I" "finite V"
  shows "net_inv V N'" "net_potential V N' + w \<le> net_potential V N" "published N' = published N"
    "known_peers (node_at N' q) = known_peers (node_at N q)"
proof -
  obtain xs where xs: "net_run I V N xs N'" "work xs = w" "publications xs = 0"
    using assms(1) by (auto simp: drives_def)
  show "net_inv V N'" by (rule net_run_inv [OF xs(1) assms(2,3)])
  show "net_potential V N' + w \<le> net_potential V N"
    using net_run_potential [OF xs(1) assms(4,2,3)] xs(2,3) by simp
  show "published N' = published N" by (rule net_run_published [OF xs(1,3)])
  show "known_peers (node_at N' q) = known_peers (node_at N q)" by (rule net_run_known [OF xs(1) assms(2,3)])
qed

lemma net_within_mono: "net_within V T H s N \<Longrightarrow> H \<le> H' \<Longrightarrow> s \<le> s' \<Longrightarrow> net_within V T H' s' N"
  unfolding net_within_def using within_mono by blast

text \<open>One poll of a node, and the handling of what it sends.\<close>

definition room_for :: "duration \<Rightarrow> duration \<Rightarrow> nat \<Rightarrow> nat \<Rightarrow> bool" where
  "room_for T H s k \<longleftrightarrow> H + 2 * T * k \<le> DURATION_MAX \<and> s + k < 2 ^ 64"

lemma poll_in_network:
  assumes inv: "net_inv V N" and listed: "listed ns N" "pt_id ` set ns = V" and i: "i < length ns"
    and room: "net_within V T H s N"
  obtains n where "handle_expiration (ns ! i) = Some n" "pt_id n = pt_id (ns ! i)" "within T H s n"
    "pt_poll_action (ns ! i) =
      Some (case pt_actions n of [] \<Rightarrow> None | x # _ \<Rightarrow> Some x, n\<lparr>pt_actions := tl (pt_actions n)\<rparr>)"
    "pt_id (ns ! i) \<in> V" "node_at N (pt_id (ns ! i)) = ns ! i"
proof -
  have at: "pt_id (ns ! i) \<in> V" "node_at N (pt_id (ns ! i)) = ns ! i"
    using listed i by (auto simp: listed_def)
  have "net_wf V N" using inv by (simp add: net_inv_def)
  then have wf: "pt_wf (ns ! i)" using net_wf_at(2) at by metis
  then obtain n where n: "handle_expiration (ns ! i) = Some n" "grafting (ns ! i) n" using handle_expiration_ok by blast
  have "within T H s (ns ! i)" using room at by (metis net_within_def)
  then have "within T H s n" by (rule handle_expiration_within [OF n(1)])
  moreover have "pt_id n = pt_id (ns ! i)" using n(2) by (simp add: grafting_def)
  ultimately show ?thesis using that n(1) at pt_poll_action_expiration [of "ns ! i"] by metis
qed

lemma send_drives:
  assumes inv: "net_inv V N" and I: "iter_ops_ok I" and listed: "listed ns N" "pt_id ` set ns = V" and i: "i < length ns"
    and room: "net_within V T H s N" "room_for T H s 1"
    and poll: "pt_poll_action (ns ! i) = Some (Some (PtSend d m), n)"
    and n: "pt_id n = pt_id (ns ! i)" "within T H s n"
  obtains ns' N' where "hand_to I d m (ns[i := n]) = Some ns'" "length ns' = length ns" "drives I V T H s N 2 ns' N'"
proof -
  let ?p = "pt_id (ns ! i)"
  have at: "?p \<in> V" "node_at N ?p = ns ! i" using listed i by (auto simp: listed_def)
  let ?N = "N\<lparr>net_nodes := (net_nodes N)(?p := n), in_flight := in_flight N @ [(d, m)]\<rparr>"
  have emit: "net_step I V N (Emit ?p) ?N" by (rule net_step.emit [OF at(1)]) (use poll at(2) in simp)
  have inv1: "net_inv V ?N" by (rule net_step_inv [OF emit inv I])
  have within1: "net_within V T H s ?N" by (rule net_within_update [OF room(1) n(2), of _ ?p]) simp_all
  have flight: "in_flight ?N = [] @ (d, m) # []" using listed(1) by (simp add: listed_def)
  have "(d, m) \<in> packets V ?N" by (simp add: packets_def)
  then have d: "d \<in> V" using net_evidence_packet(1) inv1 by (metis net_inv_def)
  have listed1: "listed (ns[i := n]) (N\<lparr>net_nodes := (net_nodes N)(?p := n)\<rparr>)" by (rule listed_update [OF listed(1) i n(1)])
  have ids: "map pt_id (ns[i := n]) = map pt_id ns" using i n(1) by (simp add: map_update list_update_same_conv)
  then have ids': "pt_id ` set (ns[i := n]) = V" using listed(2) by (metis list.set_map)
  then obtain k where k: "k \<in> set (ns[i := n])" "pt_id k = d" using d by blast
  then have kd: "node_at ?N d = k" using listed1 by (auto simp: listed_def)
  have "within T H s (node_at ?N d)" using within1 d by (simp add: net_within_def)
  moreover have "H + 2 * T \<le> DURATION_MAX" "Suc s < 2 ^ 64" using room(2) by (simp_all add: room_for_def)
  ultimately obtain b k' where k': "pt_handle_protocol_message I m (node_at ?N d) = Some (b, k')" "within T (H + 2 * T) (Suc s) k'"
    by (rule receive_within)
  have run: "pt_handle_protocol_message I m k = Some (b, k')" using k'(1) kd by simp
  have "distinct (map pt_id (ns[i := n]))" using listed1 by (simp add: listed_def)
  from hand_to_eq [OF k(2,1) this run] obtain j where j: "j < length (ns[i := n])" "ns[i := n] ! j = k"
    "hand_to I d m (ns[i := n]) = Some (ns[i := n, j := k'])" by blast
  let ?N' = "?N\<lparr>net_nodes := (net_nodes ?N)(d := k'), in_flight := [] @ []\<rparr>"
  have arrive: "net_step I V ?N (Arrive d m) ?N'" by (rule net_step.arrive [OF flight k'(1)])
  have run2: "net_run I V N [Emit ?p, Arrive d m] ?N'" by (intro net_more [OF emit] net_more [OF arrive] net_done)
  have "pt_id k' = pt_id k"
    using net_wf_at(3) [of V ?N' d] net_step_inv [OF arrive inv1 I] d k(2) by (simp add: net_inv_def)
  then have "listed (ns[i := n, j := k']) ?N'"
    using listed_update [OF listed1 j(1), of k'] j(2) k(2) listed(1) by (simp add: listed_def)
  moreover have "map pt_id (ns[i := n, j := k']) = map pt_id ns"
    using ids j(1,2) \<open>pt_id k' = pt_id k\<close> by (metis list_update_id map_update)
  then have "pt_id ` set (ns[i := n, j := k']) = V" using listed(2) by (metis list.set_map)
  moreover have "net_within V T (H + 2 * T) (Suc s) ?N'"
    by (rule net_within_update [OF within1 k'(2), of _ d]) simp_all
  then have "net_within V T (H + 2 * T * 2) (s + 2) ?N'" by (rule net_within_mono) simp_all
  ultimately have "drives I V T H s N 2 (ns[i := n, j := k']) ?N'"
    by (intro drivesI [OF run2]) simp_all
  with j(3) show ?thesis using that by simp
qed

lemma room_for_step:
  assumes "room_for T H s (Suc k)" and "w \<le> k"
  shows "room_for T (H + 2 * T * w) (s + w) (Suc (k - w))"
proof -
  obtain r where "k = w + r" using assms(2) by (metis le_Suc_ex)
  then show ?thesis using assms(1) by (simp add: room_for_def algebra_simps)
qed

lemma room_for_one: "room_for T H s (Suc k) \<Longrightarrow> room_for T H s 1"
  by (auto simp: room_for_def)

text \<open>Emptying the queue of one node.\<close>

lemma drain_node_drives:
  assumes I: "iter_ops_ok I" and fin: "finite V"
  shows "net_inv V N \<Longrightarrow> listed ns N \<Longrightarrow> pt_id ` set ns = V \<Longrightarrow> i < length ns \<Longrightarrow> net_within V T H s N \<Longrightarrow>
    net_potential V N \<le> k \<Longrightarrow> room_for T H s (Suc k) \<Longrightarrow>
    \<exists>ns' w N'. drain_node I i (ns, did) = Some (ns', did \<or> 0 < w) \<and> length ns' = length ns \<and>
      drives I V T H s N w ns' N' \<and> pt_actions (ns' ! i) = [] \<and>
      (w = 0 \<longrightarrow> (\<forall>j < length ns. j \<noteq> i \<longrightarrow> ns' ! j = ns ! j))"
proof (induction k arbitrary: N ns H s did rule: less_induct)
  case (less k)
  note inv = less.prems(1) and listed = less.prems(2,3) and i = less.prems(4) and room = less.prems(5,7)
  obtain n where n: "handle_expiration (ns ! i) = Some n" "pt_id n = pt_id (ns ! i)" "within T H s n"
    and poll: "pt_poll_action (ns ! i) =
      Some (case pt_actions n of [] \<Rightarrow> None | x # _ \<Rightarrow> Some x, n\<lparr>pt_actions := tl (pt_actions n)\<rparr>)"
    and at: "pt_id (ns ! i) \<in> V" "node_at N (pt_id (ns ! i)) = ns ! i"
    by (rule poll_in_network [OF inv listed i room(1)])
  let ?p = "pt_id (ns ! i)" and ?n = "n\<lparr>pt_actions := tl (pt_actions n)\<rparr>"
  let ?ns = "ns[i := ?n]"
  let ?N = "N\<lparr>net_nodes := (net_nodes N)(?p := ?n)\<rparr>"
  have n': "pt_id ?n = ?p" "within T H s ?n" using n(2,3) by (simp_all add: within_def)
  have listed': "listed ?ns ?N" by (rule listed_update [OF listed(1) i n'(1)])
  have ids: "pt_id ` set ?ns = V"
    using listed(2) i n'(1) by (metis list.set_map list_update_id map_update)
  have go_on: ?case
    if step: "drives I V T H s N w ms M" "0 < w" "length ms = length ns" and
      run: "drain_node I i (ns, did) = drain_node I i (ms, True)" for w ms M
  proof -
    note M = drives_inv [OF step(1) inv I fin]
    have pot: "w \<le> k" "net_potential V M \<le> k - w" "k - w < k" using M(2) less.prems(6) step(2) by simp_all
    have ms: "listed ms M" "pt_id ` set ms = V" "i < length ms" "net_within V T (H + 2 * T * w) (s + w) M"
      using step(1,3) i by (simp_all add: drives_def)
    have "room_for T (H + 2 * T * w) (s + w) (Suc (k - w))" using room(2) pot(1) by (rule room_for_step)
    from less.IH [OF pot(3) M(1) ms pot(2) this, of True] obtain ns' w' N' where ns': "drain_node I i (ms, True) = Some (ns', True)" "length ns' = length ms"
      "drives I V T (H + 2 * T * w) (s + w) M w' ns' N'" "pt_actions (ns' ! i) = []"
      by auto
    then show ?thesis
      using drives_trans [OF step(1) ns'(3)] step(2,3) run
      by (intro exI [of _ ns'] exI [of _ "w + w'"] exI [of _ N']) simp
  qed
  show ?case
  proof (cases "pt_actions n")
    case Nil
    then have run: "drain_node I i (ns, did) = Some (?ns, did)"
      by (subst drain_node.simps) (simp add: poll)
    have idle: "net_step I V N (Idle ?p) ?N" by (rule net_step.idle [OF at(1)]) (simp add: at(2) poll Nil)
    have "net_within V T H s ?N" by (rule net_within_update [OF room(1) n'(2), of _ ?p]) simp_all
    then have "drives I V T H s N 0 ?ns ?N"
      using listed' ids by (intro drivesI [OF net_more [OF idle net_done]]) simp_all
    then show ?thesis using run i Nil by (intro exI [of _ ?ns] exI [of _ 0] exI [of _ ?N]) simp
  next
    case (Cons a as)
    show ?thesis
    proof (cases a)
      case (Deliver m)
      let ?M = "?N\<lparr>delivered := (delivered N)(?p := delivered N ?p @ [m])\<rparr>"
      have run: "drain_node I i (ns, did) = drain_node I i (?ns, True)"
        by (subst drain_node.simps) (simp add: poll Cons Deliver)
      have hand: "net_step I V N (Hand_Over ?p) ?M"
        by (rule net_step.hand_over [OF at(1)]) (simp add: at(2) poll Cons Deliver)
      have "net_within V T H s ?M" by (rule net_within_update [OF room(1) n'(2), of _ ?p]) simp_all
      then have "net_within V T (H + 2 * T * 1) (s + 1) ?M" by (rule net_within_mono) simp_all
      moreover have "listed ?ns ?M" using listed' by (simp add: listed_def)
      ultimately have "drives I V T H s N 1 ?ns ?M"
        using ids by (intro drivesI [OF net_more [OF hand net_done]]) simp_all
      then show ?thesis by (rule go_on) (simp_all add: run)
    next
      case (PtSend d m)
      have poll': "pt_poll_action (ns ! i) = Some (Some (PtSend d m), ?n)" by (simp add: poll Cons PtSend)
      obtain ms M where M: "hand_to I d m ?ns = Some ms" "length ms = length ns" "drives I V T H s N 2 ms M"
        by (rule send_drives [OF inv I listed i room(1) room_for_one [OF room(2)] poll' n'])
      have "drain_node I i (ns, did) = drain_node I i (ms, True)"
        by (subst drain_node.simps) (simp add: poll' M(1))
      with M show ?thesis by (intro go_on [OF M(3)]) simp_all
    qed
  qed
qed

text \<open>Going round the nodes, and advancing the clocks.\<close>

lemma drain_all_drives:
  assumes I: "iter_ops_ok I" and fin: "finite V"
  shows "net_inv V N \<Longrightarrow> listed ns N \<Longrightarrow> pt_id ` set ns = V \<Longrightarrow> \<forall>i \<in> set is. i < length ns \<Longrightarrow> net_within V T H s N \<Longrightarrow>
    net_potential V N \<le> k \<Longrightarrow> room_for T H s (Suc k) \<Longrightarrow> distinct is \<Longrightarrow>
    \<exists>ns' w N'. drain_all I is (ns, did) = Some (ns', did \<or> 0 < w) \<and> length ns' = length ns \<and>
      drives I V T H s N w ns' N' \<and>
      (w = 0 \<longrightarrow> (\<forall>i \<in> set is. pt_actions (ns' ! i) = []) \<and> (\<forall>j < length ns. j \<notin> set is \<longrightarrow> ns' ! j = ns ! j))"
proof (induction "is" arbitrary: N ns H s k did)
  case Nil
  have "drives I V T H s N 0 ns N" using Nil.prems by (intro drivesI [OF net_done]) simp_all
  then show ?case by (intro exI [of _ ns] exI [of _ 0] exI [of _ N]) simp
next
  case (Cons i "is")
  have i: "i < length ns" "i \<notin> set is" using Cons.prems(4,8) by simp_all
  obtain ms w M where ms: "drain_node I i (ns, did) = Some (ms, did \<or> 0 < w)" "length ms = length ns"
    "drives I V T H s N w ms M" "pt_actions (ms ! i) = []"
    "w = 0 \<longrightarrow> (\<forall>j < length ns. j \<noteq> i \<longrightarrow> ms ! j = ns ! j)"
    using drain_node_drives [OF I fin Cons.prems(1-3) i(1) Cons.prems(5-7), of did] by blast
  note M = drives_inv [OF ms(3) Cons.prems(1) I fin]
  have pot: "w \<le> k" "net_potential V M \<le> k - w" using M(2) Cons.prems(6) by simp_all
  have "listed ms M" "pt_id ` set ms = V" "\<forall>i \<in> set is. i < length ms" "net_within V T (H + 2 * T * w) (s + w) M"
    using ms(2,3) Cons.prems(4) by (simp_all add: drives_def)
  from Cons.IH [OF M(1) this pot(2) room_for_step [OF Cons.prems(7) pot(1)], of "did \<or> 0 < w"] Cons.prems(8)
  obtain ns' w' N' where ns': "drain_all I is (ms, did \<or> 0 < w) = Some (ns', (did \<or> 0 < w) \<or> 0 < w')" "length ns' = length ms"
    "drives I V T (H + 2 * T * w) (s + w) M w' ns' N'"
    "w' = 0 \<longrightarrow> (\<forall>i \<in> set is. pt_actions (ns' ! i) = []) \<and> (\<forall>j < length ms. j \<notin> set is \<longrightarrow> ns' ! j = ms ! j)"
    by auto
  have "drives I V T H s N (w + w') ns' N'" by (rule drives_trans [OF ms(3) ns'(3)])
  moreover have "drain_all I (i # is) (ns, did) = Some (ns', did \<or> 0 < w + w')" using ms(1) ns'(1) by auto
  moreover have "w + w' = 0 \<longrightarrow> (\<forall>j \<in> set (i # is). pt_actions (ns' ! j) = []) \<and>
      (\<forall>j < length ns. j \<notin> set (i # is) \<longrightarrow> ns' ! j = ns ! j)"
    using ms(2,4,5) ns'(4) i by auto
  ultimately show ?case using ms(2) ns'(2) by (intro exI [of _ ns'] exI [of _ "w + w'"] exI [of _ N']) simp
qed

lemma tick_all_eq:
  "\<forall>n \<in> set ns. pt_clock n + t \<le> DURATION_MAX \<Longrightarrow>
     tick_all t ns = Some (map (\<lambda>n. n\<lparr>pt_clock := pt_clock n + t\<rparr>) ns)"
  by (induction ns) (simp_all add: pt_tick_def clock_tick_def duration_add_def)

lemma tick_all_run:
  assumes "set ms \<subseteq> set ns" "distinct (map pt_id ms)" "pt_id ` set ns = V" "\<forall>n \<in> set ms. node_at N (pt_id n) = n"
    "\<forall>n \<in> set ms. pt_clock n + t \<le> DURATION_MAX"
  shows "\<exists>xs N'. net_run I V N xs N' \<and> work xs = 0 \<and> publications xs = 0 \<and> in_flight N' = in_flight N \<and>
    (\<forall>n \<in> set ms. node_at N' (pt_id n) = n\<lparr>pt_clock := pt_clock n + t\<rparr>) \<and>
    (\<forall>p. p \<notin> pt_id ` set ms \<longrightarrow> node_at N' p = node_at N p)"
  using assms
proof (induction ms arbitrary: N)
  case Nil
  show ?case by (intro exI [of _ "[]"] exI [of _ N]) (simp add: net_done)
next
  case (Cons n ms)
  let ?n = "n\<lparr>pt_clock := pt_clock n + t\<rparr>"
  let ?M = "N\<lparr>net_nodes := (net_nodes N)(pt_id n := ?n)\<rparr>"
  have "pt_id n \<in> V" using Cons.prems(1,3) by auto
  moreover have "pt_tick t (node_at N (pt_id n)) = Some ?n"
    using Cons.prems(4,5) by (simp add: pt_tick_def clock_tick_def duration_add_def)
  ultimately have step: "net_step I V N (Pass (pt_id n) t) ?M" by (rule net_step.pass)
  have new: "pt_id n \<notin> pt_id ` set ms" using Cons.prems(2) by simp
  have "\<forall>k \<in> set ms. node_at ?M (pt_id k) = k" using Cons.prems(4) new by (metis fun_upd_apply imageI list.set_intros(2)
        pt_network.select_convs(1) pt_network.surjective pt_network.update_convs(1))
  then obtain xs N' where xs: "net_run I V ?M xs N'" "work xs = 0" "publications xs = 0" "in_flight N' = in_flight ?M"
    "\<forall>n \<in> set ms. node_at N' (pt_id n) = n\<lparr>pt_clock := pt_clock n + t\<rparr>"
    "\<forall>p. p \<notin> pt_id ` set ms \<longrightarrow> node_at N' p = node_at ?M p"
    using Cons.IH [of ?M] Cons.prems(1,2,3,5) by auto
  have "node_at N' (pt_id n) = ?n" using xs(6) new by simp
  then show ?case using xs net_more [OF step xs(1)]
    by (intro exI [of _ "Pass (pt_id n) t # xs"] exI [of _ N']) auto
qed

lemma within_tick: "within T H s n \<Longrightarrow> within T (H + t) s (n\<lparr>pt_clock := pt_clock n + t\<rparr>)"
  using missing_within_mono [of H s "missings n" "H + t" s] by (simp add: within_def)

lemma tick_all_drives:
  assumes "net_within V T H s N" "H + t \<le> DURATION_MAX" "listed ns N" "pt_id ` set ns = V"
  obtains ns' xs N' where "tick_all t ns = Some ns'" "length ns' = length ns"
    "net_run I V N xs N'" "work xs = 0" "publications xs = 0"
    "listed ns' N'" "pt_id ` set ns' = V" "net_within V T (H + t) s N'" "map pt_actions ns' = map pt_actions ns"
proof -
  let ?ns = "map (\<lambda>n. n\<lparr>pt_clock := pt_clock n + t\<rparr>) ns"
  have at: "within T H s n" "node_at N (pt_id n) = n" if "n \<in> set ns" for n
    using assms(1,3,4) that unfolding net_within_def listed_def by force+
  then have clock: "\<forall>n \<in> set ns. pt_clock n + t \<le> DURATION_MAX" using assms(2) by (force simp: within_def)
  have ids: "distinct (map pt_id ns)" using assms(3) by (simp add: listed_def)
  obtain xs N' where xs: "net_run I V N xs N'" "work xs = 0" "publications xs = 0" "in_flight N' = in_flight N"
    "\<forall>n \<in> set ns. node_at N' (pt_id n) = n\<lparr>pt_clock := pt_clock n + t\<rparr>"
    using tick_all_run [OF subset_refl ids assms(4) _ clock, of N I] at(2) by blast
  have "map pt_id ?ns = map pt_id ns" by (simp add: comp_def)
  then have "distinct (map pt_id ?ns)" using ids by (simp only:)
  then have "listed ?ns N'" using xs(4,5) assms(3) unfolding listed_def by simp
  moreover have "pt_id ` set ?ns = V" using assms(4) by (simp add: image_image)
  moreover have "net_within V T (H + t) s N'"
    using xs(5) at(1) within_tick assms(4) unfolding net_within_def by force
  ultimately show thesis using that [OF tick_all_eq [OF clock] _ xs(1-3)] by (simp add: comp_def)
qed

text \<open>The whole simulation: a round that does something uses up some of the potential.\<close>

lemma execute_returns:
  assumes I: "iter_ops_ok I" and fin: "finite V"
  shows "net_inv V N \<Longrightarrow> listed ns N \<Longrightarrow> pt_id ` set ns = V \<Longrightarrow> net_within V T H s N \<Longrightarrow> net_potential V N \<le> k \<Longrightarrow>
    H + (2 * T + from_millis 100) * Suc k \<le> DURATION_MAX \<Longrightarrow> s + Suc k < 2 ^ 64 \<Longrightarrow>
    \<exists>ns' xs N'. execute I ns = Some ns' \<and> net_run I V N xs N' \<and> publications xs = 0 \<and>
      listed ns' N' \<and> pt_id ` set ns' = V \<and> (\<forall>n \<in> set ns'. pt_actions n = [])"
proof (induction k arbitrary: N ns H s rule: less_induct)
  case (less k)
  let ?R = "from_millis 100"
  have room: "room_for T H s (Suc k)" using less.prems(6,7) by (simp add: room_for_def algebra_simps)
  obtain ms w M where ms: "drain_all I [0..<length ns] (ns, False) = Some (ms, 0 < w)" "length ms = length ns"
    "drives I V T H s N w ms M" "w = 0 \<longrightarrow> (\<forall>i < length ns. pt_actions (ms ! i) = [])"
    using drain_all_drives [OF I fin less.prems(1-3) _ less.prems(4,5) room, of "[0..<length ns]" False] by auto
  note M = drives_inv [OF ms(3) less.prems(1) I fin]
  have w: "w \<le> k" using M(2) less.prems(5) by simp
  have within: "net_within V T (H + 2 * T * w) (s + w) M" and listed: "listed ms M" "pt_id ` set ms = V"
    using ms(3) by (simp_all add: drives_def)
  obtain r where r: "k = w + r" using w by (metis le_Suc_ex)
  have horizon: "H + 2 * T * w + ?R \<le> DURATION_MAX" using less.prems(6) by (simp add: r algebra_simps)
  obtain ns1 ys N1 where N1: "tick_all ?R ms = Some ns1" "length ns1 = length ms" "net_run I V M ys N1" "work ys = 0"
    "publications ys = 0" "listed ns1 N1" "pt_id ` set ns1 = V" "net_within V T (H + 2 * T * w + ?R) (s + w) N1"
    "map pt_actions ns1 = map pt_actions ms"
    by (rule tick_all_drives [OF within horizon listed])
  obtain xs where xs: "net_run I V N xs M" "publications xs = 0" using ms(3) by (auto simp: drives_def)
  have run: "net_run I V N (xs @ ys) N1" "publications (xs @ ys) = 0"
    using net_run_append [OF xs(1) N1(3)] xs(2) N1(5) by simp_all
  show ?case
  proof (cases "w = 0")
    case True
    have "execute I ns = Some ns1" by (subst execute.simps) (simp add: ms(1) N1(1) True)
    moreover have "\<forall>n \<in> set ms. pt_actions n = []" using ms(2,4) True by (auto simp: in_set_conv_nth)
    then have "set (map pt_actions ns1) \<subseteq> {[]}" unfolding N1(9) by auto
    then have "\<forall>n \<in> set ns1. pt_actions n = []" by auto
    ultimately show ?thesis using run N1(6,7) by blast
  next
    case False
    have step: "execute I ns = execute I ns1" by (subst execute.simps) (simp add: ms(1) N1(1) False)
    have inv1: "net_inv V N1" by (rule net_run_inv [OF N1(3) M(1) I])
    have "net_potential V N1 \<le> r" using net_run_potential [OF N1(3) fin M(1) I] N1(4,5) M(2) less.prems(5) r by simp
    moreover have "?R \<le> ?R * w" using False by (cases w) simp_all
    then have "H + 2 * T * w + ?R + (2 * T + ?R) * Suc r \<le> H + (2 * T + ?R) * Suc k"
      by (simp add: r algebra_simps)
    then have "H + 2 * T * w + ?R + (2 * T + ?R) * Suc r \<le> DURATION_MAX" using less.prems(6) by (rule order_trans)
    moreover have "s + w + Suc r < 2 ^ 64" using less.prems(7) by (simp add: r)
    moreover have "r < k" using False r by simp
    ultimately obtain ns' zs N' where "execute I ns1 = Some ns'" "net_run I V N1 zs N'" "publications zs = 0"
      "listed ns' N'" "pt_id ` set ns' = V" "\<forall>n \<in> set ns'. pt_actions n = []"
      using less.IH [OF _ inv1 N1(6,7,8)] by blast
    then show ?thesis using step net_run_append [OF run(1)] run(2)
      by (intro exI [of _ ns'] exI [of _ "(xs @ ys) @ zs"] exI [of _ N']) simp
  qed
qed

section \<open>The simulation ends and delivers\<close>

lemma simulation_run:
  fixes N :: "('n, 'm, 'p) pt_network"
  assumes I: "iter_ops_ok I" and links: "net_links (set ps) links"
    and ps: "distinct ps" and run: "net_run I (set ps) (net_start I links opts) xs N" and still: "in_flight N = []"
    and within: "net_within (set ps) T H s N"
    and room: "H + (2 * T + from_millis 100) * Suc ((9 * length ps + 5) * length ps * publications xs) \<le> DURATION_MAX"
      "s + Suc ((9 * length ps + 5) * length ps * publications xs) < 2 ^ 64"
  shows "\<exists>ns ys N'. execute I (map (net_nodes N) ps) = Some ns \<and> net_run I (set ps) N ys N' \<and> publications ys = 0 \<and>
    listed ns N' \<and> pt_id ` set ns = set ps \<and> (\<forall>n \<in> set ns. pt_actions n = [])"
proof -
  let ?V = "set ps" and ?start = "net_start I links opts :: ('n, 'm, 'p) pt_network"
  note reached = run_from_start [OF I links run]
  have wf: "net_wf ?V N" using reached(1) by (simp add: net_inv_def)
  have ids: "map pt_id (map (net_nodes N) ps) = ps" using net_wf_at(3) [OF wf] by (simp add: map_idI)
  have listed: "listed (map (net_nodes N) ps) N"
    unfolding listed_def ids using ps still net_wf_at(3) [OF wf] by auto
  have all: "pt_id ` set (map (net_nodes N) ps) = ?V" using ids by (metis list.set_map)
  have "net_potential ?V ?start = 0" by (rule net_start_potential [OF I links refl])
  then have pot: "net_potential ?V N \<le> (9 * length ps + 5) * length ps * publications xs"
    using net_run_potential [OF run finite_set net_start_inv(1) [OF I links refl] I]
    by (simp add: store_cost_def distinct_card [OF ps])
  from execute_returns [OF I finite_set reached(1) listed all within pot room] show ?thesis by blast
qed

text \<open>If no node waits any more the network is quiet, and everything is everywhere.\<close>

lemma idle_nodes_store:
  fixes N :: "('n, 'm, 'p) pt_network"
  assumes I: "iter_ops_ok I" and links: "net_links V links" and conn: "net_connected V links"
    and run: "net_run I V (net_start I links opts) xs N" and ns: "listed ns N" "pt_id ` set ns = V"
    and idle: "\<forall>n \<in> set ns. pt_actions n = [] \<and> pt_waiting_messages n = 0" and n: "n \<in> set ns"
  shows "dom (messages n) = msg_id ` set (published N) \<and>
    (\<forall>m \<in> set (published N). messages n (msg_id m) = Some (msg_payload m))"
proof -
  have here: "node_at N (pt_id n) = n" if "n \<in> set ns" for n using ns(1) that by (simp add: listed_def)
  have "net_quiet V N" unfolding net_quiet_def
  proof (intro conjI ballI)
    show "in_flight N = []" using ns(1) by (simp add: listed_def)
    fix p assume "p \<in> V"
    then obtain n where "n \<in> set ns" "p = pt_id n" using ns(2) by blast
    then show "pt_actions (node_at N p) = []" "pt_waiting_messages (node_at N p) = 0"
      using idle here by simp_all
  qed
  note delivered = quiet_delivers(2) [OF run_from_start [OF I links run] conn this]
  have V: "pt_id n \<in> V" using n ns(2) by blast
  note all = delivered [OF _ V, unfolded here [OF n]]
  have "m \<in> set (published N)" if "holds n m" for m
    using run_from_start(1) [OF I links run] here [OF n] V that unfolding net_inv_def net_stored_def by metis
  then have "dom (messages n) \<subseteq> msg_id ` set (published N)" unfolding holds_def
    by (force intro: image_eqI [where x = "\<lparr>msg_id = i, msg_payload = x\<rparr>" for i x])
  then show ?thesis using all by blast
qed

text \<open>
  C5. Running a network in one process ends.  From any state of a network in which nothing is in
  transit, with clocks and counters far enough from the end of their ranges for the work that is
  left, emptying the queues of the nodes in turn and advancing the clocks by a tenth of a second per round
  returns: no handler panics, no message is sent to a node that does not exist, and from some round
  on no node has anything to do.  If no node is then waiting for a message, every node of a
  connected network stores the published messages and no others.
\<close>

theorem simulation_returns:
  fixes N :: "('n, 'm, 'p) pt_network"
  assumes I: "iter_ops_ok I" and links: "net_links (set ps) links" and conn: "net_connected (set ps) links"
    and ps: "distinct ps" and run: "net_run I (set ps) (net_start I links opts) xs N" and still: "in_flight N = []"
    and within: "net_within (set ps) T H s N"
    and room: "H + (2 * T + from_millis 100) * Suc ((9 * length ps + 5) * length ps * publications xs) \<le> DURATION_MAX"
      "s + Suc ((9 * length ps + 5) * length ps * publications xs) < 2 ^ 64"
  shows "\<exists>ns. execute I (map (net_nodes N) ps) = Some ns \<and> pt_id ` set ns = set ps \<and>
    (\<forall>n \<in> set ns. pt_actions n = []) \<and>
    ((\<forall>n \<in> set ns. pt_waiting_messages n = 0) \<longrightarrow>
      (\<forall>n \<in> set ns. dom (messages n) = msg_id ` set (published N) \<and>
        (\<forall>m \<in> set (published N). messages n (msg_id m) = Some (msg_payload m))))"
proof -
  obtain ns ys N' where ns: "execute I (map (net_nodes N) ps) = Some ns" "net_run I (set ps) N ys N'" "publications ys = 0"
    "listed ns N'" "pt_id ` set ns = set ps" "\<forall>n \<in> set ns. pt_actions n = []"
    using simulation_run [OF I links ps run still within room] by blast
  then show ?thesis
    using idle_nodes_store [OF I links conn net_run_append [OF run ns(2)] ns(4,5)] net_run_published [OF ns(2,3)] by auto
qed

theorem simulation_returns_witness:
  "\<exists>ns. execute sorted_iter (map (net_nodes row_published) [0, 1, 2]) = Some ns \<and> pt_id ` set ns = {0, 1, 2} \<and>
     (\<forall>n \<in> set ns. pt_actions n = [])"
proof -
  have three: "set [0, 1, 2] = {0, 1, 2 :: nat}" by auto
  have pub: "publications [Publish (0 :: nat) row_message] = 1" "in_flight row_published = []"
    by (simp_all add: row_published_def row_start_def net_start_def)
  note returns = simulation_returns [where ps = "[0, 1, 2 :: nat]", unfolded three, OF sorted_iter_ok row_network _
      row_published_run [unfolded row_start_def] pub(2) row_published_within]
  show ?thesis
    using returns by (simp add: pub from_millis_def DURATION_MAX_def) blast
qed

end
