(* ===== verification/Plumtree_Range.thy ===== *)
theory Plumtree_Range
  imports Plumtree_Spread
begin

text \<open>
  How long a Plumtree node waits, and how much room it needs.  The IHAVEs for a message that is
  awaited are kept in a queue of timers: the theory shows that the timers of a message are a
  timetable, one timeout apart, and bounds clock, timers and counters by the number of IHAVEs
  that were received and the time that has passed.  The model keeps times and counters as
  natural numbers and checks every addition; the bounds say when no check fails.
\<close>

section \<open>The timetable of an awaited message\<close>

text \<open>
  The pending timers of a message are due at \<open>t\<close>, \<open>t + d\<close> and so on, one for every owner that was not
  asked yet, and the next owner would be asked one timeout after the last of them.
\<close>

definition timetable :: "duration \<Rightarrow> ('n, 'm) queue_item multiset \<Rightarrow> 'm \<Rightarrow> 'n ihave_entry \<Rightarrow> bool" where
  "timetable d Q i e \<longleftrightarrow>
     (\<exists>t. next_expiry e = t + owners e * d \<and>
        image_mset expiry_time (filter_mset (for_message i (entry_id_seqno e)) Q) =
          mset (map (\<lambda>j. t + j * d) [0..<owners e]))"

definition missing_times :: "nat \<Rightarrow> duration \<Rightarrow> duration \<Rightarrow> ('n, 'm) missing_messages \<Rightarrow> bool" where
  "missing_times K T d mm \<longleftrightarrow> entry_seqno mm \<le> K \<and> length (timeout_queue mm) \<le> K \<and>
     (\<forall>x \<in> set (timeout_queue mm). expiry_time x \<le> T + Suc K * d) \<and>
     (\<forall>i e. ihaves mm i = Some e \<longrightarrow> next_expiry e \<le> T + Suc K * d \<and> timetable d (mset (timeout_queue mm)) i e)"

lemma missing_timesD:
  assumes "missing_times K T d mm"
  shows "entry_seqno mm \<le> K" "length (timeout_queue mm) \<le> K"
    and "x \<in> set (timeout_queue mm) \<Longrightarrow> expiry_time x \<le> T + Suc K * d"
    and "ihaves mm i = Some e \<Longrightarrow> next_expiry e \<le> T + Suc K * d \<and> timetable d (mset (timeout_queue mm)) i e"
  using assms unfolding missing_times_def by blast+

lemma missing_times_new: "missing_times 0 T d missing_new"
  by (simp add: missing_times_def missing_new_def)

lemma missing_times_remove: "missing_times K T d mm \<Longrightarrow> missing_times K T d (missing_remove i mm)"
  by (auto simp: missing_times_def missing_remove_def split: if_splits)

lemma missing_times_mono:
  assumes "missing_times K T d mm" "K \<le> K'" "T \<le> T'"
  shows "missing_times K' T' d mm"
proof -
  have "T + Suc K * d \<le> T' + Suc K' * d" using assms(2,3) by (intro add_mono mult_le_mono) simp_all
  moreover have "expiry_time x \<le> T' + Suc K' * d" if "x \<in> set (timeout_queue mm)" for x
    using missing_timesD(3) [OF assms(1) that] calculation by simp
  moreover have "next_expiry e \<le> T' + Suc K' * d" if "ihaves mm i = Some e" for i e
    using missing_timesD(4) [OF assms(1) that] calculation(1) by simp
  ultimately show ?thesis using missing_timesD(1,2,4) [OF assms(1)] assms(2)
    unfolding missing_times_def by simp
qed

text \<open>An owner more: its timer is due when the timetable ends.\<close>

lemma timetable_push:
  assumes "timetable d Q i e" "for_message i (entry_id_seqno e) x" "expiry_time x = next_expiry e"
    and "e' = e\<lparr>next_expiry := next_expiry e + d, owners := Suc (owners e)\<rparr>"
  shows "timetable d (add_mset x Q) i e'"
proof -
  obtain t where t: "next_expiry e = t + owners e * d"
    "image_mset expiry_time (filter_mset (for_message i (entry_id_seqno e)) Q) = mset (map (\<lambda>j. t + j * d) [0..<owners e])"
    using assms(1) by (auto simp: timetable_def)
  then show ?thesis using assms(2-4) by (auto simp: timetable_def intro!: exI [of _ t])
qed

text \<open>An owner less: the timer that is due first was the head of the timetable.\<close>

lemma timetable_pop:
  assumes tt: "timetable d (add_mset x Q) i e" and x: "for_message i (entry_id_seqno e) x"
    and least: "\<forall>y \<in># Q. expiry_time x \<le> expiry_time y"
    and e': "owners e' = owners e - 1" "entry_id_seqno e' = entry_id_seqno e" "next_expiry e' = next_expiry e"
  shows "timetable d Q i e'"
proof -
  let ?F = "\<lambda>Q. image_mset expiry_time (filter_mset (for_message i (entry_id_seqno e)) Q)"
  obtain t where t: "next_expiry e = t + owners e * d"
    "?F (add_mset x Q) = mset (map (\<lambda>j. t + j * d) [0..<owners e])"
    using tt by (auto simp: timetable_def)
  have F: "?F (add_mset x Q) = add_mset (expiry_time x) (?F Q)" using x by simp
  then obtain k where k: "owners e = Suc k" using t(2) by (cases "owners e") auto
  have list: "mset (map (\<lambda>j. t + j * d) [0..<owners e]) = add_mset t (mset (map (\<lambda>j. (t + d) + j * d) [0..<k]))"
    unfolding k upt_conv_Cons [OF zero_less_Suc] map_Suc_upt [symmetric] by (simp add: comp_def add.assoc)
  have "expiry_time x = t"
  proof (rule antisym)
    have "t \<in># add_mset (expiry_time x) (?F Q)" using F t(2) list by (metis union_single_eq_member)
    then show "expiry_time x \<le> t" using least by auto
    have "expiry_time x \<in># mset (map (\<lambda>j. t + j * d) [0..<owners e])" using F t(2) by (metis union_single_eq_member)
    then show "t \<le> expiry_time x" by auto
  qed
  then have "?F Q = mset (map (\<lambda>j. (t + d) + j * d) [0..<k])" using F t(2) list by simp
  then show ?thesis using e' k t(1)
    by (auto simp: timetable_def intro!: exI [of _ "t + d"])
qed

lemma timetable_other:
  "\<not> for_message i (entry_id_seqno e) x \<Longrightarrow> timetable d (add_mset x Q) i e = timetable d Q i e"
  by (simp add: timetable_def)

lemma missing_times_push:
  assumes wf: "missing_wf mm" and times: "missing_times K T d mm" and clock: "clock_now c \<le> T"
    and push: "missing_push x c d mm = Some mm'"
  shows "missing_times (Suc K) T d mm'"
  using push
proof (cases rule: missing_push_cases)
  case (1 e)
  have e: "next_expiry e \<le> T + Suc K * d \<and> timetable d (mset (timeout_queue mm)) (ihave_message_id x) e"
  proof (cases "ihaves mm (ihave_message_id x)")
    case None
    then have "owners e = 0" "entry_id_seqno e = entry_seqno mm" "next_expiry e \<le> clock_now c + d"
      using 1(1) by (auto simp: or_insert_entry_def bind_eq_Some_conv node_time_add_def std_simps split: if_splits)
    moreover have "filter_mset (for_message (ihave_message_id x) (entry_seqno mm)) (mset (timeout_queue mm)) = {#}"
      using wf by (intro no_timers_yet) (simp add: missing_wf_def)
    ultimately show ?thesis using clock by (simp add: timetable_def)
  next
    case (Some y)
    then have "e = y" using 1(1) by (simp add: or_insert_entry_def)
    then show ?thesis using missing_timesD(4) [OF times Some] by simp
  qed
  let ?x = "MessageItem (next_expiry e) (entry_id_seqno e) x"
  have Q: "mset (timeout_queue mm') = add_mset ?x (mset (timeout_queue mm))" by (simp add: 1(2) mset_heap_push)
  have len: "length (timeout_queue mm') = Suc (length (timeout_queue mm))"
    using arg_cong [OF Q, of size] by simp
  have "timetable d (mset (timeout_queue mm')) i e'" if "ihaves mm' i = Some e'" for i e'
  proof (cases "i = ihave_message_id x")
    case True
    then show ?thesis using that e by (auto simp: Q 1(2) intro!: timetable_push)
  next
    case False
    then show ?thesis using that missing_timesD(4) [OF times] by (auto simp: Q 1(2) timetable_other)
  qed
  moreover have "next_expiry e' \<le> T + Suc (Suc K) * d" if "ihaves mm' i = Some e'" for i e'
    using that e missing_timesD(4) [OF times, of i] by (fastforce simp: 1(2) split: if_splits)
  moreover have "expiry_time y \<le> T + Suc (Suc K) * d" if "y \<in> set (timeout_queue mm')" for y
    using that e missing_timesD(3) [OF times, of y] by (auto simp: 1(2))
  moreover have "entry_seqno mm' \<le> Suc K" "length (timeout_queue mm') \<le> Suc K"
    using missing_timesD(1,2) [OF times] len by (simp_all add: 1(2))
  ultimately show ?thesis unfolding missing_times_def by blast
qed

lemma missing_times_item:
  assumes times: "missing_times K T d mm" and wf: "missing_wf mm"
    and pop: "heap_pop expiry_time (timeout_queue mm) = Some (item, q)"
    and expire: "expire_item item (mm\<lparr>timeout_queue := q\<rparr>) = Some (r, mm')"
  shows "missing_times K T d mm'"
proof -
  have Q: "mset (timeout_queue mm) = add_mset item (mset q)" using pop by (rule timeouts.items_pop)
  have sub: "set q \<subseteq> set (timeout_queue mm)" using arg_cong [OF Q, of set_mset] by auto
  have len: "Suc (length q) \<le> K" using missing_timesD(2) [OF times] heap_pop_length [OF pop] by simp
  have least: "\<forall>y \<in># mset q. expiry_time item \<le> expiry_time y"
    using timeouts.pop_least [OF _ pop] wf by (simp add: missing_wf_def)
  have tt: "timetable d (add_mset item (mset q)) i e" if "ihaves mm i = Some e" for i e
    using missing_timesD(4) [OF times that] Q by simp
  have rest: "timetable d (mset q) i e" if "ihaves mm i = Some e" "\<not> for_message i (entry_id_seqno e) item" for i e
    using tt [OF that(1)] that(2) by (simp add: timetable_other)
  note bounds = missing_timesD(1,3,4) [OF times]
  show ?thesis
  proof (cases "\<exists>t ihave e. item = MessageItem t (entry_id_seqno e) ihave \<and> ihaves mm (ihave_message_id ihave) = Some e")
    case True
    then obtain t ihave e where item: "item = MessageItem t (entry_id_seqno e) ihave"
      and e: "ihaves mm (ihave_message_id ihave) = Some e" by blast
    let ?i = "ihave_message_id ihave"
    obtain e' q' where mm': "mm' = mm\<lparr>timeout_queue := q', ihaves := (ihaves mm)(?i \<mapsto> e')\<rparr>"
      and e': "owners e' = owners e - 1" "entry_id_seqno e' = entry_id_seqno e" "next_expiry e' = next_expiry e"
      and q': "q' = q \<or> q' = heap_push expiry_time (EntryItem (next_expiry e) (entry_id_seqno e) ?i) q"
      using expire e by (auto simp: item expire_item_def Let_def split: if_splits)
    have push: "timetable d (mset q') i y \<longleftrightarrow> timetable d (mset q) i y" for i y
      using q' by (auto simp: mset_heap_push timetable_other)
    have "timetable d (mset q) ?i e'"
      using timetable_pop [OF tt [OF e] _ least e'] by (simp add: item)
    moreover have "timetable d (mset q) j y" if "ihaves mm j = Some y" "j \<noteq> ?i" for j y
      using that by (intro rest) (auto simp: item)
    moreover have "length (heap_push expiry_time y q) = Suc (length q)" for y
      using arg_cong [OF mset_heap_push [of expiry_time y q], of size] by (simp only: size_mset size_add_mset)
    then have "length q' \<le> K" using q' len by auto
    moreover have "expiry_time y \<le> T + Suc K * d" if "y \<in> set q'" for y
      using that q' bounds(2) [OF subsetD [OF sub]] bounds(3) [OF e] by auto
    ultimately show ?thesis using bounds e e'(3) push
      by (auto simp: missing_times_def mm' split: if_splits)
  next
    case False
    then have kept: "mm' = mm\<lparr>timeout_queue := q\<rparr> \<or> (\<exists>j. mm' = mm\<lparr>timeout_queue := q, ihaves := (ihaves mm)(j := None)\<rparr>)"
      using expire by (auto simp: expire_item_def Let_def split: option.splits if_splits queue_item.splits)
    have "timetable d (mset q) i e" if "ihaves mm i = Some e" for i e
      using that False by (intro rest) (auto elim!: for_message.elims)
    then have "missing_times K T d (mm\<lparr>timeout_queue := q\<rparr>)"
      using bounds sub len by (auto simp: missing_times_def)
    then show ?thesis using kept by (auto simp: missing_times_def split: if_splits)
  qed
qed

lemma missing_times_pop:
  "pop_expired clock mm = Some (r, mm') \<Longrightarrow> missing_wf mm \<Longrightarrow> missing_times K T d mm \<Longrightarrow> missing_times K T d mm'"
proof (induction clock mm rule: pop_expired.induct)
  case (1 clock mm)
  show ?case
  proof (cases "\<exists>x. heap_peek (timeout_queue mm) = Some x \<and> expiry_time x \<le> clock_now clock")
    case False
    then have "mm' = mm"
      using "1.prems" by (subst (asm) pop_expired.simps; auto split: option.splits)+
    with "1.prems" show ?thesis by simp
  next
    case True
    then obtain x where x: "heap_peek (timeout_queue mm) = Some x" "expiry_time x \<le> clock_now clock" by blast
    then obtain item q r1 mm1 where pop: "heap_pop expiry_time (timeout_queue mm) = Some (item, q)"
      and item: "expire_item item (mm\<lparr>timeout_queue := q\<rparr>) = Some (r1, mm1)"
      and rest: "case r1 of None \<Rightarrow> pop_expired clock mm1 = Some (r, mm') | Some _ \<Rightarrow> r = r1 \<and> mm' = mm1"
      using "1.prems" by (subst (asm) pop_expired.simps) (auto split: option.splits)
    have "missing_times K T d mm1" by (rule missing_times_item [OF "1.prems"(3,2) pop item])
    moreover have "missing_wf mm1"
      using expire_item_total [OF heap_pop_before_item [OF "1.prems"(2) pop]] item by (metis option.inject prod.inject)
    ultimately show ?thesis using rest "1.IH" [OF x(1) _ pop refl item] x(2) by (cases r1) auto
  qed
qed

section \<open>The operations of the node\<close>

definition pt_times :: "duration \<Rightarrow> nat \<Rightarrow> duration \<Rightarrow> ('n, 'm, 'p) pt_node \<Rightarrow> bool" where
  "pt_times d K T n \<longleftrightarrow> pt_wf n \<and> pt_clock n = T \<and> ihave_timeout (pt_opts n) = d \<and>
     missing_times K T d (missings n)"

lemma pt_times_frame:
  "pt_times d K T n \<Longrightarrow> pt_wf n' \<Longrightarrow> pt_clock n' = pt_clock n \<Longrightarrow> pt_opts n' = pt_opts n \<Longrightarrow>
     missings n' = missings n \<Longrightarrow> pt_times d K T n'"
  by (simp add: pt_times_def)

lemma pt_times_pop:
  assumes "pt_times d K T n" "pop_expired c (missings n) = Some (r, mm)"
  shows "pt_times d K T (n\<lparr>missings := mm\<rparr>)"
proof -
  have wf: "missing_wf (missings n)" using assms(1) by (simp add: pt_times_def pt_wf_def)
  from pop_expired_ok [OF this, of c] assms(2) have "missing_wf mm" by (auto simp: pop_ok_def)
  then show ?thesis using assms missing_times_pop [OF assms(2) wf]
    by (simp add: pt_times_def pt_wf_def known_peers_def)
qed

lemma send_graft_times: "pt_times d K T n \<Longrightarrow> pt_times d K T (snd (send_graft x n))"
  using send_graft_ok(1,2,5) [of n x "fst (send_graft x n)" "snd (send_graft x n)"]
  by (auto simp: pt_times_def pt_ext_def)

text \<open>
  An operation, the IHAVEs it takes in and the time it lets pass: the bounds move by these and
  the timetables are kept.
\<close>

locale timed_operation =
  fixes op :: "'x \<Rightarrow> ('n, 'm, 'p) pt_node \<Rightarrow> ('n, 'm, 'p) pt_node option"
    and asks :: "'x \<Rightarrow> nat" and time :: "'x \<Rightarrow> duration"
  assumes timed: "op x n = Some n' \<Longrightarrow> pt_times d K T n \<Longrightarrow> pt_times d (K + asks x) (T + time x) n'"
begin

lemma timed_run:
  "fold (\<lambda>x s. Option.bind s (op x)) xs (Some n) = Some n' \<Longrightarrow> pt_times d K T n \<Longrightarrow>
     pt_times d (K + sum_list (map asks xs)) (T + sum_list (map time xs)) n'"
proof (induction xs arbitrary: n K T)
  case (Cons x xs)
  have "fold (\<lambda>x s. Option.bind s (op x)) xs None = None" by (induction xs) simp_all
  then obtain m where "op x n = Some m" using Cons.prems(1) by (cases "op x n") simp_all
  with Cons timed show ?case by (simp flip: add.assoc)
qed simp

end

interpretation expiring: timed_operation "\<lambda>(_ :: unit). handle_expiration" "\<lambda>_. 0" "\<lambda>_. 0"
proof
  fix n n' :: "('a, 'b, 'c) pt_node" and d K T
  have "handle_expiration n = Some n' \<Longrightarrow> pt_times d K T n \<Longrightarrow> pt_times d K T n'"
  proof (induction n rule: handle_expiration.induct)
    case (1 n)
    obtain r mm where pop: "pop_expired (pt_clock n) (missings n) = Some (r, mm)"
      using "1.prems"(1) by (subst (asm) handle_expiration.simps) (auto split: option.splits)
    note mm = pt_times_pop [OF "1.prems"(2) pop]
    show ?case
    proof (cases r)
      case None
      then show ?thesis using pop "1.prems"(1) mm by (subst (asm) handle_expiration.simps) simp
    next
      case (Some x)
      then have "handle_expiration (snd (send_graft x (n\<lparr>missings := mm\<rparr>))) = Some n'"
        using pop "1.prems"(1) by (subst (asm) handle_expiration.simps) simp
      then show ?thesis using "1.IH" [OF pop refl Some] send_graft_times [OF mm] by blast
    qed
  qed
  then show "handle_expiration n = Some n' \<Longrightarrow> pt_times d K T n \<Longrightarrow> pt_times d (K + 0) (T + 0) n'" by simp
qed

interpretation draining: timed_operation "\<lambda>(_ :: unit). drain_until_graft" "\<lambda>_. 0" "\<lambda>_. 0"
proof
  fix n n' :: "('a, 'b, 'c) pt_node" and d K T
  have "drain_until_graft n = Some n' \<Longrightarrow> pt_times d K T n \<Longrightarrow> pt_times d K T n'"
  proof (induction n rule: drain_until_graft.induct)
    case (1 n)
    obtain r mm where pop: "pop_expired clock_max (missings n) = Some (r, mm)"
      using "1.prems"(1) by (subst (asm) drain_until_graft.simps) (auto split: option.splits)
    note mm = pt_times_pop [OF "1.prems"(2) pop]
    show ?case
    proof (cases r)
      case None
      then show ?thesis using pop "1.prems"(1) mm by (subst (asm) drain_until_graft.simps) simp
    next
      case (Some x)
      obtain b m where m: "send_graft x (n\<lparr>missings := mm\<rparr>) = (b, m)" by fastforce
      then have "pt_times d K T m" using send_graft_times [OF mm, of x] by simp
      moreover have "if b then n' = m else drain_until_graft m = Some n'"
        using pop Some m "1.prems"(1) by (subst (asm) drain_until_graft.simps) (auto split: bool.splits)
      ultimately show ?thesis using "1.IH" [OF pop refl Some] m by (auto split: if_splits)
    qed
  qed
  then show "drain_until_graft n = Some n' \<Longrightarrow> pt_times d K T n \<Longrightarrow> pt_times d (K + 0) (T + 0) n'" by simp
qed

text \<open>What an input asks and how far it moves the clock.\<close>

fun input_asks :: "('n, 'm, 'p) pt_input \<Rightarrow> nat" where
  "input_asks (PtReceive (Ihave y)) = 1"
| "input_asks _ = 0"

fun input_time :: "('n, 'm, 'p) pt_input \<Rightarrow> duration" where
  "input_time (PtTick d) = d"
| "input_time _ = 0"

interpretation receiving: timed_operation
  "\<lambda>(I, m) n. map_option snd (pt_apply I (PtReceive m) n)" "\<lambda>(I, m). input_asks (PtReceive m)" "\<lambda>_. 0"
proof
  fix x :: "('a, 'b) iter_ops \<times> ('a, 'b, 'c) pt_message" and n n' :: "('a, 'b, 'c) pt_node" and d K T
  obtain I m where x: "x = (I, m)" by (cases x)
  assume "(case x of (I, m) \<Rightarrow> \<lambda>n. map_option snd (pt_apply I (PtReceive m) n)) n = Some n'"
    and n: "pt_times d K T n"
  then obtain out where app: "pt_apply I (PtReceive m) n = Some (out, n')" by (auto simp: x)
  have wf: "pt_wf n'" using pt_apply_step(1) [OF _ app] n by (simp add: pt_times_def)
  obtain b where run: "pt_handle_protocol_message I m n = Some (b, n')" using app by auto
  have times: "missing_times K T d (missings n)" "ihave_timeout (pt_opts n) = d" "missing_wf (missings n)" "pt_clock n = T"
    using n by (simp_all add: pt_times_def pt_wf_def)
  have "pt_clock n' = T \<and> ihave_timeout (pt_opts n') = d \<and>
      missing_times (K + input_asks (PtReceive m)) T d (missings n')"
  proof (cases "is_known_node (pt_sender m) n")
    case False
    then show ?thesis using run times by (auto simp: pt_handle_protocol_message_def intro: missing_times_mono)
  next
    case True
    show ?thesis
    proof (cases m)
      case (Gossip g)
      then have "n' = handle_gossip I g n" using run True by (simp add: pt_handle_protocol_message_def)
      then show ?thesis using times Gossip
        by (cases "msg_id (gossip_message g) \<in> dom (messages n)")
          (auto simp: handle_gossip_duplicate handle_gossip_fresh missing_times_remove)
    next
      case (Ihave y)
      then have run': "handle_ihave y n = Some n'" using run True by (auto simp: pt_handle_protocol_message_def)
      show ?thesis
      proof (cases "ihave_message_id y \<in> dom (messages n)")
        case False
        then obtain z mm where "missing_push z (pt_clock n) (ihave_timeout (pt_opts n)) (missings n) = Some mm"
          "n' = n\<lparr>missings := mm\<rparr>" using run' by (auto simp: handle_ihave_def Let_def)
        then show ?thesis using missing_times_push [OF times(3,1)] times(2,4) Ihave by (auto simp: clock_now_def)
      next
        case True
        then show ?thesis using run' times Ihave by (auto simp: handle_ihave_def intro: missing_times_mono)
      qed
    next
      case (Graft g)
      then show ?thesis using run True times
        by (auto simp: pt_handle_protocol_message_def handle_graft_def make_eager_def queue_defs Let_def
            split: option.splits)
    next
      case (Prune p)
      then show ?thesis using run True times
        by (auto simp: pt_handle_protocol_message_def handle_prune_def make_lazy_def)
    qed
  qed
  then show "pt_times d (K + (case x of (I, m) \<Rightarrow> input_asks (PtReceive m))) (T + 0) n'"
    using wf by (simp add: pt_times_def x)
qed

interpretation going_down: timed_operation handle_neighbor_down "\<lambda>_. 0" "\<lambda>_. 0"
proof
  fix p and n n' :: "('a, 'b, 'c) pt_node" and d K T
  assume run: "handle_neighbor_down p n = Some n'" and n: "pt_times d K T n"
  let ?n = "n\<lparr>eager_push_peers := eager_push_peers n - {p}, lazy_push_peers := lazy_push_peers n - {p}\<rparr>"
  have "pt_times d K T ?n" using n by (auto simp: pt_times_def pt_wf_def known_peers_def)
  moreover have "n' = n \<or> n' = ?n \<or> drain_until_graft ?n = Some n'"
    using run by (auto simp: handle_neighbor_down_def Let_def split: if_splits)
  ultimately show "pt_times d (K + 0) (T + 0) n'" using n draining.timed [of ?n n' d K T] by auto
qed

interpretation using_node: timed_operation "\<lambda>(I, x) n. map_option snd (pt_apply I x n)"
  "\<lambda>(I, x). input_asks x" "\<lambda>(I, x). input_time x"
proof
  fix y :: "('a, 'b) iter_ops \<times> ('a, 'b, 'c) pt_input" and n n' :: "('a, 'b, 'c) pt_node" and d K T
  obtain I x where y: "y = (I, x)" by (cases y)
  assume "(case y of (I, x) \<Rightarrow> \<lambda>n. map_option snd (pt_apply I x n)) n = Some n'" and n: "pt_times d K T n"
  then obtain out where app: "pt_apply I x n = Some (out, n')" by (auto simp: y)
  have wf: "pt_wf n'" using pt_apply_step(1) [OF _ app] n by (simp add: pt_times_def)
  have "pt_times d (K + input_asks x) (T + input_time x) n'"
  proof (cases x)
    case (PtBroadcast m)
    then show ?thesis using app pt_times_frame [OF n wf] by (auto simp: broadcast_message_eq)
  next
    case (PtForget i)
    then show ?thesis using app pt_times_frame [OF n wf] by (auto simp: forget_message_def)
  next
    case PtPoll
    then obtain a where "pt_poll_action n = Some (a, n')" using app by auto
    then obtain m where "handle_expiration n = Some m" "n' = m\<lparr>pt_actions := tl (pt_actions m)\<rparr>"
      by (auto simp: pt_poll_action_expiration)
    then show ?thesis using expiring.timed [of n m d K T] n PtPoll by (simp add: pt_times_def)
  next
    case (PtReceive m)
    then show ?thesis using app n receiving.timed [of "(I, m)" n n' d K T] by (auto simp: case_prod_beta)
  next
    case (PtUp p)
    then show ?thesis using app pt_times_frame [OF n wf] by (auto simp: handle_neighbor_up_eq)
  next
    case (PtDown p)
    then show ?thesis using app n going_down.timed [of p n n' d K T] by auto
  next
    case (PtTick x)
    then have "n' = n\<lparr>pt_clock := T + x\<rparr>"
      using app n by (auto simp: pt_tick_def clock_tick_def duration_add_def pt_times_def split: if_splits)
    then show ?thesis using n wf missing_times_mono [of K T _ "missings n" K "T + x"]
      by (simp add: pt_times_def PtTick)
  qed
  then show "pt_times d (K + (case y of (I, x) \<Rightarrow> input_asks x)) (T + (case y of (I, x) \<Rightarrow> input_time x)) n'"
    by (simp add: y)
qed

section \<open>Runs\<close>

definition asked :: "('n, 'm, 'p) pt_input list \<Rightarrow> nat" where
  "asked xs = sum_list (map input_asks xs)"

definition elapsed :: "('n, 'm, 'p) pt_input list \<Rightarrow> duration" where
  "elapsed xs = sum_list (map input_time xs)"

lemma pt_run_fold:
  "pt_run I xs n = Some (out, n') \<Longrightarrow>
     fold (\<lambda>x s. Option.bind s (case x of (I, x) \<Rightarrow> \<lambda>n. map_option snd (pt_apply I x n))) (map (Pair I) xs) (Some n) = Some n'"
  by (induction xs arbitrary: n out) (auto simp: bind_eq_Some_conv split: prod.splits)

lemma pt_run_times:
  assumes "pt_run I xs n = Some (out, n')" "pt_times d K T n"
  shows "pt_times d (K + asked xs) (T + elapsed xs) n'"
  using using_node.timed_run [OF pt_run_fold [OF assms(1)] assms(2)]
  by (simp add: asked_def elapsed_def comp_def)

text \<open>With room for what the inputs ask and for the time they take, no operation panics.\<close>

lemma pt_apply_room:
  fixes n :: "('n, 'm, 'p) pt_node"
  assumes "pt_times d K T n" "K + input_asks x < 2 ^ 64"
    and "T + input_time x + Suc (K + input_asks x) * d \<le> DURATION_MAX"
  shows "pt_apply I x n \<noteq> None"
proof
  assume none: "pt_apply I x n = None"
  have n: "pt_wf n" "pt_clock n = T" "missing_times K T d (missings n)" "ihave_timeout (pt_opts n) = d"
    using assms(1) by (simp_all add: pt_times_def)
  have later: "next_expiry e + d \<le> T + Suc (Suc K) * d \<and> owners e \<le> K"
    if e: "ihaves (missings n) i = Some e" for i e
  proof -
    have "timers_ok (mset (timeout_queue (missings n))) i e" using n(1) e by (simp add: pt_wf_def missing_wf_def)
    then have "owners e = size (filter_mset (for_message i (entry_id_seqno e)) (mset (timeout_queue (missings n))))"
      by (simp add: timers_ok_def)
    also have "\<dots> \<le> length (timeout_queue (missings n))" by (metis size_filter_mset_lesseq size_mset)
    finally show ?thesis using missing_timesD(2) [OF n(3)] missing_timesD(4) [OF n(3) e] by simp
  qed
  from pt_only_overflow [OF n(1) none] show False
  proof (elim disjE exE conjE)
    fix t assume "x = PtTick t" "DURATION_MAX < pt_clock n + t"
    then show False using assms(3) n(2) by simp
  next
    fix ihave assume x: "x = PtReceive (Ihave ihave)"
      and "DURATION_MAX < pt_clock n + 2 * ihave_timeout (pt_opts n)"
    moreover have "T + 2 * d \<le> T + Suc (Suc K) * d" by simp
    ultimately show False using assms(3) n(2,4) by simp
  next
    fix ihave e assume x: "x = PtReceive (Ihave ihave)" and e: "ihaves (missings n) (ihave_message_id ihave) = Some e"
      and "DURATION_MAX < next_expiry e + ihave_timeout (pt_opts n)"
    then show False using assms(3) n(4) later [OF e] by simp
  next
    fix ihave e assume x: "x = PtReceive (Ihave ihave)" and e: "ihaves (missings n) (ihave_message_id ihave) = Some e"
      and "2 ^ 64 \<le> Suc (owners e)"
    then show False using assms(2) later [OF e] by simp
  next
    fix ihave assume "x = PtReceive (Ihave ihave)" "2 ^ 64 \<le> Suc (entry_seqno (missings n))"
    then show False using assms(2) missing_timesD(1) [OF n(3)] by simp
  qed
qed

lemma asked_elapsed_simps [simp]:
  "asked [] = 0" "asked (x # xs) = input_asks x + asked xs" "elapsed [] = 0" "elapsed (x # xs) = input_time x + elapsed xs"
  by (simp_all add: asked_def elapsed_def)

lemma pt_run_room:
  assumes "pt_times d K T n" "K + asked xs < 2 ^ 64"
    and "T + elapsed xs + Suc (K + asked xs) * d \<le> DURATION_MAX"
  shows "\<exists>out n'. pt_run I xs n = Some (out, n')"
  using assms
proof (induction xs arbitrary: n K T)
  case (Cons x xs)
  have "T + input_time x + Suc (K + input_asks x) * d \<le> T + elapsed (x # xs) + Suc (K + asked (x # xs)) * d"
    by (intro add_mono mult_le_mono) simp_all
  then have "T + input_time x + Suc (K + input_asks x) * d \<le> DURATION_MAX" using Cons.prems(3) by (rule le_trans)
  then obtain o1 m where m: "pt_apply I x n = Some (o1, m)"
    using pt_apply_room [OF Cons.prems(1)] Cons.prems(2) by fastforce
  have "pt_times d (K + input_asks x) (T + input_time x) m"
    using using_node.timed [of "(I, x)" n m d K T] m Cons.prems(1) by simp
  then have "\<exists>out n'. pt_run I xs m = Some (out, n')"
    using Cons.IH [of "K + input_asks x" "T + input_time x" m] Cons.prems(2,3) by (simp add: add.assoc)
  then show ?case using m by (auto simp: bind_eq_Some_conv)
qed simp

text \<open>
  C13. How long a node waits, and how much room it needs.  Take any use of a Plumtree node, in which
  it receives \<open>K\<close> IHAVEs and \<open>T\<close> nanoseconds pass.  It returns when \<open>K\<close> fits a 64-bit counter and
  \<open>T\<close> and \<open>K + 1\<close> timeouts fit a \<^verbatim>\<open>Duration\<close>.  When it returns, the clock shows \<open>T\<close>; no more than \<open>K\<close>
  timers are pending and \<open>K\<close> entries were made; no timer and no entry is set for later than \<open>K + 1\<close>
  timeouts from now; and for every awaited message the owners that are still to be asked have
  their turns at intervals of one timeout, the last of them one timeout before the entry would
  be given up.
\<close>

theorem pt_counters_fit:
  fixes opts :: pt_options
  defines "d \<equiv> ihave_timeout opts"
  shows "(asked xs < 2 ^ 64 \<and> elapsed xs + Suc (asked xs) * d \<le> DURATION_MAX \<longrightarrow>
      (\<exists>out n. pt_run I xs (pt_with_options p opts :: ('n, 'm, 'p) pt_node) = Some (out, n))) \<and>
    (\<forall>out n. pt_run I xs (pt_with_options p opts :: ('n, 'm, 'p) pt_node) = Some (out, n) \<longrightarrow>
      pt_clock n = elapsed xs \<and> entry_seqno (missings n) \<le> asked xs \<and>
      length (timeout_queue (missings n)) \<le> asked xs \<and>
      (\<forall>x \<in> set (timeout_queue (missings n)). expiry_time x \<le> elapsed xs + Suc (asked xs) * d) \<and>
      (\<forall>i e. ihaves (missings n) i = Some e \<longrightarrow> next_expiry e \<le> elapsed xs + Suc (asked xs) * d \<and>
         (\<exists>t. next_expiry e = t + owners e * d \<and>
            image_mset expiry_time (filter_mset (for_message i (entry_id_seqno e)) (mset (timeout_queue (missings n)))) =
              mset (map (\<lambda>j. t + j * d) [0..<owners e]))))"
proof -
  have new: "pt_times d 0 0 (pt_with_options p opts :: ('n, 'm, 'p) pt_node)"
    unfolding pt_times_def using missing_times_new
    by (intro conjI pt_with_options_wf) (simp_all add: pt_with_options_def clock_new_def d_def)
  have "pt_times d (asked xs) (elapsed xs) n"
    if "pt_run I xs (pt_with_options p opts :: ('n, 'm, 'p) pt_node) = Some (out, n)" for out n
    using pt_run_times [OF that new] by simp
  moreover have "\<exists>out n. pt_run I xs (pt_with_options p opts :: ('n, 'm, 'p) pt_node) = Some (out, n)"
    if "asked xs < 2 ^ 64" "elapsed xs + Suc (asked xs) * d \<le> DURATION_MAX"
    using pt_run_room [OF new] that by simp
  ultimately show ?thesis
    unfolding pt_times_def missing_times_def timetable_def by blast
qed

text \<open>Two owners of one message: the second has its turn half a second after the first.\<close>

theorem pt_counters_fit_witness:
  "\<exists>out n e t. pt_run sorted_iter [PtUp (1 :: nat), PtUp 2, PtReceive (Ihave (ihave_new 1 (7 :: nat) 0 False)),
       PtReceive (Ihave (ihave_new 2 7 0 False)), PtTick (from_millis 600)]
     (pt_new 0 :: (nat, nat, string) pt_node) = Some (out, n) \<and> pt_clock n = from_millis 600 \<and>
     ihaves (missings n) 7 = Some e \<and> next_expiry e = t + 2 * from_millis 500 \<and>
     image_mset expiry_time (filter_mset (for_message 7 (entry_id_seqno e)) (mset (timeout_queue (missings n)))) =
       {#t, t + from_millis 500#}"
proof -
  let ?xs = "[PtUp (1 :: nat), PtUp 2, PtReceive (Ihave (ihave_new 1 (7 :: nat) 0 False)),
       PtReceive (Ihave (ihave_new 2 7 0 False)), PtTick (from_millis 600)]"
  obtain out e and n :: "(nat, nat, string) pt_node"
    where run: "pt_run sorted_iter ?xs (pt_with_options 0 default_pt_options) = Some (out, n)"
      and e: "ihaves (missings n) 7 = Some e" "owners e = 2"
    by (simp add: pt_evaluate from_millis_def)
  let ?d = "ihave_timeout default_pt_options"
  have T: "elapsed ?xs = from_millis 600" and d: "?d = from_millis 500" by (simp_all add: default_pt_options_def)
  note res = conjunct2 [OF pt_counters_fit [of ?xs default_pt_options sorted_iter 0], rule_format, OF run]
  have clock: "pt_clock n = from_millis 600" using conjunct1 [OF res] unfolding T .
  have all: "\<exists>t. next_expiry e = t + owners e * ?d \<and>
      image_mset expiry_time (filter_mset (for_message 7 (entry_id_seqno e)) (mset (timeout_queue (missings n)))) =
        mset (map (\<lambda>j. t + j * ?d) [0..<owners e])"
    using conjunct2 [OF conjunct2 [OF conjunct2 [OF conjunct2 [OF res]]]] e(1) by blast
  from all obtain t where "next_expiry e = t + 2 * from_millis 500"
    "image_mset expiry_time (filter_mset (for_message 7 (entry_id_seqno e)) (mset (timeout_queue (missings n)))) =
       {#t, t + from_millis 500#}"
    unfolding e(2) d by (auto simp: numeral_2_eq_2)
  with run e clock show ?thesis unfolding pt_new_def by blast
qed

end
