(* ===== verification/Debug_Text.thy ===== *)
theory Debug_Text
  imports Prelude
begin

text \<open>
  How values are written by \<^verbatim>\<open>{}\<close> and \<^verbatim>\<open>{:?}\<close> of the standard library: numbers in decimal, truth values,
  options and lists.
\<close>

fun show_nat :: "nat \<Rightarrow> string" where
  "show_nat n = (if n < 10 then [char_of (48 + n)] else show_nat (n div 10) @ [char_of (48 + n mod 10)])"

declare show_nat.simps [simp del]

definition show_u16 :: "u16 \<Rightarrow> string" where
  "show_u16 r = show_nat (unat r)"

definition show_bool :: "bool \<Rightarrow> string" where
  "show_bool b = (if b then ''true'' else ''false'')"

definition debug_option :: "('a \<Rightarrow> string) \<Rightarrow> 'a option \<Rightarrow> string" where
  "debug_option d x = (case x of None \<Rightarrow> ''None'' | Some y \<Rightarrow> ''Some('' @ d y @ '')'')"

fun debug_items :: "('a \<Rightarrow> string) \<Rightarrow> 'a list \<Rightarrow> string" where
  "debug_items d [] = []"
| "debug_items d [x] = d x"
| "debug_items d (x # y # xs) = d x @ '', '' @ debug_items d (y # xs)"

definition debug_list :: "('a \<Rightarrow> string) \<Rightarrow> 'a list \<Rightarrow> string" where
  "debug_list d xs = ''['' @ debug_items d xs @ '']''"

section \<open>Text that can be told apart\<close>

definition read_nat :: "string \<Rightarrow> nat" where
  "read_nat s = foldl (\<lambda>v c. 10 * v + (of_char c - 48)) 0 s"

lemma read_show_nat: "read_nat (show_nat n) = n"
proof (induction n rule: show_nat.induct)
  case (1 n)
  have digit: "of_char (char_of (48 + d) :: char) - 48 = d" if "d < 10" for d :: nat using that by simp
  show ?case
  proof (cases "n < 10")
    case True
    then show ?thesis using digit [of n] by (simp add: show_nat.simps [of n] read_nat_def)
  next
    case False
    then have "read_nat (show_nat n) = 10 * (n div 10) + n mod 10"
      using 1 digit [of "n mod 10"] by (simp add: show_nat.simps [of n] read_nat_def)
    then show ?thesis by simp
  qed
qed

lemma show_nat_digits: "c \<in> set (show_nat n) \<Longrightarrow> of_char c \<in> {48 ..< 58 :: nat}"
proof (induction n rule: show_nat.induct)
  case (1 n)
  show ?case
  proof (cases "n < 10")
    case True
    then show ?thesis using "1.prems" by (simp add: show_nat.simps [of n])
  next
    case False
    then show ?thesis using 1 by (auto simp: show_nat.simps [of n])
  qed
qed

lemma cut_at: "c \<notin> set x \<Longrightarrow> c \<notin> set y \<Longrightarrow> x @ c # r = y @ c # s \<longleftrightarrow> x = y \<and> r = s"
proof (induction x arbitrary: y)
  case Nil
  then show ?case by (cases y) auto
next
  case (Cons a x)
  then show ?case by (cases y) auto
qed

lemma show_nat_inject: "show_nat a = show_nat b \<longleftrightarrow> a = b"
  by (metis read_show_nat)

lemma show_u16_cut:
  assumes "c = CHR '' '' \<or> c = CHR '',''"
  shows "show_u16 a @ c # r = show_u16 b @ c # s \<longleftrightarrow> a = b \<and> r = s"
proof -
  have "c \<notin> set (show_u16 a)" for a using assms show_nat_digits [of c "unat a"] by (auto simp: show_u16_def)
  then show ?thesis using show_nat_inject by (simp add: cut_at show_u16_def word_unat_eq_iff)
qed

lemma show_bool_cut: "show_bool a @ r = show_bool b @ s \<longleftrightarrow> a = b \<and> r = s"
  by (auto simp: show_bool_def)

text \<open>A rendering none of whose texts is the beginning of another one: quoted or bracketed text, for example.\<close>

definition delimited :: "('a \<Rightarrow> string) \<Rightarrow> bool" where
  "delimited d \<longleftrightarrow> (\<forall>x y r s. d x @ r = d y @ s \<longrightarrow> x = y \<and> r = s)"

lemma delimited_cut: "delimited d \<Longrightarrow> d x @ r = d y @ s \<longleftrightarrow> x = y \<and> r = s"
  unfolding delimited_def by blast

lemma debug_option_cut: "delimited d \<Longrightarrow> debug_option d x @ r = debug_option d y @ s \<longleftrightarrow> x = y \<and> r = s"
  by (auto simp: debug_option_def delimited_cut split: option.split)

text \<open>Lists: after an item comes a comma or the closing bracket, with which no item begins.\<close>

lemma debug_items_cut:
  assumes d: "delimited d" and open_: "\<And>x. d x \<noteq> [] \<and> hd (d x) \<noteq> CHR '']''"
  shows "debug_items d xs @ CHR '']'' # r = debug_items d ys @ CHR '']'' # s \<longleftrightarrow> xs = ys \<and> r = s"
proof -
  have front: "d x @ u \<noteq> CHR '']'' # v" "CHR '']'' # v \<noteq> d x @ u" for x u v
    using open_ [of x] by (cases "d x"; auto)+
  show ?thesis
  proof (induction xs arbitrary: ys)
    case Nil
    show ?case by (cases "(d, ys)" rule: debug_items.cases) (auto simp: front)
  next
    case (Cons x xs)
    then show ?case
      by (cases "(d, ys)" rule: debug_items.cases; cases xs) (auto simp: front delimited_cut [OF d])
  qed
qed

lemma debug_list_inject:
  assumes "delimited d" and "\<And>x. d x \<noteq> [] \<and> hd (d x) \<noteq> CHR '']''"
  shows "debug_list d xs = debug_list d ys \<longleftrightarrow> xs = ys"
  using debug_items_cut [OF assms, of xs "[]" ys "[]"] by (simp add: debug_list_def)

end
