(* ===== verification/Plumtree_Text.thy ===== *)
theory Plumtree_Text
  imports Plumtree_Types Debug_Text
begin

text \<open>
  What \<^verbatim>\<open>plumtree/src/message.rs\<close> and \<^verbatim>\<open>action.rs\<close> write by hand for messages and actions because they are
  parametric in the associated types of \<^verbatim>\<open>System\<close>: copying, comparison, the conversions into protocol
  messages, and the text for debugging.  The operations on the associated types are the argument \<open>parts\<close>.
\<close>

record ('n, 'm, 'p) parts =
  clone_node :: "'n \<Rightarrow> 'n"
  clone_id :: "'m \<Rightarrow> 'm"
  clone_payload :: "'p \<Rightarrow> 'p"
  eq_id :: "'m \<Rightarrow> 'm \<Rightarrow> bool"
  eq_payload :: "'p \<Rightarrow> 'p \<Rightarrow> bool"
  debug_node :: "'n \<Rightarrow> string"
  debug_id :: "'m \<Rightarrow> string"
  debug_payload :: "'p \<Rightarrow> string"

text \<open>A copy equals the original, a comparison decides equality, and no rendering begins with another.\<close>

definition parts_ok :: "('n, 'm, 'p) parts \<Rightarrow> bool" where
  "parts_ok P \<longleftrightarrow> (\<forall>x. clone_node P x = x) \<and> (\<forall>x. clone_id P x = x) \<and> (\<forall>x. clone_payload P x = x) \<and>
     (\<forall>x y. eq_id P x y \<longleftrightarrow> x = y) \<and> (\<forall>x y. eq_payload P x y \<longleftrightarrow> x = y) \<and>
     delimited (debug_node P) \<and> delimited (debug_id P) \<and> delimited (debug_payload P)"

section \<open>Copies and comparison\<close>

definition message_clone :: "('n, 'm, 'p) parts \<Rightarrow> ('m, 'p) app_message \<Rightarrow> ('m, 'p) app_message" where
  "message_clone P m = \<lparr>msg_id = clone_id P (msg_id m), msg_payload = clone_payload P (msg_payload m)\<rparr>"

definition message_eq :: "('n, 'm, 'p) parts \<Rightarrow> ('m, 'p) app_message \<Rightarrow> ('m, 'p) app_message \<Rightarrow> bool" where
  "message_eq P a b \<longleftrightarrow> eq_id P (msg_id a) (msg_id b) \<and> eq_payload P (msg_payload a) (msg_payload b)"

definition gossip_clone :: "('n, 'm, 'p) parts \<Rightarrow> ('n, 'm, 'p) gossip_message \<Rightarrow> ('n, 'm, 'p) gossip_message" where
  "gossip_clone P g =
     \<lparr>gossip_sender = clone_node P (gossip_sender g), gossip_message = message_clone P (gossip_message g),
      gossip_round = gossip_round g\<rparr>"

definition ihave_clone :: "('n, 'm, 'p) parts \<Rightarrow> ('n, 'm) ihave_message \<Rightarrow> ('n, 'm) ihave_message" where
  "ihave_clone P x =
     \<lparr>ihave_sender = clone_node P (ihave_sender x), ihave_message_id = clone_id P (ihave_message_id x),
      ihave_round = ihave_round x, ihave_realtime = ihave_realtime x\<rparr>"

definition graft_clone :: "('n, 'm, 'p) parts \<Rightarrow> ('n, 'm) graft_message \<Rightarrow> ('n, 'm) graft_message" where
  "graft_clone P g =
     \<lparr>graft_sender = clone_node P (graft_sender g), graft_message_id = map_option (clone_id P) (graft_message_id g),
      graft_round = graft_round g\<rparr>"

definition prune_clone :: "('n, 'm, 'p) parts \<Rightarrow> 'n prune_message \<Rightarrow> 'n prune_message" where
  "prune_clone P p = \<lparr>prune_sender = clone_node P (prune_sender p)\<rparr>"

definition from_gossip :: "('n, 'm, 'p) gossip_message \<Rightarrow> ('n, 'm, 'p) pt_message" where
  "from_gossip g = Gossip g"

definition from_ihave :: "('n, 'm) ihave_message \<Rightarrow> ('n, 'm, 'p) pt_message" where
  "from_ihave x = Ihave x"

definition from_graft :: "('n, 'm) graft_message \<Rightarrow> ('n, 'm, 'p) pt_message" where
  "from_graft g = Graft g"

definition from_prune :: "'n prune_message \<Rightarrow> ('n, 'm, 'p) pt_message" where
  "from_prune p = Prune p"

definition pt_message_clone :: "('n, 'm, 'p) parts \<Rightarrow> ('n, 'm, 'p) pt_message \<Rightarrow> ('n, 'm, 'p) pt_message" where
  "pt_message_clone P m =
     (case m of
        Gossip g \<Rightarrow> from_gossip (gossip_clone P g)
      | Ihave x \<Rightarrow> from_ihave (ihave_clone P x)
      | Graft g \<Rightarrow> from_graft (graft_clone P g)
      | Prune p \<Rightarrow> from_prune (prune_clone P p))"

section \<open>Text for debugging\<close>

definition message_debug :: "('n, 'm, 'p) parts \<Rightarrow> ('m, 'p) app_message \<Rightarrow> string" where
  "message_debug P m =
     ''Message { id: '' @ debug_id P (msg_id m) @ '', payload: '' @ debug_payload P (msg_payload m) @ '' }''"

definition gossip_debug :: "('n, 'm, 'p) parts \<Rightarrow> ('n, 'm, 'p) gossip_message \<Rightarrow> string" where
  "gossip_debug P g =
     ''GossipMessage { sender: '' @ debug_node P (gossip_sender g) @ '', message: '' @
     message_debug P (gossip_message g) @ '', round: '' @ show_u16 (gossip_round g) @ '' }''"

definition ihave_debug :: "('n, 'm, 'p) parts \<Rightarrow> ('n, 'm) ihave_message \<Rightarrow> string" where
  "ihave_debug P x =
     ''IhaveMessage { sender: '' @ debug_node P (ihave_sender x) @ '', message_id: '' @
     debug_id P (ihave_message_id x) @ '', round: '' @ show_u16 (ihave_round x) @
     '', realtime: '' @ show_bool (ihave_realtime x) @ '' }''"

definition graft_debug :: "('n, 'm, 'p) parts \<Rightarrow> ('n, 'm) graft_message \<Rightarrow> string" where
  "graft_debug P g =
     ''GraftMessage { sender: '' @ debug_node P (graft_sender g) @ '', message_id: '' @
     debug_option (debug_id P) (graft_message_id g) @ '', round: '' @ show_u16 (graft_round g) @ '' }''"

definition prune_debug :: "('n, 'm, 'p) parts \<Rightarrow> 'n prune_message \<Rightarrow> string" where
  "prune_debug P p = ''PruneMessage { sender: '' @ debug_node P (prune_sender p) @ '' }''"

definition pt_message_debug :: "('n, 'm, 'p) parts \<Rightarrow> ('n, 'm, 'p) pt_message \<Rightarrow> string" where
  "pt_message_debug P m =
     (case m of
        Gossip g \<Rightarrow> ''Gossip('' @ gossip_debug P g @ '')''
      | Ihave x \<Rightarrow> ''Ihave('' @ ihave_debug P x @ '')''
      | Graft g \<Rightarrow> ''Graft('' @ graft_debug P g @ '')''
      | Prune p \<Rightarrow> ''Prune('' @ prune_debug P p @ '')'')"

definition action_debug :: "('n, 'm, 'p) parts \<Rightarrow> ('n, 'm, 'p) pt_action \<Rightarrow> string" where
  "action_debug P a =
     (case a of
        PtSend destination message \<Rightarrow>
          ''Send { destination: '' @ debug_node P destination @ '', message: '' @ pt_message_debug P message @ '' }''
      | Deliver message \<Rightarrow> ''Deliver { message: '' @ message_debug P message @ '' }'')"

definition action_queue_debug :: "('n, 'm, 'p) parts \<Rightarrow> ('n, 'm, 'p) action_queue \<Rightarrow> string" where
  "action_queue_debug P q = ''ActionQueue('' @ debug_list (action_debug P) q @ '')''"

section \<open>Copies are equal, and texts tell messages apart\<close>

lemma message_clone_id: "parts_ok P \<Longrightarrow> message_clone P m = m"
  by (simp add: message_clone_def parts_ok_def)

lemma pt_message_clone_id: "parts_ok P \<Longrightarrow> pt_message_clone P m = m"
proof -
  assume P: "parts_ok P"
  then have "map_option (clone_id P) i = i" for i by (cases i) (simp_all add: parts_ok_def)
  with P show ?thesis
    by (cases m)
      (simp_all add: pt_message_clone_def gossip_clone_def ihave_clone_def graft_clone_def prune_clone_def
        from_gossip_def from_ihave_def from_graft_def from_prune_def message_clone_id, simp_all add: parts_ok_def)
qed

lemma message_debug_delimited: "parts_ok P \<Longrightarrow> delimited (message_debug P)"
  unfolding delimited_def
  by (auto simp: message_debug_def parts_ok_def delimited_cut intro: app_message.equality)

lemma gossip_debug_delimited: "parts_ok P \<Longrightarrow> delimited (gossip_debug P)"
  unfolding delimited_def
  by (auto simp: gossip_debug_def parts_ok_def delimited_cut delimited_cut [OF message_debug_delimited] show_u16_cut
      intro: gossip_message.equality)

lemma ihave_debug_delimited: "parts_ok P \<Longrightarrow> delimited (ihave_debug P)"
  unfolding delimited_def
  by (auto simp: ihave_debug_def parts_ok_def delimited_cut show_u16_cut show_bool_cut intro: ihave_message.equality)

lemma graft_debug_delimited: "parts_ok P \<Longrightarrow> delimited (graft_debug P)"
  unfolding delimited_def
  by (auto simp: graft_debug_def parts_ok_def delimited_cut debug_option_cut show_u16_cut intro: graft_message.equality)

lemma prune_debug_delimited: "parts_ok P \<Longrightarrow> delimited (prune_debug P)"
  unfolding delimited_def
  by (auto simp: prune_debug_def parts_ok_def delimited_cut intro: prune_message.equality)

lemma pt_message_debug_delimited: "parts_ok P \<Longrightarrow> delimited (pt_message_debug P)"
  unfolding delimited_def
  by (auto simp: pt_message_debug_def delimited_cut gossip_debug_delimited ihave_debug_delimited graft_debug_delimited
      prune_debug_delimited split: pt_message.splits)

lemma action_debug_delimited: "parts_ok P \<Longrightarrow> delimited (action_debug P)"
  unfolding delimited_def
  by (auto simp: action_debug_def delimited_cut pt_message_debug_delimited message_debug_delimited parts_ok_def
      split: pt_action.splits)

text \<open>
  Messages are copied and compared field by field.  With copies and comparisons of the associated
  types that are right, a copy of a message equals it and two messages compare equal exactly when they are; and with
  renderings of the associated types none of which begins with another, the text of a queue shows its actions.
\<close>

theorem messages_copied_and_shown:
  assumes "parts_ok P"
  shows "pt_message_clone P m = m \<and> (message_eq P a b \<longleftrightarrow> a = b) \<and>
    (action_queue_debug P p = action_queue_debug P q \<longleftrightarrow> p = q)"
proof (intro conjI)
  show "pt_message_clone P m = m" by (rule pt_message_clone_id [OF assms])
  show "message_eq P a b \<longleftrightarrow> a = b"
    using assms by (auto simp: message_eq_def parts_ok_def intro: app_message.equality)
  have "action_debug P x \<noteq> [] \<and> hd (action_debug P x) \<noteq> CHR '']''" for x
    by (simp add: action_debug_def split: pt_action.split)
  then show "action_queue_debug P p = action_queue_debug P q \<longleftrightarrow> p = q"
    using debug_list_inject [OF action_debug_delimited [OF assms]] by (simp add: action_queue_debug_def)
qed

definition bool_parts :: "(bool, bool, bool) parts" where
  "bool_parts = \<lparr>clone_node = id, clone_id = id, clone_payload = id, eq_id = (=), eq_payload = (=),
     debug_node = show_bool, debug_id = show_bool, debug_payload = show_bool\<rparr>"

theorem messages_copied_and_shown_witness:
  "pt_message_clone bool_parts (Prune \<lparr>prune_sender = True\<rparr>) = Prune \<lparr>prune_sender = True\<rparr> \<and>
   action_queue_debug bool_parts [PtSend True (Prune (prune_new False))] \<noteq>
   action_queue_debug bool_parts [PtSend True (Prune (prune_new True))]"
proof -
  have "parts_ok bool_parts" by (simp add: parts_ok_def bool_parts_def delimited_def show_bool_cut)
  note claim = messages_copied_and_shown [OF this]
  show ?thesis using claim [THEN conjunct1] claim [THEN conjunct2, THEN conjunct2] by (simp add: prune_new_def)
qed

end
