(* ===== verification/Identifier_Text.thy ===== *)
theory Identifier_Text
  imports Identifiers Debug_Text
begin

text \<open>
  The rest of \<^verbatim>\<open>node_id.rs\<close>: how keys and identifiers are written, the partial order of keys and the
  verification of signatures, and the random name of \<^verbatim>\<open>node.rs\<close>.  The text of a socket address, the
  check of a signature and the hash function are parameters.
\<close>

section \<open>Keys\<close>

definition pk_debug :: "('v, 's) crypto \<Rightarrow> 'v public_key \<Rightarrow> string" where
  "pk_debug C k = ''PublicKey('' @ hex_encode C (pk_as_bytes C k) @ '')''"

definition pk_partial_cmp :: "('v, 's) crypto \<Rightarrow> 'v public_key \<Rightarrow> 'v public_key \<Rightarrow> int option" where
  "pk_partial_cmp C a b = Some (pk_cmp C a b)"

definition local_node_id_new :: "'v public_key \<Rightarrow> 'v local_node_id" where
  "local_node_id_new k = LocalNodeId k"

definition local_node_id_as_bytes :: "('v, 's) crypto \<Rightarrow> 'v local_node_id \<Rightarrow> bytes" where
  "local_node_id_as_bytes C i = pk_as_bytes C (public i)"

text \<open>\<open>verify_strict v m s\<close> tells whether \<open>s\<close> is a signature of \<open>m\<close> under the key \<open>v\<close>.\<close>

definition local_node_id_verify ::
  "('v \<Rightarrow> bytes \<Rightarrow> 'g \<Rightarrow> bool) \<Rightarrow> 'v local_node_id \<Rightarrow> bytes \<Rightarrow> 'g \<Rightarrow> key_parsing_error + unit" where
  "local_node_id_verify verify_strict i m s =
     (if verify_strict (key_of (public i)) m s then Inr () else Inl SignatureError)"

section \<open>Identifiers\<close>

text \<open>\<^const>\<open>None\<close> is the panic of \<^const>\<open>local_node_id_short\<close>.\<close>

definition node_id_display ::
  "('v, 's) crypto \<Rightarrow> ('a \<Rightarrow> string) \<Rightarrow> ('a, 'v local_node_id) node_id \<Rightarrow> string option" where
  "node_id_display C debug_addr n =
     map_option (\<lambda>short. ''NodeId (address: '' @ debug_list debug_addr (addresses n) @ '', local_id: '' @ short @ '')'')
       (local_node_id_short C (local_id n))"

definition uuid :: "(bytes \<Rightarrow> string) \<Rightarrow> (nat \<Rightarrow> u8) \<Rightarrow> string" where
  "uuid sha256 rnd = sha256 (map rnd [0 ..< 32])"

section \<open>What is written\<close>

lemma hex_encode_inject: "crypto_ok C \<Longrightarrow> length a = length b \<Longrightarrow> hex_encode C a = hex_encode C b \<longleftrightarrow> a = b"
  unfolding crypto_ok_def by (metis option.inject)

lemma length_vk_as_bytes: "crypto_ok C \<Longrightarrow> length (vk_as_bytes C v) = 32"
  by (simp add: crypto_ok_def)

lemma pk_debug_inject: "crypto_ok C \<Longrightarrow> pk_debug C a = pk_debug C b \<longleftrightarrow> a = b"
  by (auto simp: pk_debug_def pk_as_bytes_def hex_encode_inject length_vk_as_bytes
      dest: vk_as_bytes_inj intro: public_key.expand)

text \<open>
  The text of a key shows the key, an identifier is always shown without a panic, with the first five digits of its
  key, and the partial order of keys is total.
\<close>

theorem identifiers_shown:
  assumes C: "crypto_ok C"
  shows "(pk_debug C a = pk_debug C b \<longleftrightarrow> a = b) \<and> pk_partial_cmp C a b \<noteq> None \<and>
    (\<exists>short. node_id_display C debug_addr n =
       Some (''NodeId (address: '' @ debug_list debug_addr (addresses n) @ '', local_id: '' @ short @ '')'') \<and>
       short = take 5 (local_node_id_display C (local_id n)) \<and> length short = 5)"
proof -
  have "length (local_node_id_display C (local_id n)) = 64"
    using C by (simp add: local_node_id_display_def pk_as_bytes_def crypto_ok_def)
  then show ?thesis
    by (simp add: pk_debug_inject [OF C] pk_partial_cmp_def node_id_display_def local_node_id_short_def)
qed

theorem identifiers_shown_witness:
  "pk_debug demo_crypto (PublicKey True) \<noteq> pk_debug demo_crypto (PublicKey False)"
  using identifiers_shown [OF demo_crypto_ok, of "PublicKey True" "PublicKey False", THEN conjunct1] by simp

end
