(* ===== verification/View_Models.thy ===== *)
theory View_Models
  imports Text_Input
begin

text \<open>
  The view models of the user interface (\<^verbatim>\<open>model/message_view_model.rs\<close>, \<^verbatim>\<open>log_view_model.rs\<close>,
  \<^verbatim>\<open>peer_view_model.rs\<close>, \<^verbatim>\<open>model/mod.rs\<close>) and the computation of the scroll position from the
  formatted messages (\<^verbatim>\<open>view/mod.rs\<close>).

  The rendering of a time, and the width of text on the terminal, are library functions and
  arguments of the definitions.  The counters are 64-bit: the atomic addition wraps, the
  ordinary one panics.
\<close>

section \<open>Messages and logs\<close>

datatype user_type = User rstring | System

record 't message =
  msg_time :: 't
  msg_content :: rstring
  msg_user :: user_type
  relay_route :: "rstring list option"

definition message_new :: "'t \<Rightarrow> rstring \<Rightarrow> user_type \<Rightarrow> rstring list option \<Rightarrow> 't message" where
  "message_new time content user route =
     \<lparr>msg_time = time, msg_content = content, msg_user = user, relay_route = route\<rparr>"

definition set_relay_route :: "rstring list option \<Rightarrow> 't message \<Rightarrow> 't message" where
  "set_relay_route route m =
     (case route of
        Some r \<Rightarrow> if r \<noteq> [] then m\<lparr>relay_route := Some r\<rparr> else m
      | None \<Rightarrow> m)"

datatype level = Error | Warn | Info | Debug | Trace

record 't log =
  log_time :: 't
  log_level :: level
  log_content :: rstring

text \<open>\<^verbatim>\<open>str::split('\n')\<close>: at least one piece.\<close>

fun split_lines :: "rstring \<Rightarrow> rstring list" where
  "split_lines [] = [[]]"
| "split_lines (c # cs) =
     (if c = 10 then [] # split_lines cs
      else case split_lines cs of [] \<Rightarrow> [[c]] | l # ls \<Rightarrow> (c # l) # ls)"

fun join_with :: "rstring \<Rightarrow> rstring list \<Rightarrow> rstring" where
  "join_with sep [] = []"
| "join_with sep [x] = x"
| "join_with sep (x # y # ys) = x @ sep @ join_with sep (y # ys)"

definition ascii :: "string \<Rightarrow> rstring" where
  "ascii s = map of_char s"

definition message_formart :: "('t \<Rightarrow> rstring) \<Rightarrow> 't message \<Rightarrow> rstring list \<times> rstring option" where
  "message_formart fmt_time m =
     (let relay_route_msg = map_option (\<lambda>r. ascii '' ['' @ join_with (ascii '' -> '') r @ ascii '']'') (relay_route m);
          pieces = split_lines (msg_content m);
          contents = map (\<lambda>(index, piece).
            if index = 0 then ascii ''('' @ fmt_time (msg_time m) @ ascii ''): '' @ piece else piece)
            (enumerate 0 pieces)
      in (contents, relay_route_msg))"

definition level_name :: "level \<Rightarrow> rstring" where
  "level_name l = ascii (case l of Error \<Rightarrow> ''ERROR'' | Warn \<Rightarrow> ''WARN'' | Info \<Rightarrow> ''INFO''
     | Debug \<Rightarrow> ''DEBUG'' | Trace \<Rightarrow> ''TRACE'')"

definition log_formart :: "('t \<Rightarrow> rstring) \<Rightarrow> 't log \<Rightarrow> rstring list \<times> rstring option" where
  "log_formart fmt_time l =
     ([ascii ''['' @ fmt_time (log_time l) @ ascii '' '' @ level_name (log_level l) @ ascii ''] '' @ log_content l], None)"

section \<open>Scrollable lists\<close>

text \<open>
  The message list and the log list share their scrolling state: the state of the scroll bar,
  the position and the wish to stay at the end.
\<close>

record scrollbar =
  sb_content_length :: nat
  sb_position :: nat

record 'm scroll_vm =
  inner_msgs :: "'m list"
  vertical_scroll_state :: scrollbar
  vertical_scroll :: nat
  vertical_scroll_at_end :: bool

definition scroll_vm_new :: "'m scroll_vm" where
  "scroll_vm_new = \<lparr>inner_msgs = [], vertical_scroll_state = \<lparr>sb_content_length = 0, sb_position = 0\<rparr>,
     vertical_scroll = 0, vertical_scroll_at_end = False\<rparr>"

definition add_msg :: "'m \<Rightarrow> 'm scroll_vm \<Rightarrow> 'm scroll_vm" where
  "add_msg msg v = v\<lparr>inner_msgs := inner_msgs v @ [msg]\<rparr>"

definition set_position :: "nat \<Rightarrow> 'm scroll_vm \<Rightarrow> 'm scroll_vm" where
  "set_position pos v = v\<lparr>vertical_scroll_state := (vertical_scroll_state v)\<lparr>sb_position := pos\<rparr>\<rparr>"

definition reset_vertical_scroll_at_end :: "'m scroll_vm \<Rightarrow> 'm scroll_vm" where
  "reset_vertical_scroll_at_end v = v\<lparr>vertical_scroll_at_end := False\<rparr>"

definition vertical_scroll_to_end :: "'m scroll_vm \<Rightarrow> 'm scroll_vm" where
  "vertical_scroll_to_end v = v\<lparr>vertical_scroll_at_end := True\<rparr>"

definition vertical_scroll_down :: "'m scroll_vm \<Rightarrow> 'm scroll_vm" where
  "vertical_scroll_down v =
     (let pos = (vertical_scroll v + 1) mod 2 ^ 64
      in reset_vertical_scroll_at_end (set_position pos (v\<lparr>vertical_scroll := pos\<rparr>)))"

definition vertical_scroll_up :: "'m scroll_vm \<Rightarrow> 'm scroll_vm" where
  "vertical_scroll_up v =
     (let pos = (if vertical_scroll v \<le> 1 then 0 else vertical_scroll v - 1)
      in reset_vertical_scroll_at_end (set_position pos (v\<lparr>vertical_scroll := pos\<rparr>)))"

definition vertical_scroll_to :: "nat \<Rightarrow> 'm scroll_vm \<Rightarrow> 'm scroll_vm" where
  "vertical_scroll_to pos v = set_position pos (v\<lparr>vertical_scroll := pos\<rparr>)"

definition set_vertical_scroll_content_len :: "nat \<Rightarrow> 'm scroll_vm \<Rightarrow> 'm scroll_vm" where
  "set_vertical_scroll_content_len len v =
     v\<lparr>vertical_scroll_state := (vertical_scroll_state v)\<lparr>sb_content_length := len\<rparr>\<rparr>"

record 't message_vm =
  mv_myself_id :: rstring
  mv_list :: "'t message scroll_vm"

definition message_vm_new :: "rstring \<Rightarrow> 't message_vm" where
  "message_vm_new myself_id = \<lparr>mv_myself_id = myself_id, mv_list = scroll_vm_new\<rparr>"

type_synonym 't log_vm = "'t log scroll_vm"

section \<open>Peers\<close>

type_synonym peer_vm = "rstring set"

definition addPeer :: "rstring \<Rightarrow> peer_vm \<Rightarrow> bool \<times> peer_vm" where
  "addPeer peer v = (peer \<notin> v, insert peer v)"

definition removePeer :: "rstring \<Rightarrow> peer_vm \<Rightarrow> bool \<times> peer_vm" where
  "removePeer peer v = (peer \<in> v, v - {peer})"

record 't app_view_model =
  app_input_vm :: input_vm
  app_message_vm :: "'t message_vm"
  app_peer_vm :: peer_vm
  app_log_vm :: "'t log_vm"

definition app_view_model_new :: "rstring \<Rightarrow> 't app_view_model" where
  "app_view_model_new peer_id =
     \<lparr>app_input_vm = input_vm_new peer_id, app_message_vm = message_vm_new peer_id, app_peer_vm = {},
      app_log_vm = scroll_vm_new\<rparr>"

section \<open>Scroll position\<close>

text \<open>
  The number of terminal rows of a line: the quotient of its width by the width of the area, as
  a floating point number, rounded up and converted to a machine integer.  For widths below
  \<open>2 ^ 53\<close> the quotient of two integers rounds up exactly; dividing by zero gives infinity,
  which converts to the largest integer, or, for a line of width zero, not a number, which
  converts to zero.
\<close>

definition rows :: "nat \<Rightarrow> nat \<Rightarrow> nat" where
  "rows content_with width =
     (if width = 0 then (if content_with = 0 then 0 else USIZE_MAX)
      else (content_with + width - 1) div width)"

text \<open>An empty line counts as one column; the relay route belongs to the last line.\<close>

definition line_width :: "(rstring \<Rightarrow> nat) \<Rightarrow> rstring option \<Rightarrow> bool \<Rightarrow> rstring \<Rightarrow> nat" where
  "line_width uwidth ext_content is_last content =
     (if content = [] then 1 else 0) + uwidth content +
     (if is_last then (case ext_content of Some e \<Rightarrow> uwidth e | None \<Rightarrow> 0) else 0)"

fun content_lines ::
  "(rstring \<Rightarrow> nat) \<Rightarrow> nat \<Rightarrow> rstring option \<Rightarrow> rstring list \<Rightarrow> nat \<Rightarrow> nat option" where
  "content_lines uwidth width ext [] lines = Some lines"
| "content_lines uwidth width ext (content # contents) lines =
     do {
       lines \<leftarrow> u64_add lines (rows (line_width uwidth ext (contents = []) content) width);
       content_lines uwidth width ext contents lines
     }"

fun message_lines ::
  "(rstring \<Rightarrow> nat) \<Rightarrow> nat \<Rightarrow> (rstring list \<times> rstring option) list \<Rightarrow> nat \<Rightarrow> nat option" where
  "message_lines uwidth width [] lines = Some lines"
| "message_lines uwidth width ((contents, ext) # ms) lines =
     do {
       lines \<leftarrow> content_lines uwidth width ext contents lines;
       message_lines uwidth width ms lines
     }"

definition calculate_message_lines ::
  "(rstring \<Rightarrow> nat) \<Rightarrow> nat \<Rightarrow> (rstring list \<times> rstring option) list \<Rightarrow> nat option" where
  "calculate_message_lines uwidth width formatted = message_lines uwidth width formatted 0"

record rect =
  rect_x :: nat
  rect_y :: nat
  rect_width :: nat
  rect_height :: nat

definition adjust_scroll_pos ::
  "(rstring \<Rightarrow> nat) \<Rightarrow> ('m \<Rightarrow> rstring list \<times> rstring option) \<Rightarrow> rect \<Rightarrow> 'm scroll_vm \<Rightarrow> 'm scroll_vm option" where
  "adjust_scroll_pos uwidth formart area v =
     (if rect_height area = 0 \<or> rect_width area = 0 then Some v
      else if inner_msgs v = [] then Some v
      else let height = rect_height area - 2; width = rect_width area - 2 in
        do {
          line_width \<leftarrow> calculate_message_lines uwidth width (map formart (inner_msgs v));
          let new_pos = (if line_width > height \<and> vertical_scroll v < line_width - height
                         then line_width - height else 0);
          Some (if new_pos > 0 \<and> vertical_scroll_at_end v then vertical_scroll_to new_pos v else v)
        })"

section \<open>Correctness\<close>

definition message_rows :: "(rstring \<Rightarrow> nat) \<Rightarrow> nat \<Rightarrow> rstring list \<times> rstring option \<Rightarrow> nat" where
  "message_rows uwidth width p =
     (\<Sum>i < length (fst p). rows (line_width uwidth (snd p) (Suc i = length (fst p)) (fst p ! i)) width)"

lemma content_lines_eq:
  "content_lines uwidth width ext contents lines =
     (let n = lines + message_rows uwidth width (contents, ext)
      in if contents = [] \<or> n < 2 ^ 64 then Some n else None)"
proof (induction contents arbitrary: lines)
  case (Cons c cs)
  have "message_rows uwidth width (c # cs, ext) =
      rows (line_width uwidth ext (cs = []) c) width + message_rows uwidth width (cs, ext)"
    by (simp add: message_rows_def sum.lessThan_Suc_shift del: sum.lessThan_Suc)
  then show ?case using Cons by (simp add: u64_add_def Let_def) (auto simp: message_rows_def)
qed (simp add: message_rows_def)

lemma message_lines_eq:
  "\<forall>p \<in> set ms. fst p \<noteq> [] \<Longrightarrow> message_lines uwidth width ms lines =
     (let n = lines + (\<Sum>p \<leftarrow> ms. message_rows uwidth width p)
      in if ms = [] \<or> n < 2 ^ 64 then Some n else None)"
proof (induction uwidth width ms lines rule: message_lines.induct)
  case (2 uwidth width contents ext ms lines)
  then show ?case by (auto simp: content_lines_eq Let_def)
qed simp

text \<open>
  The trait \<^verbatim>\<open>ViewModelFmt\<close>: what a list needs of its messages is that each has at least one
  line.
\<close>

locale view_model_fmt =
  fixes formart :: "'m \<Rightarrow> rstring list \<times> rstring option"
  assumes has_line: "fst (formart m) \<noteq> []"
begin

lemma lines_eq:
  assumes "ms \<noteq> []"
  shows "calculate_message_lines uwidth width (map formart ms) =
    (let n = (\<Sum>m \<leftarrow> ms. message_rows uwidth width (formart m)) in if n < 2 ^ 64 then Some n else None)"
  using assms message_lines_eq [of "map formart ms" uwidth width 0]
  by (simp add: calculate_message_lines_def has_line Let_def comp_def)

lemma scroll_result:
  assumes "rect_height area > 0" "rect_width area > 0" "inner_msgs v \<noteq> []"
  shows "let n = (\<Sum>m \<leftarrow> inner_msgs v. message_rows uwidth (rect_width area - 2) (formart m));
             height = rect_height area - 2
         in if n < 2 ^ 64
            then \<exists>v'. adjust_scroll_pos uwidth formart area v = Some v' \<and>
              inner_msgs v' = inner_msgs v \<and>
              (if vertical_scroll_at_end v \<and> n > height
               then vertical_scroll v' = max (vertical_scroll v) (n - height)
               else v' = v)
            else adjust_scroll_pos uwidth formart area v = None"
  using assms
  by (auto simp: adjust_scroll_pos_def lines_eq Let_def vertical_scroll_to_def set_position_def)

lemma narrow_panics:
  assumes "rect_height area > 0" "rect_width area \<in> {1, 2}" "inner_msgs v = m1 # m2 # ms"
    and w: "\<And>s. uwidth s = 0 \<longleftrightarrow> s = []"
  shows "adjust_scroll_pos uwidth formart area v = None"
proof -
  have row: "message_rows uwidth 0 (formart m) \<ge> USIZE_MAX" for m
  proof -
    obtain c cs ext where f: "formart m = (c # cs, ext)"
      using has_line [of m] by (metis list.exhaust prod.collapse)
    have "rows (line_width uwidth ext (cs = []) c) 0 = USIZE_MAX"
      using w [of c] by (simp add: rows_def line_width_def)
    then show ?thesis
      by (simp add: f message_rows_def sum.lessThan_Suc_shift del: sum.lessThan_Suc)
  qed
  have "USIZE_MAX + USIZE_MAX \<le> message_rows uwidth 0 (formart m1) + message_rows uwidth 0 (formart m2)"
    using add_mono [OF row row] .
  then have "\<not> (\<Sum>m \<leftarrow> inner_msgs v. message_rows uwidth (rect_width area - 2) (formart m)) < 2 ^ 64"
    using assms(2,3) by (auto simp: USIZE_MAX_def)
  moreover have "inner_msgs v \<noteq> []" using assms(3) by simp
  ultimately show ?thesis
    using assms(1,2) by (auto simp: adjust_scroll_pos_def lines_eq Let_def)
qed

end

interpretation messages_fmt: view_model_fmt "message_formart fmt" for fmt
proof
  have "split_lines s \<noteq> []" for s by (induction s) (auto split: list.split)
  then show "fst (message_formart fmt m) \<noteq> []" for m :: "'a message"
    by (simp add: message_formart_def Let_def flip: length_greater_0_conv)
qed

interpretation logs_fmt: view_model_fmt "log_formart fmt" for fmt
  by unfold_locales (simp add: log_formart_def)

text \<open>
  A list that follows its end shows its end.  If the rows of all messages fit a machine
  integer, adjusting the position returns; a list that is to stay at its end and is taller
  than the area is then scrolled at least to the first position from which its last row is
  visible, and in every other case it is left alone.  If they do not fit, it panics.
\<close>

theorem scroll_follows_end:
  assumes "rect_height area > 0" "rect_width area > 0" "inner_msgs v \<noteq> []"
  shows "let n = (\<Sum>m \<leftarrow> inner_msgs v. message_rows uwidth (rect_width area - 2) (message_formart fmt m));
             height = rect_height area - 2
         in if n < 2 ^ 64
            then \<exists>v'. adjust_scroll_pos uwidth (message_formart fmt) area v = Some v' \<and>
              inner_msgs v' = inner_msgs v \<and>
              (if vertical_scroll_at_end v \<and> n > height
               then vertical_scroll v' = max (vertical_scroll v) (n - height)
               else v' = v)
            else adjust_scroll_pos uwidth (message_formart fmt) area v = None"
  using assms by (rule messages_fmt.scroll_result)

definition short_list :: "nat message scroll_vm" where
  "short_list = vertical_scroll_to_end (add_msg (message_new 0 [107] System None) scroll_vm_new)"

theorem scroll_follows_end_witness:
  "\<exists>v'. adjust_scroll_pos length (message_formart (\<lambda>_. [])) \<lparr>rect_x = 0, rect_y = 0, rect_width = 6, rect_height = 3\<rparr>
     short_list = Some v' \<and> vertical_scroll v' = 1"
proof -
  have "message_formart (\<lambda>_. []) (message_new 0 [107] System None :: nat message) = ([ascii ''(): k''], None)"
    by (simp add: message_formart_def message_new_def ascii_def)
  then have "(\<Sum>m \<leftarrow> inner_msgs short_list. message_rows length 4 (message_formart (\<lambda>_. []) m)) = 2"
    by (simp add: short_list_def vertical_scroll_to_end_def add_msg_def scroll_vm_new_def message_rows_def rows_def
        line_width_def ascii_def)
  moreover have "vertical_scroll_at_end short_list" "vertical_scroll short_list = 0" "inner_msgs short_list \<noteq> []"
    by (simp_all add: short_list_def vertical_scroll_to_end_def add_msg_def scroll_vm_new_def)
  ultimately show ?thesis
    using scroll_follows_end [of "\<lparr>rect_x = 0, rect_y = 0, rect_width = 6, rect_height = 3\<rparr>" short_list length "\<lambda>_. []"]
    by (auto simp: Let_def)
qed

text \<open>
  The panic is reachable: an area of one or two columns leaves no room inside its border, every
  line with some width then counts as the largest integer, and two such lines overflow.
\<close>

theorem narrow_area_panics:
  assumes "rect_height area > 0" "rect_width area \<in> {1, 2}" "inner_msgs v = m1 # m2 # ms"
    and w: "\<And>s. uwidth s = 0 \<longleftrightarrow> s = []"
  shows "adjust_scroll_pos uwidth (message_formart fmt) area v = None"
  using assms by (rule messages_fmt.narrow_panics)

end
