(* ===== verification/Terminal_App.thy ===== *)
theory Terminal_App
  imports View_Models
begin

text \<open>
  The terminal application: its events (\<^verbatim>\<open>tui/event.rs\<close>, \<^verbatim>\<open>controller/mod.rs\<close>), the handlers of
  keys (\<^verbatim>\<open>tui/ui/input.rs\<close>, \<^verbatim>\<open>tui/ui/message.rs\<close>), what is drawn (these two, \<^verbatim>\<open>tui/ui.rs\<close> and
  the views under \<^verbatim>\<open>view/\<close>) and the main loop (\<^verbatim>\<open>tui/app.rs\<close>).

  A drawing is the text the widgets get, with the colours of its spans; how the widgets put it
  on the screen is library code, as are the division of the screen into areas and the width
  of text.  The wall clock is an argument of the handler that needs it.
\<close>

section \<open>Events\<close>

datatype key_code =
    KChar rchar | KEnter | KEsc | KBackspace | KLeft | KRight | KUp | KDown | KOther

datatype key_kind = Press | Repeat | Release

datatype modifiers = NoModifiers | Control | OtherModifiers

record key_event =
  key_code :: key_code
  key_kind :: key_kind
  key_modifiers :: modifiers

datatype 't logic_event =
    PeerListUpdated "rstring set"
  | NewMessageReceived "'t message"
  | LogicLog level rstring

datatype 't input_event =
    MsgSending "'t message"
  | MsgReceiving "'t message"
  | PeersUpdating "rstring set"
  | ChangeStatus

text \<open>The conversion of a log event is not implemented and panics.\<close>

definition input_event_from :: "'t logic_event \<Rightarrow> 't input_event option" where
  "input_event_from e =
     (case e of
        PeerListUpdated ps \<Rightarrow> Some (PeersUpdating ps)
      | NewMessageReceived m \<Rightarrow> Some (MsgReceiving m)
      | LogicLog l s \<Rightarrow> None)"

datatype 't app_event = Input "'t input_event" | Logging "'t log" | Quit

text \<open>Events of the terminal other than keys do nothing.\<close>

datatype 't event = Tick | Key key_event | OtherTerminal | App "'t app_event"

text \<open>The application; \<open>events\<close> is the channel between its tasks.\<close>

record 't app =
  running :: bool
  view_model :: "'t app_view_model"
  events :: "'t event list"

definition app_new :: "'t app" where
  "app_new = \<lparr>running = True, view_model = app_view_model_new (ascii ''myself_id''), events = []\<rparr>"

definition send_event :: "'t app_event \<Rightarrow> 't app \<Rightarrow> 't app" where
  "send_event e a = a\<lparr>events := events a @ [App e]\<rparr>"

text \<open>The task that reads the terminal and ticks.\<close>

definition event_task_send :: "'t event \<Rightarrow> 't app \<Rightarrow> 't app" where
  "event_task_send e a = a\<lparr>events := events a @ [e]\<rparr>"

section \<open>Keys\<close>

definition set_input :: "input_vm \<Rightarrow> 't app \<Rightarrow> 't app" where
  "set_input m a = a\<lparr>view_model := (view_model a)\<lparr>app_input_vm := m\<rparr>\<rparr>"

definition submit_message :: "'t \<Rightarrow> input_vm \<Rightarrow> 't message \<times> input_vm" where
  "submit_message now m =
     (let (s, m') = submit_input m in (message_new now s (User (in_myself_id m)) None, m'))"

definition input_key_event :: "'t \<Rightarrow> key_event \<Rightarrow> 't app \<Rightarrow> 't app option" where
  "input_key_event now key a =
     (let m = app_input_vm (view_model a) in
      case input_mode m of
        Normal \<Rightarrow>
          Some (case key_code key of
            KChar c \<Rightarrow>
              if c = of_char CHR ''e''
              then send_event (Input ChangeStatus) (set_input (m\<lparr>input_mode := Editing\<rparr>) a)
              else if c = of_char CHR ''q'' then send_event Quit a
              else if (c = of_char CHR ''c'' \<or> c = of_char CHR ''C'') \<and> key_modifiers key = Control
              then send_event Quit a
              else a
          | KEsc \<Rightarrow> send_event Quit a
          | _ \<Rightarrow> a)
      | Editing \<Rightarrow>
          if key_kind key = Press
          then (case key_code key of
              KEnter \<Rightarrow>
                (let (msg, m') = submit_message now m
                 in Some (send_event (Input (MsgSending msg)) (set_input m' a)))
            | KChar c \<Rightarrow> map_option (\<lambda>m'. set_input m' a) (enter_char c m)
            | KBackspace \<Rightarrow> Some (set_input (delete_char m) a)
            | KLeft \<Rightarrow> Some (set_input (move_cursor_left m) a)
            | KRight \<Rightarrow> Some (set_input (move_cursor_right m) a)
            | KEsc \<Rightarrow> Some (set_input (m\<lparr>input_mode := Normal\<rparr>) a)
            | _ \<Rightarrow> Some a)
          else Some a)"

definition map_messages :: "('t message scroll_vm \<Rightarrow> 't message scroll_vm) \<Rightarrow> 't app \<Rightarrow> 't app" where
  "map_messages f a =
     a\<lparr>view_model := (view_model a)\<lparr>app_message_vm := (app_message_vm (view_model a))
       \<lparr>mv_list := f (mv_list (app_message_vm (view_model a)))\<rparr>\<rparr>\<rparr>"

definition message_key_event :: "key_event \<Rightarrow> 't app \<Rightarrow> 't app" where
  "message_key_event key a =
     (if key_kind key = Press
      then (case key_code key of
          KUp \<Rightarrow> map_messages vertical_scroll_up a
        | KDown \<Rightarrow> map_messages vertical_scroll_down a
        | _ \<Rightarrow> a)
      else a)"

definition handle_key_events :: "'t \<Rightarrow> key_event \<Rightarrow> 't app \<Rightarrow> 't app option" where
  "handle_key_events now key a = map_option (message_key_event key) (input_key_event now key a)"

section \<open>Drawing\<close>

datatype color = Red | Green | Blue | Cyan | Yellow | LightGreen | Gray | Plain

type_synonym span = "rstring \<times> color"

record drawing =
  d_title :: "span list"
  d_lines :: "span list list"
  d_scroll :: nat
  d_cursor :: "(nat \<times> nat) option"

text \<open>What the drawing functions use of the libraries.\<close>

record 't ui_env =
  fmt_time :: "'t \<Rightarrow> rstring"
  uwidth :: "rstring \<Rightarrow> nat"
  split_areas :: "rect \<Rightarrow> rect \<times> rect"

text \<open>The first bytes of a string; cutting a character, or a shorter string, panics.\<close>

fun str_prefix :: "nat \<Rightarrow> rstring \<Rightarrow> rstring option" where
  "str_prefix 0 s = Some []"
| "str_prefix (Suc n) [] = None"
| "str_prefix (Suc n) (c # cs) =
     (if utf8_len c \<le> Suc n then map_option (Cons c) (str_prefix (Suc n - utf8_len c) cs) else None)"

definition user_span :: "rstring \<Rightarrow> user_type \<Rightarrow> span option" where
  "user_span myself u =
     (case u of
        User peer_id \<Rightarrow>
          map_option (\<lambda>p. (p, if peer_id = myself then Cyan else Yellow)) (str_prefix 5 peer_id)
      | System \<Rightarrow> Some (ascii ''SYSTEM'', LightGreen))"

text \<open>The lines of one message: who said it before the first, the relay route after the last.\<close>

fun message_line_items :: "span \<Rightarrow> bool \<Rightarrow> rstring list \<Rightarrow> rstring option \<Rightarrow> span list list" where
  "message_line_items who first [] route = []"
| "message_line_items who first (c # cs) route =
     ((if first then [who] else []) @ [(c, Gray)] @
      (if cs = [] then (case route of Some r \<Rightarrow> [(r, Green)] | None \<Rightarrow> []) else [])) #
     message_line_items who False cs route"

fun list_items :: "('t \<Rightarrow> rstring) \<Rightarrow> rstring \<Rightarrow> 't message list \<Rightarrow> span list list option" where
  "list_items fmt myself [] = Some []"
| "list_items fmt myself (m # ms) =
     do {
       who \<leftarrow> user_span myself (msg_user m);
       rest \<leftarrow> list_items fmt myself ms;
       let (contents, route) = message_formart fmt m;
       Some (message_line_items who True contents route @ rest)
     }"

definition message_ui ::
  "'t ui_env \<Rightarrow> rect \<Rightarrow> 't message_vm \<Rightarrow> (drawing \<times> 't message_vm) option" where
  "message_ui U area v =
     do {
       l \<leftarrow> adjust_scroll_pos (uwidth U) (message_formart (fmt_time U)) area (mv_list v);
       items \<leftarrow> list_items (fmt_time U) (mv_myself_id v) (inner_msgs l);
       let l' = set_vertical_scroll_content_len (length items) l;
       Some (\<lparr>d_title = [(ascii ''Messages'', Plain), (ascii ''You are: '' @ mv_myself_id v, Cyan)],
              d_lines = items, d_scroll = vertical_scroll l' mod 2 ^ 16, d_cursor = None\<rparr>,
             v\<lparr>mv_list := l'\<rparr>)
     }"

definition u16_add :: "nat \<Rightarrow> nat \<Rightarrow> nat option" where
  "u16_add a b = (if a + b < 2 ^ 16 then Some (a + b) else None)"

definition help_msg :: "input_mode \<Rightarrow> span list" where
  "help_msg mode =
     (case mode of
        Normal \<Rightarrow> [(ascii ''Press '', Plain), (ascii ''q'', Red), (ascii '' to exit, '', Plain),
          (ascii ''e'', Green), (ascii '' to start editing.'', Plain)]
      | Editing \<Rightarrow> [(ascii ''Press '', Plain), (ascii ''Esc'', Red), (ascii '' to stop editing, '', Plain),
          (ascii ''Enter'', Green), (ascii '' to send the message'', Plain)])"

text \<open>The cursor is shown while editing, at the width of the text before it.\<close>

definition input_ui :: "'t ui_env \<Rightarrow> rect \<Rightarrow> input_vm \<Rightarrow> drawing option" where
  "input_ui U area m =
     (case input_mode m of
        Normal \<Rightarrow>
          Some \<lparr>d_title = help_msg Normal, d_lines = [[(input m, Gray)]], d_scroll = 0, d_cursor = None\<rparr>
      | Editing \<Rightarrow>
          do {
            x \<leftarrow> u16_add (rect_x area) (uwidth U (take (character_index m) (input m)) mod 2 ^ 16);
            x \<leftarrow> u16_add x 1;
            y \<leftarrow> u16_add (rect_y area) 1;
            Some \<lparr>d_title = help_msg Editing, d_lines = [[(input m, Blue)]], d_scroll = 0, d_cursor = Some (x, y)\<rparr>
          })"

text \<open>
  The older view \<^verbatim>\<open>view/input_view.rs\<close> draws the same widgets from the same code, as does
  \<^verbatim>\<open>view/message_view.rs\<close> for the messages.
\<close>

definition input_view_ui :: "'t ui_env \<Rightarrow> rect \<Rightarrow> input_vm \<Rightarrow> drawing option" where
  "input_view_ui U area m = input_ui U area m"

definition message_view_ui ::
  "'t ui_env \<Rightarrow> rect \<Rightarrow> 't message_vm \<Rightarrow> (drawing \<times> 't message_vm) option" where
  "message_view_ui U area v = message_ui U area v"

definition level_color :: "level \<Rightarrow> color" where
  "level_color l = (case l of Error \<Rightarrow> Red | Warn \<Rightarrow> Yellow | Info \<Rightarrow> Green | Debug \<Rightarrow> Blue | Trace \<Rightarrow> Cyan)"

definition fmt_styled :: "('t \<Rightarrow> rstring) \<Rightarrow> 't log \<Rightarrow> span list" where
  "fmt_styled fmt l =
     [(ascii ''['', Plain), (fmt (log_time l), Plain), (ascii '' '', Plain),
      (level_name (log_level l), level_color (log_level l)), (ascii '']'', Plain), (ascii '' '', Plain),
      (log_content l, Plain)]"

definition log_ui :: "'t ui_env \<Rightarrow> rect \<Rightarrow> 't log_vm \<Rightarrow> (drawing \<times> 't log_vm) option" where
  "log_ui U area v =
     do {
       l \<leftarrow> adjust_scroll_pos (uwidth U) (log_formart (fmt_time U)) area v;
       let logs = map (fmt_styled (fmt_time U)) (inner_msgs l);
       let l' = set_vertical_scroll_content_len (length logs) l;
       Some (\<lparr>d_title = [(ascii ''Logs'', Green)], d_lines = logs, d_scroll = vertical_scroll l' mod 2 ^ 16,
              d_cursor = None\<rparr>, l')
     }"

text \<open>The set of peers is drawn in the order of its iterator, an argument.\<close>

definition peer_ui :: "(peer_vm \<Rightarrow> rstring list) \<Rightarrow> peer_vm \<Rightarrow> drawing" where
  "peer_ui iter v =
     \<lparr>d_title = [(ascii ''Peers'', Green)], d_lines = map (\<lambda>p. [(p, Plain)]) (iter v), d_scroll = 0, d_cursor = None\<rparr>"

definition app_ui :: "'t ui_env \<Rightarrow> rect \<Rightarrow> 't app \<Rightarrow> ((drawing \<times> drawing) \<times> 't app) option" where
  "app_ui U frame a =
     (let (message_area, input_area) = split_areas U frame in
      do {
        (d1, v) \<leftarrow> message_ui U message_area (app_message_vm (view_model a));
        d2 \<leftarrow> input_ui U input_area (app_input_vm (view_model a));
        Some ((d1, d2), a\<lparr>view_model := (view_model a)\<lparr>app_message_vm := v\<rparr>\<rparr>)
      })"

section \<open>Main loop\<close>

definition quit :: "'t app \<Rightarrow> 't app" where
  "quit a = a\<lparr>running := False\<rparr>"

text \<open>Peer updates and log events are not implemented and panic.\<close>

definition handle_event :: "'t \<Rightarrow> 't event \<Rightarrow> 't app \<Rightarrow> 't app option" where
  "handle_event now e a =
     (case e of
        Tick \<Rightarrow> Some a
      | Key key \<Rightarrow> if key_kind key = Press then handle_key_events now key a else Some a
      | OtherTerminal \<Rightarrow> Some a
      | App app_event \<Rightarrow>
          (case app_event of
             Input (MsgSending m) \<Rightarrow> Some (map_messages (add_msg m) a)
           | Input (MsgReceiving m) \<Rightarrow> Some (map_messages (add_msg m) a)
           | Input (PeersUpdating ps) \<Rightarrow> None
           | Input ChangeStatus \<Rightarrow> Some a
           | Logging l \<Rightarrow> None
           | Quit \<Rightarrow> Some (quit a)))"

text \<open>One round of the loop, when an event is there: draw, take the event, handle it.\<close>

definition app_round :: "'t ui_env \<Rightarrow> rect \<Rightarrow> 't \<Rightarrow> 't app \<Rightarrow> 't app option" where
  "app_round U frame now a =
     do {
       (d, a) \<leftarrow> app_ui U frame a;
       (case events a of
          [] \<Rightarrow> Some a
        | e # es \<Rightarrow> handle_event now e (a\<lparr>events := es\<rparr>))
     }"

text \<open>
  Handling a key sends at most one application event, and handling an application event sends
  none, so the loop works through its channel.
\<close>

definition event_weight :: "'t event \<Rightarrow> nat" where
  "event_weight e = (case e of Key k \<Rightarrow> 2 | _ \<Rightarrow> 1)"

definition pending_work :: "'t app \<Rightarrow> nat" where
  "pending_work a = sum_list (map event_weight (events a))"

lemma event_simps [simp]:
  "events (set_input m a) = events a" "events (map_messages f a) = events a"
  "events (send_event e a) = events a @ [App e]" "events (quit a) = events a"
  "app_input_vm (view_model (set_input m a)) = m" "app_input_vm (view_model (send_event e a)) = app_input_vm (view_model a)"
  "app_input_vm (view_model (map_messages f a)) = app_input_vm (view_model a)"
  "mv_list (app_message_vm (view_model (set_input m a))) = mv_list (app_message_vm (view_model a))"
  "mv_list (app_message_vm (view_model (send_event e a))) = mv_list (app_message_vm (view_model a))"
  "mv_list (app_message_vm (view_model (map_messages f a))) = f (mv_list (app_message_vm (view_model a)))"
  by (simp_all add: set_input_def map_messages_def send_event_def quit_def)

lemma input_key_event_sends:
  "input_key_event now key a = Some a' \<Longrightarrow> events a' = events a \<or> (\<exists>e. events a' = events a @ [App e])"
  by (auto simp: input_key_event_def Let_def split: input_mode.splits key_code.splits if_splits prod.splits)

lemma message_key_event_events [simp]: "events (message_key_event key a) = events a"
  by (simp add: message_key_event_def split: key_code.split)

lemma handle_event_work:
  assumes "handle_event now e a = Some a'"
  shows "pending_work a' < pending_work a + event_weight e"
proof (cases e)
  case (Key key)
  then show ?thesis using assms input_key_event_sends [of now key a]
    by (auto simp: handle_event_def handle_key_events_def pending_work_def event_weight_def split: if_splits)
qed (use assms in \<open>auto simp: handle_event_def pending_work_def event_weight_def
    split: app_event.splits input_event.splits\<close>)

lemma app_ui_events: "app_ui U frame a = Some (d, a') \<Longrightarrow> events a' = events a \<and> running a' = running a"
  by (auto simp: app_ui_def split: prod.splits Option.bind_splits)

lemma app_round_work:
  assumes "app_round U frame now a = Some a'" "events a \<noteq> []"
  shows "pending_work a' < pending_work a"
proof -
  obtain d a1 where ui: "app_ui U frame a = Some (d, a1)"
    using assms(1) by (auto simp: app_round_def split: Option.bind_splits)
  obtain e es where ev: "events a = e # es" using assms(2) by (cases "events a") auto
  have "handle_event now e (a1\<lparr>events := es\<rparr>) = Some a'"
    using assms(1) ui ev app_ui_events [OF ui] by (simp add: app_round_def)
  then have "pending_work a' < pending_work (a1\<lparr>events := es\<rparr>) + event_weight e" by (rule handle_event_work)
  then show ?thesis using ev by (simp add: pending_work_def)
qed

function app_run :: "'t ui_env \<Rightarrow> rect \<Rightarrow> 't \<Rightarrow> 't app \<Rightarrow> 't app option" where
  "app_run U frame now a =
     (if running a \<and> events a \<noteq> []
      then (case app_round U frame now a of None \<Rightarrow> None | Some a' \<Rightarrow> app_run U frame now a')
      else Some a)"
  by pat_completeness auto
termination
  by (relation "measure (\<lambda>(U, frame, now, a). pending_work a)") (auto dest: app_round_work)

declare app_run.simps [simp del]

section \<open>Correctness\<close>

definition press :: "key_code \<Rightarrow> key_event" where
  "press c = \<lparr>key_code = c, key_kind = Press, key_modifiers = NoModifiers\<rparr>"

fun handle_all :: "'t \<Rightarrow> 't event list \<Rightarrow> 't app \<Rightarrow> 't app option" where
  "handle_all now [] a = Some a"
| "handle_all now (e # es) a = Option.bind (handle_event now e a) (handle_all now es)"

lemma type_char:
  assumes "input_mode (app_input_vm (view_model a)) = Editing" "enter_char c (app_input_vm (view_model a)) = Some m"
  shows "handle_event now (Key (press (KChar c))) a = Some (set_input m a)"
  using assms
  by (simp add: handle_event_def handle_key_events_def input_key_event_def press_def message_key_event_def)

text \<open>Characters typed at the end of the line.\<close>

lemma enter_char_at_end:
  assumes "character_index m = length (input m)" "length (input m) + 1 < 2 ^ 63"
  shows "enter_char c m = Some (m\<lparr>input := input m @ [c], character_index := length (input m) + 1\<rparr>)"
proof -
  have "byte_index m = str_len (take (length (input m)) (input m))" using byte_index_eq [of m] assms(1) by simp
  then have "str_insert (byte_index m) c (input m) = Some (input m @ [c])"
    using str_insert_at [of "length (input m)" "input m" c] by simp
  then show ?thesis
    using assms
    by (simp add: enter_char_def move_cursor_right_def clamp_cursor_def usize_saturating_add_def USIZE_MAX_def)
qed

lemma type_text:
  assumes "app_input_vm (view_model a) = m" "input_mode m = Editing" "character_index m = length (input m)"
    "length (input m) + length cs < 2 ^ 63"
  shows "handle_all now (map (Key \<circ> press \<circ> KChar) cs) a =
    Some (if cs = [] then a
          else set_input (m\<lparr>input := input m @ cs, character_index := length (input m @ cs)\<rparr>) a)"
  using assms
proof (induction cs arbitrary: a m)
  case (Cons c cs)
  let ?m = "m\<lparr>input := input m @ [c], character_index := length (input m) + 1\<rparr>"
  have step: "handle_event now (Key (press (KChar c))) a = Some (set_input ?m a)"
    using type_char [of a c ?m] enter_char_at_end [of m c] Cons.prems by simp
  show ?case
    using Cons.IH [of "set_input ?m a" ?m] Cons.prems step by (auto simp: set_input_def)
qed simp

text \<open>
  C33. What is typed is sent.  In editing mode, with the cursor at the end of the line, typing any
  text and pressing Enter puts exactly that text, with the user's own identifier, behind what
  the line held into one message; handling the event this sends appends the message to the
  message list, and the line is empty again.  No character typed while editing quits.
\<close>

theorem typed_text_is_sent:
  assumes "app_input_vm (view_model a) = m" "input_mode m = Editing" "character_index m = length (input m)"
    and "length (input m) + length cs < 2 ^ 63" "events a = []"
  shows "\<exists>a' msg. handle_all now (map (Key \<circ> press \<circ> KChar) cs @ [Key (press KEnter)]) a = Some a' \<and>
    events a' = [App (Input (MsgSending msg))] \<and> msg_content msg = input m @ cs \<and>
    msg_user msg = User (in_myself_id m) \<and> input (app_input_vm (view_model a')) = [] \<and> running a' = running a \<and>
    (\<exists>a''. handle_event now (App (Input (MsgSending msg))) (a'\<lparr>events := []\<rparr>) = Some a'' \<and>
       inner_msgs (mv_list (app_message_vm (view_model a''))) =
         inner_msgs (mv_list (app_message_vm (view_model a))) @ [msg])"
proof -
  let ?m = "m\<lparr>input := input m @ cs, character_index := length (input m @ cs)\<rparr>"
  let ?msg = "message_new now (input m @ cs) (User (in_myself_id m)) None"
  let ?a = "set_input ?m a"
  have "handle_all now (es @ es') a = Option.bind (handle_all now es a) (handle_all now es')" for es es' a
    by (induction es arbitrary: a) (simp_all split: bind_split)
  moreover have "handle_all now (map (Key \<circ> press \<circ> KChar) cs) a = Some ?a"
    using type_text [OF assms(1-4)] assms(1,3) by (cases "cs = []") (auto simp: set_input_def)
  moreover have "handle_event now (Key (press KEnter)) ?a =
      Some (send_event (Input (MsgSending ?msg)) (set_input (?m\<lparr>input := [], character_index := 0\<rparr>) ?a))"
    using assms(2)
    by (simp add: handle_event_def handle_key_events_def input_key_event_def press_def message_key_event_def
        submit_message_def submit_input_def reset_cursor_def)
  ultimately have "handle_all now (map (Key \<circ> press \<circ> KChar) cs @ [Key (press KEnter)]) a =
      Some (send_event (Input (MsgSending ?msg)) (set_input (?m\<lparr>input := [], character_index := 0\<rparr>) ?a))"
    by simp
  moreover let ?a' = "send_event (Input (MsgSending ?msg)) (set_input (?m\<lparr>input := [], character_index := 0\<rparr>) ?a)"
  have "handle_event now (App (Input (MsgSending ?msg))) (?a'\<lparr>events := []\<rparr>) =
      Some (map_messages (add_msg ?msg) (?a'\<lparr>events := []\<rparr>))" by (simp add: handle_event_def)
  moreover have "inner_msgs (mv_list (app_message_vm (view_model (map_messages (add_msg ?msg) (?a'\<lparr>events := []\<rparr>))))) =
      inner_msgs (mv_list (app_message_vm (view_model a))) @ [?msg]" by (simp add: add_msg_def)
  moreover have "running ?a' = running a" by (simp add: send_event_def set_input_def)
  ultimately show ?thesis
    using assms(5) by (intro exI [of _ ?a'] exI [of _ ?msg]) (simp add: message_new_def)
qed

definition editing_app :: "nat app" where
  "editing_app = set_input ((input_vm_new [49, 50, 51, 52, 53])\<lparr>input_mode := Editing\<rparr>) app_new"

theorem typed_text_is_sent_witness:
  "\<exists>a' msg. handle_all 7 (map (Key \<circ> press \<circ> KChar) [113, 20320] @ [Key (press KEnter)]) editing_app = Some a' \<and>
     events a' = [App (Input (MsgSending msg))] \<and> msg_content msg = [113, 20320] \<and> running a'"
proof -
  have "running editing_app" "events editing_app = []"
    "app_input_vm (view_model editing_app) = (input_vm_new [49, 50, 51, 52, 53])\<lparr>input_mode := Editing\<rparr>"
    by (simp_all add: editing_app_def app_new_def set_input_def)
  with typed_text_is_sent [OF this(3), of "[113, 20320]" 7] show ?thesis
    by (auto simp: input_vm_new_def)
qed

text \<open>A message of a user whose identifier has less than five bytes cannot be drawn.\<close>

lemma str_prefix_short: "str_len s < n \<Longrightarrow> str_prefix n s = None"
proof (induction n s rule: str_prefix.induct)
  case (3 n c cs)
  then show ?case by (auto simp: str_len_def)
qed (simp_all add: str_len_def)

lemma short_peer_id_panics:
  assumes "m \<in> set (inner_msgs (mv_list v))" "msg_user m = User peer_id" "str_len peer_id < 5"
  shows "message_ui U area v = None"
proof -
  have none: "list_items fmt myself ms = None" if "m \<in> set ms" for fmt myself and ms :: "'a message list"
    using that assms(2,3) by (induction ms) (auto simp: user_span_def str_prefix_short split: bind_split)
  have keep: "inner_msgs l = inner_msgs (mv_list v)"
    if "adjust_scroll_pos (uwidth U) (message_formart (fmt_time U)) area (mv_list v) = Some l" for l
    using that
    by (auto simp: adjust_scroll_pos_def vertical_scroll_to_def set_position_def Let_def
        split: if_splits Option.bind_splits)
  show ?thesis
  proof (cases "adjust_scroll_pos (uwidth U) (message_formart (fmt_time U)) area (mv_list v)")
    case (Some l)
    then show ?thesis using none [of "inner_msgs l"] keep [OF Some] assms(1) by (simp add: message_ui_def)
  qed (simp add: message_ui_def)
qed

end
