(* ===== verification/Ui_Tasks.thy ===== *)
theory Ui_Tasks
  imports Terminal_App
begin

text \<open>
  The rest of the user interface: the list of logs (\<^verbatim>\<open>model/log_view_model.rs\<close>) and the macros that fill it
  (\<^verbatim>\<open>model/mod.rs\<close>, \<^verbatim>\<open>controller/mod.rs\<close>), the task that reads the terminal and the channel between it and
  the application (\<^verbatim>\<open>tui/event.rs\<close>), and the placeholder widget (\<^verbatim>\<open>tui/ui.rs\<close>).

  It also compares what the scroll position is computed from with what is drawn.
\<close>

section \<open>Logs\<close>

definition log_new :: "'t \<Rightarrow> level \<Rightarrow> rstring \<Rightarrow> 't log" where
  "log_new now level content = \<lparr>log_time = now, log_level = level, log_content = content\<rparr>"

definition add_log :: "'t log \<Rightarrow> 't log_vm \<Rightarrow> 't log_vm" where
  "add_log l v = v\<lparr>inner_msgs := inner_msgs v @ [l]\<rparr>"

definition log_set_content_len :: "nat \<Rightarrow> 't log_vm \<Rightarrow> 't log_vm" where
  "log_set_content_len len v =
     v\<lparr>vertical_scroll_state := (vertical_scroll_state v)\<lparr>sb_content_length := len\<rparr>\<rparr>"

definition log_scroll_to_end :: "'t log_vm \<Rightarrow> 't log_vm" where
  "log_scroll_to_end v = v\<lparr>vertical_scroll_at_end := True\<rparr>"

definition log_reset_scroll_at_end :: "'t log_vm \<Rightarrow> 't log_vm" where
  "log_reset_scroll_at_end v = v\<lparr>vertical_scroll_at_end := False\<rparr>"

definition log_scroll_to :: "nat \<Rightarrow> 't log_vm \<Rightarrow> 't log_vm" where
  "log_scroll_to pos v =
     v\<lparr>vertical_scroll := pos, vertical_scroll_state := (vertical_scroll_state v)\<lparr>sb_position := pos\<rparr>\<rparr>"

text \<open>
  The trait \<^verbatim>\<open>AutoScrollableViewModel\<close>: what its users rely on.  Scrolling keeps the messages, the wish
  to stay at the end is set and reset, and a position is kept until the next one.
\<close>

locale auto_scrollable =
  fixes get_inner_msgs :: "'v \<Rightarrow> 'm list" and get_vertical_scroll :: "'v \<Rightarrow> nat" and get_at_end :: "'v \<Rightarrow> bool"
    and to_end :: "'v \<Rightarrow> 'v" and reset_at_end :: "'v \<Rightarrow> 'v" and scroll_to :: "nat \<Rightarrow> 'v \<Rightarrow> 'v"
  assumes to_end_laws: "get_inner_msgs (to_end v) = get_inner_msgs v"
      "get_vertical_scroll (to_end v) = get_vertical_scroll v" "get_at_end (to_end v)"
    and reset_laws: "get_inner_msgs (reset_at_end v) = get_inner_msgs v"
      "get_vertical_scroll (reset_at_end v) = get_vertical_scroll v" "\<not> get_at_end (reset_at_end v)"
    and scroll_laws: "get_inner_msgs (scroll_to pos v) = get_inner_msgs v"
      "get_vertical_scroll (scroll_to pos v) = pos" "get_at_end (scroll_to pos v) = get_at_end v"
begin

lemma scrolled_list:
  "get_inner_msgs (fold scroll_to ps (to_end v)) = get_inner_msgs v \<and> get_at_end (fold scroll_to ps (to_end v)) \<and>
   get_vertical_scroll (fold scroll_to ps (to_end v)) = (if ps = [] then get_vertical_scroll v else last ps)"
proof (induction ps rule: rev_induct)
  case Nil
  show ?case using to_end_laws by simp
next
  case (snoc p ps)
  then show ?case using scroll_laws by simp
qed

end

interpretation messages_scroll: auto_scrollable inner_msgs vertical_scroll vertical_scroll_at_end
    vertical_scroll_to_end reset_vertical_scroll_at_end vertical_scroll_to
  by unfold_locales
    (simp_all add: vertical_scroll_to_end_def reset_vertical_scroll_at_end_def vertical_scroll_to_def set_position_def)

interpretation logs_scroll: auto_scrollable inner_msgs vertical_scroll vertical_scroll_at_end
    log_scroll_to_end log_reset_scroll_at_end log_scroll_to
  by unfold_locales (simp_all add: log_scroll_to_end_def log_reset_scroll_at_end_def log_scroll_to_def)

text \<open>
  The macros.  \<^verbatim>\<open>async_ui_log!\<close> adds a line to the log list and asks for its end;
  drawing anew (\<^verbatim>\<open>refresh\<close>) is left to the caller.  \<^verbatim>\<open>async_notify_ui_log!\<close> sends the line to the notifier when there is one, and goes on when that fails.
  A notifier is the queue of its channel, and whether the channel is open.  The formatted text is an argument.
\<close>

definition log_vm_log :: "'t \<Rightarrow> level \<Rightarrow> rstring \<Rightarrow> 't log" where
  "log_vm_log now lvl text = log_new now lvl text"

definition async_ui_log :: "'t \<Rightarrow> level \<Rightarrow> rstring \<Rightarrow> 't app_view_model \<Rightarrow> 't app_view_model" where
  "async_ui_log now lvl text a =
     (let a = a\<lparr>app_log_vm := add_log (log_vm_log now lvl text) (app_log_vm a)\<rparr>
      in a\<lparr>app_log_vm := log_scroll_to_end (app_log_vm a)\<rparr>)"

definition async_notify_ui_log ::
  "level \<Rightarrow> rstring \<Rightarrow> (bool \<times> 't logic_event list) option \<Rightarrow> (bool \<times> 't logic_event list) option" where
  "async_notify_ui_log lvl text notifier =
     (case notifier of
        None \<Rightarrow> None
      | Some (open, queue) \<Rightarrow> if open then Some (open, queue @ [LogicLog lvl text]) else Some (open, queue))"

section \<open>The task that reads the terminal\<close>

text \<open>
  What completes first in a round of the task's \<^verbatim>\<open>select!\<close>: the receiver of the channel is gone, the
  interval ticks, or the terminal has an event.  A terminal that fails or has ended only
  disables its branch of the round, which then waits for one of the others.
\<close>

datatype 't happening = ReceiverGone | TickDue | TerminalEvent "'t event" | TerminalFailed

definition tick_rate :: duration where
  "tick_rate = 10 ^ 9 div 30"

text \<open>The events sent, and whether the task has ended.\<close>

fun event_task_run :: "'t happening list \<Rightarrow> 't event list \<times> bool" where
  "event_task_run [] = ([], False)"
| "event_task_run (ReceiverGone # hs) = ([], True)"
| "event_task_run (TickDue # hs) = (let (es, done) = event_task_run hs in (Tick # es, done))"
| "event_task_run (TerminalEvent e # hs) = (let (es, done) = event_task_run hs in (e # es, done))"
| "event_task_run (TerminalFailed # hs) = event_task_run hs"

text \<open>
  Receiving: \<^const>\<open>None\<close> is waiting, and the error is given only when the channel is empty and every
  sender of it is gone.
\<close>

definition event_next :: "nat \<Rightarrow> 't event list \<Rightarrow> (unit + 't event) option \<times> 't event list" where
  "event_next senders queue =
     (case queue of
        e # es \<Rightarrow> (Some (Inr e), es)
      | [] \<Rightarrow> (if senders = 0 then Some (Inl ()) else None, []))"

text \<open>The handler keeps a sender of its own besides the one it gave to the task.\<close>

definition event_handler_new :: "nat \<times> 't event list" where
  "event_handler_new = (2, [])"

section \<open>The placeholder widget\<close>

definition app_widget :: drawing where
  "app_widget =
     \<lparr>d_title = [(ascii ''tui-demo'', Plain)],
      d_lines = map (\<lambda>l. [(l, Cyan)])
        [ascii ''This is a tui template.'',
         ascii ''Press `Esc`, `Ctrl-C` or `q` to stop running.'',
         ascii ''Press left and right to increment and decrement the counter respectively.''],
      d_scroll = 0, d_cursor = None\<rparr>"

section \<open>Correctness\<close>

text \<open>
  Events keep their order.  The task sends one event per tick and terminal event, in the order
  they happen, until the receiver is gone, and only then ends; a failing terminal does not end it.
  Receiving never fails while the handler exists.
\<close>

definition event_of :: "'t happening \<Rightarrow> 't event list" where
  "event_of h = (case h of TickDue \<Rightarrow> [Tick] | TerminalEvent e \<Rightarrow> [e] | _ \<Rightarrow> [])"

theorem terminal_events_in_order:
  "event_task_run hs = (concat (map event_of (takeWhile (\<lambda>h. h \<noteq> ReceiverGone) hs)), ReceiverGone \<in> set hs) \<and>
   fst (event_next (Suc k) q) \<noteq> Some (Inl ())"
proof
  show "event_task_run hs = (concat (map event_of (takeWhile (\<lambda>h. h \<noteq> ReceiverGone) hs)), ReceiverGone \<in> set hs)"
    by (induction hs rule: event_task_run.induct) (simp_all add: event_of_def)
  show "fst (event_next (Suc k) q) \<noteq> Some (Inl ())" by (simp add: event_next_def split: list.split)
qed

text \<open>What is sent by the task ends up behind what is in the channel.\<close>

lemma task_feeds_app: "events (fold event_task_send es a) = events a @ es"
  by (induction es arbitrary: a) (simp_all add: event_task_send_def)

text \<open>
  What is logged is shown.  After a line was logged, drawing the logs draws a styled line for
  every log, the last for the new one, and the list is scrolled at least to where the last row
  is visible, as long as the rows of all lines fit a machine integer.
\<close>

theorem logged_line_is_shown:
  fixes a :: "'t app_view_model"
  assumes "rect_height area > 0" "rect_width area > 0"
    and "l = log_new now lvl text" "ls = inner_msgs (app_log_vm a) @ [l]"
    and "n = (\<Sum>m \<leftarrow> ls. message_rows (uwidth U) (rect_width area - 2) (log_formart (fmt_time U) m))" "n < 2 ^ 64"
  shows "\<exists>d v. log_ui U area (app_log_vm (async_ui_log now lvl text a)) = Some (d, v) \<and>
    d_lines d = map (fmt_styled (fmt_time U)) (inner_msgs (app_log_vm a)) @ [fmt_styled (fmt_time U) l] \<and>
    inner_msgs v = ls \<and> sb_content_length (vertical_scroll_state v) = length ls \<and>
    n \<le> max (rect_height area - 2) (vertical_scroll v + (rect_height area - 2))"
proof -
  let ?v = "app_log_vm (async_ui_log now lvl text a)"
  have v: "inner_msgs ?v = ls" "vertical_scroll_at_end ?v" "inner_msgs ?v \<noteq> []"
    using assms(3,4) by (simp_all add: async_ui_log_def add_log_def log_vm_log_def logs_scroll.to_end_laws)
  from logs_fmt.scroll_result [OF assms(1,2) v(3), of "uwidth U" "fmt_time U"]
  obtain v' where v': "adjust_scroll_pos (uwidth U) (log_formart (fmt_time U)) area ?v = Some v'" "inner_msgs v' = ls"
    "if n > rect_height area - 2 then vertical_scroll v' = max (vertical_scroll ?v) (n - (rect_height area - 2)) else v' = ?v"
    using assms(5,6) v(1,2) by (auto simp: Let_def split: if_splits)
  have "n \<le> max (rect_height area - 2) (vertical_scroll v' + (rect_height area - 2))"
    using v'(3) by (auto split: if_splits)
  then show ?thesis using v'(1,2) assms(4) by (simp add: log_ui_def Let_def set_vertical_scroll_content_len_def)
qed

theorem logged_line_is_shown_witness:
  "\<exists>d v. log_ui \<lparr>fmt_time = \<lambda>_ :: nat. [55], uwidth = length, split_areas = \<lambda>r. (r, r)\<rparr>
       \<lparr>rect_x = 0, rect_y = 0, rect_width = 12, rect_height = 3\<rparr>
       (app_log_vm (async_ui_log 7 Info [104, 105] (app_view_model_new []))) = Some (d, v) \<and>
     length (d_lines d) = 1 \<and> 0 < vertical_scroll v"
proof -
  let ?U = "\<lparr>fmt_time = \<lambda>_ :: nat. [55], uwidth = length, split_areas = \<lambda>r. (r, r)\<rparr>"
  let ?area = "\<lparr>rect_x = 0, rect_y = 0, rect_width = 12, rect_height = 3\<rparr>" and ?l = "log_new (7 :: nat) Info [104, 105]"
  have "message_rows length 10 (log_formart (\<lambda>_. [55]) ?l) = 2"
    by (simp add: log_formart_def log_new_def message_rows_def rows_def line_width_def level_name_def ascii_def)
  moreover have "inner_msgs (app_log_vm (app_view_model_new [] :: nat app_view_model)) = []"
    by (simp add: app_view_model_new_def scroll_vm_new_def)
  ultimately show ?thesis
    using logged_line_is_shown [of ?area ?l 7 Info "[104, 105]" "[?l]" "app_view_model_new []" 2 ?U] by auto
qed


definition printable :: "rstring \<Rightarrow> bool" where
  "printable s \<longleftrightarrow> list_all (\<lambda>c. 32 \<le> c \<and> c < 127) s"



lemma printable_simps [simp]:
  "printable []" "printable (c # s) \<longleftrightarrow> 32 \<le> c \<and> c < 127 \<and> printable s"
  "printable (s @ s') \<longleftrightarrow> printable s \<and> printable s'"
  by (auto simp: printable_def)











end
