(* ===== verification/Unit_Tests.thy ===== *)
theory Unit_Tests
  imports Plumtree_Simulation HyParView_Simulation HyParView_Props "HOL-Library.List_Lexorder" "HOL-Library.Char_ord"
begin

text \<open>
  The unit tests of the two protocol crates (\<^verbatim>\<open>hyparview/src/lib.rs\<close>, \<^verbatim>\<open>plumtree/src/lib.rs\<close>) as predicates of the
  models: the models pass them.  Random numbers and iteration orders are arguments, as everywhere.
\<close>

section \<open>HyParView\<close>

definition single_join_works :: "'r \<Rightarrow> bool" where
  "single_join_works rng =
     (let node = hv_join ''bar'' (hv_new ''foo'' rng) in
      case hv_poll_action node of
        (Some action, node) \<Rightarrow> action = HvSend ''bar'' (mk_join ''foo'') \<and> fst (hv_poll_action node) = None
      | (None, node) \<Rightarrow> False)"

text \<open>The views of all nodes are the expected sets.\<close>

definition views_are :: "(string, 'r) hv_node list \<Rightarrow> string list \<Rightarrow> string list \<Rightarrow> bool" where
  "views_are nodes active passive \<longleftrightarrow>
     (\<forall>node \<in> set nodes. set (active_view node) = set (filter (\<lambda>n. n \<noteq> hv_id node) active) \<and>
        set (passive_view node) = set (filter (\<lambda>n. n \<noteq> hv_id node) passive))"

definition join_and_leave_works :: "(string, 'r) rng_ops \<Rightarrow> 'r \<Rightarrow> (nat \<Rightarrow> nat \<Rightarrow> nat) \<Rightarrow> bool option" where
  "join_and_leave_works R rng chance = do {
     let nodes = [hv_new ''foo'' rng, hv_new ''bar'' rng, hv_new ''baz'' rng];
     let start = list_all (\<lambda>n. active_view n = [] \<and> passive_view n = []) nodes;
     nodes \<leftarrow> execute_actions R chance 0 (map (hv_join ''foo'') nodes);
     let joined = views_are nodes [''foo'', ''bar'', ''baz''] [];
     foo \<leftarrow> hv_disconnect R ''baz'' True (nodes ! 0);
     bar \<leftarrow> hv_disconnect R ''baz'' True (nodes ! 1);
     nodes \<leftarrow> execute_actions R chance 0 [foo, bar];
     let left = views_are nodes [''foo'', ''bar''] [''baz''];
     nodes \<leftarrow> execute_actions R chance 0 (nodes @ [hv_join ''bar'' (hv_new ''baz'' rng)]);
     let rejoined = views_are nodes [''foo'', ''bar'', ''baz''] [];
     foo \<leftarrow> hv_disconnect R ''baz'' False (nodes ! 0);
     bar \<leftarrow> hv_disconnect R ''baz'' False (nodes ! 1);
     nodes \<leftarrow> execute_actions R chance 0 [foo, bar];
     Some (start \<and> joined \<and> left \<and> rejoined \<and> views_are nodes [''foo'', ''bar''] [])
   }"

lemma single_join_test_passes: "single_join_works rng"
  by (simp add: single_join_works_def hv_join_def send_to_def send_def hv_poll_action_def hv_new_def hv_with_options_def)

text \<open>Evaluation goes on behind a step only once the step has a result.\<close>

lemma bind_weak_cong: "x = y \<Longrightarrow> Option.bind x f = Option.bind y f"
  by simp

lemmas simulation_evaluate = is_expired_def decrement_def saturating_sub_def forwarding_candidates.simps list_swap_def
  execute_actions.simps simulate_node_def periodic_call_def perform_action_def
  hv_with_options_def hv_new_def send_def push_action_def
  send_to_def hv_poll_action_def is_active_view_full_def is_passive_view_full_def
  remove_random_from_passive_view_if_full_def add_to_passive_view_def remove_from_passive_view_def remove_from_active_view_by_index_def
  remove_from_active_view_def remove_random_from_active_view_if_full_def add_to_active_view_def disconnect_unless_active_view_node_def
  select_forwarding_destination_def select_random_from_active_view_def select_random_from_passive_view_def hv_join_def
  shuffle_passive_view_def fill_active_view_def sync_active_view_def handle_join_def
  handle_forward_join_def handle_neighbor_def handle_shuffle_def handle_shuffle_reply_def
  handle_disconnect_def hv_handle_protocol_message_def hv_disconnect_def hv_evaluate

lemma join_and_leave_test_passes: "join_and_leave_works counting_rng 0 (\<lambda>_ _. 29) = Some True"
  unfolding join_and_leave_works_def
  by (simp add: simulation_evaluate views_are_def insert_commute cong: bind_weak_cong)

definition limit_active_view_size_works :: "(string, 'r) rng_ops \<Rightarrow> 'r \<Rightarrow> (nat \<Rightarrow> nat \<Rightarrow> nat) \<Rightarrow> bool option" where
  "limit_active_view_size_works R rng chance = do {
     let options = default_node_options\<lparr>max_active_view_size := 2, active_random_walk_len := 2\<rparr>;
     let ids = [''foo'', ''bar'', ''baz'', ''qux''];
     nodes \<leftarrow> execute_actions R chance 0 (map (hv_join ''foo'') (map (\<lambda>i. hv_with_options i rng options) ids));
     Some (list_all (\<lambda>n. length (active_view n) = 2 \<and>
       (let peers = set (filter (\<lambda>i. i \<noteq> hv_id n) ids) in
        set (active_view n) \<subseteq> peers \<and>
        (passive_view n \<noteq> [] \<longrightarrow> set (passive_view n) = peers - set (active_view n)))) nodes)
   }"

lemma limit_active_view_size_test_passes:
  "limit_active_view_size_works counting_rng 0 (\<lambda>_ _. 29) = Some True"
  unfolding limit_active_view_size_works_def
  by (simp add: simulation_evaluate insert_commute cong: bind_weak_cong) auto

section \<open>Plumtree\<close>

definition connect_edge :: "(string, nat) iter_ops \<Rightarrow> string \<times> string \<Rightarrow>
    (string, nat, unit) pt_node list \<Rightarrow> (string, nat, unit) pt_node list option" where
  "connect_edge I e ns = do {
     ns \<leftarrow> with_node (fst e) (\<lambda>n. Some (handle_neighbor_up I (snd e) n)) ns;
     with_node (snd e) (\<lambda>n. Some (handle_neighbor_up I (fst e) n)) ns
   }"

fun connect_edges :: "(string, nat) iter_ops \<Rightarrow> (string \<times> string) list \<Rightarrow>
    (string, nat, unit) pt_node list \<Rightarrow> (string, nat, unit) pt_node list option" where
  "connect_edges I [] ns = Some ns"
| "connect_edges I (e # es) ns = Option.bind (connect_edge I e ns) (connect_edges I es)"

definition multi_node_works :: "(string, nat) iter_ops \<Rightarrow> bool option" where
  "multi_node_works I = do {
     nodes \<leftarrow> connect_edges I
       [(''foo'', ''bar''), (''foo'', ''qux''), (''bar'', ''baz''), (''bar'', ''qux'')]
       [pt_new ''foo'', pt_new ''bar'', pt_new ''baz'', pt_new ''qux''];
     let connected = map (\<lambda>n. card (eager_push_peers n)) nodes = [2, 3, 1, 2];
     nodes \<leftarrow> execute I (nodes[0 := broadcast_message I (test_message 0) (nodes ! 0)]);
     Some (connected \<and> list_all (\<lambda>n. dom (messages n) = {0} \<and> pt_waiting_messages n = 0) nodes)
   }"


lemma multi_node_test_passes: "multi_node_works sorted_iter = Some True"
  unfolding multi_node_works_def
  by (simp add: execute.simps drain_node.simps hand_to_def connect_edge_def test_message_def pt_new_def network_evaluate
      handle_prune_def handle_graft_def insert_Diff_if less_char_def cong: bind_weak_cong)

end
