(* ===== verification/Many_Nodes.thy ===== *)
theory Many_Nodes
  imports Unit_Tests Debug_Text
begin

text \<open>
  The test of many nodes with random links (\<^verbatim>\<open>many_node_works\<close> of \<^verbatim>\<open>plumtree/src/lib.rs\<close>): on every connected
  choice of links the run returns, and its outcome says only whether some node still waits; a
  node that was linked to itself alone makes it fail.  The random numbers are arguments: \<open>degree i\<close> and
  \<open>choice i k\<close> are drawn for the links of node \<open>i\<close>, \<open>sender m\<close> for message \<open>m\<close>.
\<close>

section \<open>The test\<close>

definition many_links :: "nat \<Rightarrow> (nat \<Rightarrow> nat) \<Rightarrow> (nat \<Rightarrow> nat \<Rightarrow> nat) \<Rightarrow> (nat \<times> nat) list" where
  "many_links n degree choice =
     concat (map (\<lambda>i. map (\<lambda>k. (i, choice i k mod n)) [0..<degree i mod 3 + 1]) [0..<n])"

definition link_pair :: "(string, nat) iter_ops \<Rightarrow> nat \<times> nat \<Rightarrow>
    (string, nat, unit) pt_node list \<Rightarrow> (string, nat, unit) pt_node list" where
  "link_pair I e nodes =
     (let (i, j) = e;
          nodes = nodes[i := handle_neighbor_up I (show_nat j) (nodes ! i)]
      in nodes[j := handle_neighbor_up I (show_nat i) (nodes ! j)])"

definition publish_from :: "(string, nat) iter_ops \<Rightarrow> (nat \<Rightarrow> nat) \<Rightarrow> nat \<Rightarrow>
    (string, nat, unit) pt_node list \<Rightarrow> (string, nat, unit) pt_node list" where
  "publish_from I sender m nodes =
     (let s = sender m mod length nodes in nodes[s := broadcast_message I (test_message m) (nodes ! s)])"

definition many_nodes :: "(string, nat) iter_ops \<Rightarrow> nat \<Rightarrow> (nat \<Rightarrow> nat) \<Rightarrow> (nat \<Rightarrow> nat \<Rightarrow> nat) \<Rightarrow>
    (string, nat, unit) pt_node list" where
  "many_nodes I n degree choice =
     fold (link_pair I) (many_links n degree choice) (map (\<lambda>i. pt_new (show_nat i)) [0..<n])"

definition network_of_nodes_works :: "(string, nat) iter_ops \<Rightarrow> nat \<Rightarrow> nat \<Rightarrow> (nat \<Rightarrow> nat) \<Rightarrow> (nat \<Rightarrow> nat \<Rightarrow> nat) \<Rightarrow>
    (nat \<Rightarrow> nat) \<Rightarrow> bool option" where
  "network_of_nodes_works I n num degree choice sender =
     map_option (list_all (\<lambda>node. card (dom (messages node)) = num \<and> pt_waiting_messages node = 0))
       (execute I (fold (publish_from I sender) [0..<num] (many_nodes I n degree choice)))"

definition many_node_works :: "(string, nat) iter_ops \<Rightarrow> (nat \<Rightarrow> nat) \<Rightarrow> (nat \<Rightarrow> nat \<Rightarrow> nat) \<Rightarrow>
    (nat \<Rightarrow> nat) \<Rightarrow> bool option" where
  "many_node_works I degree choice sender = network_of_nodes_works I 500 50 degree choice sender"

section \<open>The links\<close>

lemma ups_of_fresh:
  assumes I: "iter_ops_ok I" and "messages n = Map.empty" "lazy_push_peers n = {}"
  shows "fold (handle_neighbor_up I) ps n = n\<lparr>eager_push_peers := eager_push_peers n \<union> (set ps - {pt_id n})\<rparr>"
  using assms(2,3)
proof (induction ps arbitrary: n)
  case (Cons p ps)
  have "key_iter I {} = []" using I by (auto simp: iter_ops_ok_def iter_ok_def)
  then have "handle_neighbor_up I p n = n\<lparr>eager_push_peers := eager_push_peers n \<union> ({p} - {pt_id n})\<rparr>"
  proof (cases "p \<in> eager_push_peers n \<or> p = pt_id n")
    case True
    then have "eager_push_peers n \<union> ({p} - {pt_id n}) = eager_push_peers n" by auto
    then show ?thesis using True Cons.prems by (auto simp: handle_neighbor_up_eq known_peers_def)
  next
    case False
    then show ?thesis using \<open>key_iter I {} = []\<close> Cons.prems by (auto simp: handle_neighbor_up_eq known_peers_def)
  qed
  then show ?case using Cons.IH [of "n\<lparr>eager_push_peers := eager_push_peers n \<union> ({p} - {pt_id n})\<rparr>"] Cons.prems
    by (simp add: Un_assoc insert_Diff_if Un_Diff)
qed simp

lemmas up_of_fresh = ups_of_fresh [where ps = "[p]" for p, simplified]

definition linked_to :: "(nat \<times> nat) set \<Rightarrow> nat \<Rightarrow> nat set" where
  "linked_to E i = {j. j \<noteq> i \<and> ((i, j) \<in> E \<or> (j, i) \<in> E)}"

definition linked :: "(nat \<times> nat) set \<Rightarrow> nat \<Rightarrow> (string, nat, unit) pt_node" where
  "linked E i = (pt_new (show_nat i))\<lparr>eager_push_peers := show_nat ` linked_to E i\<rparr>"

lemma fresh_node [simp]:
  "messages (pt_new p) = Map.empty" "lazy_push_peers (pt_new p) = {}" "eager_push_peers (pt_new p) = {}" "pt_id (pt_new p) = p"
  "pt_actions (pt_new p) = []" "missings (pt_new p) = missing_new" "pt_clock (pt_new p) = 0"
  "pt_opts (pt_new p) = default_pt_options"
  by (simp_all add: pt_new_def pt_evaluate)

lemma show_nat_image: "show_nat j \<in> show_nat ` A \<longleftrightarrow> j \<in> A"
  by (auto simp: show_nat_inject)

lemma map_upt_update: "i < n \<Longrightarrow> (map f [0..<n])[i := x] = map (f(i := x)) [0..<n]"
  by (rule nth_equalityI) (auto simp: nth_list_update)

lemma up_linked:
  assumes "iter_ops_ok I"
  shows "handle_neighbor_up I (show_nat j) (linked E i) =
    (linked E i)\<lparr>eager_push_peers := show_nat ` (linked_to E i \<union> ({j} - {i}))\<rparr>"
  using up_of_fresh [OF assms, of "linked E i" "show_nat j"]
  by (cases "i = j") (auto simp: linked_def show_nat_inject insert_Diff_if)

lemma linked_insert:
  "linked (insert (a, b) E) i = (linked E i)\<lparr>eager_push_peers := show_nat `
     (linked_to E i \<union> ((if i = a then {b} else {}) \<union> (if i = b then {a} else {}) - {i}))\<rparr>"
proof -
  have "linked_to (insert (a, b) E) i =
      linked_to E i \<union> ((if i = a then {b} else {}) \<union> (if i = b then {a} else {}) - {i})"
    by (auto simp: linked_to_def)
  then show ?thesis by (simp only: linked_def) simp
qed

lemma links_made:
  assumes I: "iter_ops_ok I" and "set E \<subseteq> {..<n} \<times> {..<n}"
  shows "fold (link_pair I) E (map (\<lambda>i. pt_new (show_nat i)) [0..<n]) = map (linked (set E)) [0..<n]"
  using assms(2)
proof (induction E rule: rev_induct)
  case Nil
  show ?case by (simp add: linked_def linked_to_def)
next
  case (snoc e E)
  obtain a b where e: "e = (a, b)" "a < n" "b < n" using snoc.prems by (cases e) auto
  have up: "handle_neighbor_up I (show_nat j) ((linked (set E) i)\<lparr>eager_push_peers := show_nat ` A\<rparr>) =
      (linked (set E) i)\<lparr>eager_push_peers := show_nat ` (A \<union> ({j} - {i}))\<rparr>" for i j A
    using up_of_fresh [OF I, of "(linked (set E) i)\<lparr>eager_push_peers := show_nat ` A\<rparr>" "show_nat j"]
    by (cases "i = j") (auto simp: linked_def show_nat_inject insert_Diff_if)
  have self: "linked (set E) i = (linked (set E) i)\<lparr>eager_push_peers := show_nat ` linked_to (set E) i\<rparr>" for i
    by (simp add: linked_def)
  have "link_pair I e (map (linked (set E)) [0..<n]) = map (linked (set (E @ [(a, b)]))) [0..<n]"
  proof (rule nth_equalityI)
    fix i assume i: "i < length (link_pair I e (map (linked (set E)) [0..<n]))"
    then show "link_pair I e (map (linked (set E)) [0..<n]) ! i = map (linked (set (E @ [(a, b)]))) [0..<n] ! i"
      using e
      by (cases "a = b") (auto simp: link_pair_def Let_def nth_list_update linked_insert up up_linked [OF I] self [symmetric])
  qed (simp add: link_pair_def e(1) Let_def)
  then show ?case using snoc e(1) by simp
qed

section \<open>The network of the test\<close>

definition name_links :: "(nat \<times> nat) set \<Rightarrow> nat \<Rightarrow> string \<Rightarrow> string list" where
  "name_links E n p = map show_nat (filter (\<lambda>j. \<exists>i<n. p = show_nat i \<and> j \<in> linked_to E i) [0..<n])"

definition all_connected :: "nat \<Rightarrow> (nat \<times> nat) set \<Rightarrow> bool" where
  "all_connected n E \<longleftrightarrow> (\<forall>i<n. \<forall>j<n. (i, j) \<in> {(a, b). b \<in> linked_to E a}\<^sup>*)"

lemma linked_to_less: "E \<subseteq> {..<n} \<times> {..<n} \<Longrightarrow> j \<in> linked_to E i \<Longrightarrow> i < n \<and> j < n"
  by (auto simp: linked_to_def)

lemma set_name_links:
  assumes "E \<subseteq> {..<n} \<times> {..<n}" "i < n"
  shows "set (name_links E n (show_nat i)) = show_nat ` linked_to E i"
  using linked_to_less [OF assms(1)] assms(2) by (auto simp: name_links_def show_nat_inject)

lemma names_linked:
  assumes E: "E \<subseteq> {..<n} \<times> {..<n}"
  shows "net_links (show_nat ` {..<n}) (name_links E n)"
    and "all_connected n E \<Longrightarrow> net_connected (show_nat ` {..<n}) (name_links E n)"
proof -
  have sym: "j \<in> linked_to E i \<Longrightarrow> i \<in> linked_to E j \<and> i \<noteq> j" for i j by (auto simp: linked_to_def)
  show "net_links (show_nat ` {..<n}) (name_links E n)"
    using sym linked_to_less [OF E] by (auto simp: net_links_def set_name_links [OF E] show_nat_inject show_nat_image)
  let ?R = "{(a, b). a \<in> show_nat ` {..<n} \<and> b \<in> set (name_links E n a)}"
  have path: "(i, j) \<in> {(a, b). b \<in> linked_to E a}\<^sup>* \<Longrightarrow> i < n \<Longrightarrow> (show_nat i, show_nat j) \<in> ?R\<^sup>*" for i j
  proof (induction rule: rtrancl_induct)
    case (step j k)
    then have "(show_nat j, show_nat k) \<in> ?R" using linked_to_less [OF E] by (auto simp: set_name_links [OF E])
    with step show ?case by (meson rtrancl.rtrancl_into_rtrancl)
  qed simp
  then show "all_connected n E \<Longrightarrow> net_connected (show_nat ` {..<n}) (name_links E n)"
    by (auto simp: all_connected_def net_connected_def)
qed

lemma start_linked:
  assumes "iter_ops_ok I" "E \<subseteq> {..<n} \<times> {..<n}" "i < n"
  shows "net_nodes (net_start I (name_links E n) (\<lambda>p. default_pt_options)) (show_nat i) = linked E i"
proof -
  have "show_nat i \<notin> set (name_links E n (show_nat i))"
    using set_name_links [OF assms(2,3)] by (auto simp: linked_to_def show_nat_inject)
  then show ?thesis using ups_of_fresh [OF assms(1), of "pt_new (show_nat i)" "name_links E n (show_nat i)"]
    by (simp add: net_start_def pt_new_def [symmetric] linked_def set_name_links [OF assms(2,3)])
qed

section \<open>The messages\<close>

lemma all_published:
  assumes I: "iter_ops_ok I" and E: "E \<subseteq> {..<n} \<times> {..<n}" and n: "0 < n"
  defines "V \<equiv> show_nat ` {..<n}"
  shows "\<exists>xs N. net_run I V (net_start I (name_links E n) (\<lambda>p. default_pt_options)) xs N \<and> publications xs = k \<and>
    in_flight N = [] \<and> published N = map test_message [0..<k] \<and> net_within V (from_millis 500) 0 0 N \<and>
    map (net_nodes N) (map show_nat [0..<n]) = fold (publish_from I sender) [0..<k] (map (linked E) [0..<n])"
proof (induction k)
  case 0
  let ?N = "net_start I (name_links E n) (\<lambda>p. default_pt_options) :: (string, nat, unit) pt_network"
  have "within (from_millis 500) 0 0 (linked E i)" for i
    by (simp add: within_def linked_def default_pt_options_def missing_within_def missing_new_def)
  then have "net_within V (from_millis 500) 0 0 ?N" using start_linked [OF I E] by (auto simp: net_within_def V_def)
  moreover have "in_flight ?N = []" "published ?N = []" by (simp_all add: net_start_def)
  ultimately show ?case using start_linked [OF I E] by (intro exI [of _ "[]"] exI [of _ ?N]) (auto intro: net_done)
next
  case (Suc k)
  then obtain xs N where N: "net_run I V (net_start I (name_links E n) (\<lambda>p. default_pt_options)) xs N" "publications xs = k"
    "in_flight N = []" "published N = map test_message [0..<k]" "net_within V (from_millis 500) 0 0 N"
    "map (net_nodes N) (map show_nat [0..<n]) = fold (publish_from I sender) [0..<k] (map (linked E) [0..<n])" by blast
  define s where "s = sender k mod n"
  have s: "s < n" using n by (simp add: s_def)
  let ?N = "N\<lparr>net_nodes := (net_nodes N)(show_nat s := broadcast_message I (test_message k) (net_nodes N (show_nat s))),
    published := published N @ [test_message k]\<rparr>"
  have "msg_id (test_message k) \<notin> msg_id ` set (published N)" by (auto simp: N(4) test_message_def)
  then have "net_step I V N (Publish (show_nat s) (test_message k)) ?N" using s by (intro net_step.publish) (auto simp: V_def)
  then have run: "net_run I V (net_start I (name_links E n) (\<lambda>p. default_pt_options)) (xs @ [Publish (show_nat s) (test_message k)]) ?N"
    by (intro net_run_append [OF N(1)]) (auto intro: net_more net_done)
  have "within (from_millis 500) 0 0 (net_nodes N (show_nat s))" using N(5) s by (simp add: net_within_def V_def)
  then have "within (from_millis 500) 0 0 (broadcast_message I (test_message k) (net_nodes N (show_nat s)))"
    by (simp add: within_def broadcast_message_eq)
  then have "net_within V (from_millis 500) 0 0 ?N" using N(5) by (simp add: net_within_def)
  moreover have "map (net_nodes ?N) (map show_nat [0..<n]) = publish_from I sender k (map (net_nodes N) (map show_nat [0..<n]))"
    using s by (intro nth_equalityI) (auto simp: publish_from_def Let_def s_def [symmetric] nth_list_update show_nat_inject)
  ultimately show ?case using run N by (intro exI [of _ "xs @ [Publish (show_nat s) (test_message k)]"] exI [of _ ?N]) (simp del: fun_upd_apply)
qed

section \<open>A node without links\<close>

lemma alone_step:
  assumes step: "net_step I V N x N'" and inv: "net_inv V N" and p: "p \<in> V"
    and alone: "known_peers (node_at N p) = {}" and x: "\<not> is_publish x"
  shows "messages (node_at N' p) = messages (node_at N p)"
proof -
  have wf: "pt_wf (node_at N p)" by (rule net_wf_at(2) [OF _ p]) (use inv in \<open>simp add: net_inv_def\<close>)
  have poll: "messages n = messages (node_at N p)" if polled: "pt_poll_action (node_at N p) = Some (a, n)" for a n
  proof -
    obtain n1 where "handle_expiration (node_at N p) = Some n1" "messages n = messages n1"
      using polled by (auto simp: pt_poll_action_expiration)
    then show ?thesis using handle_expiration_ok [OF wf] by (auto simp: grafting_def)
  qed
  from step show ?thesis
  proof cases
    case (arrive xs d m ys b n)
    have ev: "net_evidence V N" and wf: "net_wf V N" using inv by (simp_all add: net_inv_def)
    have "(d, m) \<in> packets V N" by (simp add: packets_def arrive(3))
    note packet = net_evidence_packet [OF ev this]
    have "pt_sender m \<in> known_peers (node_at N d)" using net_wf_at(5) [OF wf packet(2,3)] .
    then have "d \<noteq> p" using alone by auto
    then show ?thesis by (simp add: arrive(2))
  qed (use x poll in \<open>auto simp: pt_tick_def\<close>)
qed

lemma alone_run:
  "net_run I V N xs N' \<Longrightarrow> net_inv V N \<Longrightarrow> iter_ops_ok I \<Longrightarrow> p \<in> V \<Longrightarrow> known_peers (node_at N p) = {} \<Longrightarrow>
     publications xs = 0 \<Longrightarrow> messages (node_at N' p) = messages (node_at N p)"
proof (induction rule: net_run.induct)
  case (net_more N x N1 xs N2)
  then show ?case
    using alone_step [OF net_more.hyps(1) net_more.prems(1,3,4)] net_step_inv [OF net_more.hyps(1) net_more.prems(1,2)]
      net_step_known [OF net_more.hyps(1) net_more.prems(1), of p] by (auto split: if_splits)
qed simp

section \<open>The outcome of the test\<close>

lemma many_links_in: "0 < n \<Longrightarrow> set (many_links n degree choice) \<subseteq> {..<n} \<times> {..<n}"
  by (auto simp: many_links_def)

lemma published_at:
  assumes "0 < n" "i < n"
  shows "i < length (fold (publish_from I sender) ms (map (linked E) [0..<n])) \<and>
    length (fold (publish_from I sender) ms (map (linked E) [0..<n])) = n \<and>
    dom (messages (fold (publish_from I sender) ms (map (linked E) [0..<n]) ! i)) = {m \<in> set ms. sender m mod n = i}"
proof (induction ms rule: rev_induct)
  case Nil
  show ?case using assms by (simp add: linked_def)
next
  case (snoc m ms)
  then show ?case
    by (auto simp: publish_from_def Let_def nth_list_update broadcast_message_eq test_message_def)
qed

text \<open>The simulation of the test, and what it says about a node that can hear nobody.\<close>

lemma many_nodes_run:
  fixes degree choice sender
  assumes I: "iter_ops_ok I" and n: "0 < n" "n \<le> 500" and num: "num \<le> 50"
  defines "E \<equiv> set (many_links n degree choice)"
    and "nodes \<equiv> fold (publish_from I sender) [0..<num] (many_nodes I n degree choice)"
  shows "\<exists>ns. execute I nodes = Some ns \<and> pt_id ` set ns = show_nat ` {..<n} \<and>
    (all_connected n E \<longrightarrow> (\<forall>h \<in> set ns. pt_waiting_messages h = 0) \<longrightarrow> (\<forall>h \<in> set ns. card (dom (messages h)) = num)) \<and>
    (\<forall>i<n. linked_to E i = {} \<longrightarrow> (\<exists>h \<in> set ns. dom (messages h) = {m \<in> {..<num}. sender m mod n = i}))"
proof -
  let ?start = "net_start I (name_links E n) (\<lambda>p. default_pt_options) :: (string, nat, unit) pt_network"
  let ?V = "show_nat ` {..<n}" and ?names = "map show_nat [0..<n]"
  have E: "E \<subseteq> {..<n} \<times> {..<n}" unfolding E_def by (rule many_links_in [OF n(1)])
  have nodes: "nodes = fold (publish_from I sender) [0..<num] (map (linked E) [0..<n])"
    unfolding nodes_def many_nodes_def E_def by (simp add: links_made [OF I many_links_in [OF n(1)]])
  obtain xs N where N: "net_run I ?V ?start xs N" "publications xs = num" "in_flight N = []"
      "published N = map test_message [0..<num]" "net_within ?V (from_millis 500) 0 0 N" "map (net_nodes N) ?names = nodes"
    using all_published [OF I E n(1), of num sender] unfolding nodes by blast
  note reached = run_from_start [OF I names_linked(1) [OF E] N(1)]
  have V: "set ?names = ?V" "distinct ?names" by (auto simp: distinct_map inj_on_def show_nat_inject atLeast0LessThan)
  have room: "0 + (2 * from_millis 500 + from_millis 100) *
        Suc ((9 * length ?names + 5) * length ?names * publications xs) \<le> DURATION_MAX"
      "0 + Suc ((9 * length ?names + 5) * length ?names * publications xs) < 2 ^ 64"
  proof -
    have "(9 * n + 5) * n * num \<le> (9 * 500 + 5) * 500 * 50" using n(2) num by (intro mult_le_mono) simp_all
    then show "0 + (2 * from_millis 500 + from_millis 100) *
        Suc ((9 * length ?names + 5) * length ?names * publications xs) \<le> DURATION_MAX"
      "0 + Suc ((9 * length ?names + 5) * length ?names * publications xs) < 2 ^ 64"
      by (simp_all add: N(2) from_millis_def DURATION_MAX_def)
  qed
  obtain ns ys M where ns: "execute I nodes = Some ns" "net_run I ?V N ys M" "publications ys = 0"
    "listed ns M" "pt_id ` set ns = ?V" "\<forall>h \<in> set ns. pt_actions h = []"
    using simulation_run [of I ?names, unfolded V(1), OF I names_linked(1) [OF E] V(2) N(1,3,5) room] unfolding N(6) by blast
  note pub = net_run_published [OF ns(2,3)]
  have "card (dom (messages h)) = num" if "all_connected n E" "\<forall>h \<in> set ns. pt_waiting_messages h = 0" "h \<in> set ns" for h
  proof -
    have "dom (messages h) = msg_id ` set (published M)"
      using idle_nodes_store [OF I names_linked(1) [OF E] names_linked(2) [OF E that(1)] net_run_append [OF N(1) ns(2)] ns(4,5)]
        ns(6) that(2,3) by blast
    then have "dom (messages h) = {0..<num}" by (simp add: pub N(4) test_message_def image_image)
    then show ?thesis by simp
  qed
  moreover have "\<exists>h \<in> set ns. dom (messages h) = {m \<in> {..<num}. sender m mod n = i}" if i: "i < n" "linked_to E i = {}" for i
  proof -
    have p: "show_nat i \<in> ?V" using i(1) by simp
    then obtain h where h: "h \<in> set ns" "pt_id h = show_nat i" using ns(5) by (metis imageE)
    have "known_peers (net_nodes N (show_nat i)) = {}" using reached(2) [OF p] set_name_links [OF E i(1)] i(2) by simp
    from alone_run [OF ns(2) reached(1) I p this ns(3)]
    have "messages h = messages (net_nodes N (show_nat i))" using ns(4) h unfolding listed_def by metis
    also have "net_nodes N (show_nat i) = nodes ! i" using i(1) by (simp add: N(6) [symmetric])
    finally show ?thesis using published_at [OF n(1) i(1), of I sender "[0..<num]" E]
      by (intro bexI [OF _ h(1)]) (auto simp: nodes)
  qed
  ultimately show ?thesis using ns(1,5) by blast
qed

text \<open>
  The test returns.  If the random links connect all nodes it succeeds exactly when no node waits for
  a message at the end.  If some node drew only itself and was drawn by nobody, and another node is
  the sender of a message, it fails.
\<close>

theorem many_node_test_outcome:
  fixes degree choice sender
  assumes I: "iter_ops_ok I" and n: "0 < n" "n \<le> 500" and num: "num \<le> 50"
  defines "E \<equiv> set (many_links n degree choice)"
    and "works \<equiv> network_of_nodes_works I n num degree choice sender"
  shows "\<exists>ns. execute I (fold (publish_from I sender) [0..<num] (many_nodes I n degree choice)) = Some ns \<and>
    (all_connected n E \<longrightarrow> works = Some (\<forall>h \<in> set ns. pt_waiting_messages h = 0)) \<and>
    ((\<exists>i<n. linked_to E i = {} \<and> (\<exists>m<num. sender m mod n \<noteq> i)) \<longrightarrow> works = Some False)"
proof -
  from many_nodes_run [OF I n num, of sender degree choice, folded E_def]
  obtain ns where ns: "execute I (fold (publish_from I sender) [0..<num] (many_nodes I n degree choice)) = Some ns"
    "all_connected n E \<longrightarrow> (\<forall>h \<in> set ns. pt_waiting_messages h = 0) \<longrightarrow> (\<forall>h \<in> set ns. card (dom (messages h)) = num)"
    "\<forall>i<n. linked_to E i = {} \<longrightarrow> (\<exists>h \<in> set ns. dom (messages h) = {m \<in> {..<num}. sender m mod n = i})"
    by (elim exE conjE) (rule that)
  have works: "works = Some (\<forall>h \<in> set ns. card (dom (messages h)) = num \<and> pt_waiting_messages h = 0)"
    by (simp add: works_def network_of_nodes_works_def ns(1) list_all_iff)
  have "works = Some False" if i: "i < n" "linked_to E i = {}" and m: "m < num" "sender m mod n \<noteq> i" for i m
  proof -
    obtain h where h: "h \<in> set ns" "dom (messages h) = {m \<in> {..<num}. sender m mod n = i}" using ns(3) i by blast
    have "{m \<in> {..<num}. sender m mod n = i} \<subset> {..<num}" using m by auto
    then have "card (dom (messages h)) < num" using psubset_card_mono [of "{..<num}"] h(2) by simp
    then have "\<not> (\<forall>h \<in> set ns. card (dom (messages h)) = num \<and> pt_waiting_messages h = 0)"
      using h(1) by (metis less_irrefl)
    then show ?thesis using works by (simp only: simp_thms)
  qed
  moreover have "works = Some (\<forall>h \<in> set ns. pt_waiting_messages h = 0)" if "all_connected n E"
  proof -
    have "(\<forall>h \<in> set ns. card (dom (messages h)) = num \<and> pt_waiting_messages h = 0) \<longleftrightarrow>
        (\<forall>h \<in> set ns. pt_waiting_messages h = 0)"
      using ns(2) that by blast
    then show ?thesis using works by (simp only:)
  qed
  ultimately show ?thesis using ns(1) by blast
qed

theorem many_node_test_outcome_witness:
  "network_of_nodes_works sorted_iter 2 1 (\<lambda>_. 0) (\<lambda>i _. i) (\<lambda>_. 0) = Some False"
proof -
  let ?E = "set (many_links 2 (\<lambda>_. 0) (\<lambda>i _. i))"
  have "linked_to ?E 1 = {}" by (auto simp: many_links_def linked_to_def)
  then have "\<exists>i<2. linked_to ?E i = {} \<and> (\<exists>m<1 :: nat. (\<lambda>_. 0 :: nat) m mod 2 \<noteq> i)" by (intro exI [of _ "1 :: nat"]) simp
  then show ?thesis
    using many_node_test_outcome [OF sorted_iter_ok, where n = 2 and num = 1 and degree = "\<lambda>_. 0"
        and choice = "\<lambda>i _. i" and sender = "\<lambda>_. 0"] by auto
qed

end
