(* ===== verification/Spec2Isabelle.thy ===== *)
theory Spec2Isabelle
  imports HyParView_Handlers Plumtree_Repair Failed_Sends Vector_Clock Connection_Pool Server_Setup
    Gpt_Chat Chat_Node HyParView_Simulation Program Two_Nodes
    Plumtree_Simulation Plumtree_Range Plumtree_Text Identifier_Text Ui_Tasks Many_Nodes
begin

text \<open>
  A verification library for a peer-to-peer chat program in Rust.  The program has three crates
  under \<^verbatim>\<open>src/\<close>: \<^verbatim>\<open>hyparview\<close> keeps a small active and a larger passive view of the other nodes,
  \<^verbatim>\<open>plumtree\<close> broadcasts messages along a tree over the active view and repairs it with lazy
  announcements, and \<^verbatim>\<open>p2p\<close> drives both over QUIC connections and holds the user interface.

  \<^bold>\<open>How the parts interact.\<close>  The two protocol nodes do no input or output: an operation changes
  the node and appends to its queue of actions (send, disconnect, notify, deliver).  The
  application node polls both queues in a loop: it sends through its server, passes a
  neighbour notification of HyParView on to Plumtree, keeps delivered messages in a buffer
  ordered by timestamp and hands them out in that order, and feeds the messages of its inbox to
  the protocol nodes.  Tasks of the server fill the inbox from the streams of each connection;
  tasks that fail to send put a disconnect of their destination into it.  The chat program polls
  the application node and broadcasts the lines that were typed.

  \<^bold>\<open>Conventions.\<close>  A panic is \<^const>\<open>None\<close>; arithmetic on machine integers panics on overflow, wraps
  or saturates as the code has it; 64-bit counters are natural numbers with explicit bounds.
  An error result is a left summand.  What is outside the repository is an argument: random
  numbers (\<^verbatim>\<open>rng_ops\<close>), the iteration order of hashed collections (\<^verbatim>\<open>iter_ops\<close>), the system clock
  (\<^verbatim>\<open>world_ops\<close>), the network (\<^verbatim>\<open>network\<close>), cryptography and encodings (\<^verbatim>\<open>crypto\<close> with the laws
  \<^verbatim>\<open>crypto_ok\<close>), sockets and STUN (\<^verbatim>\<open>endpoint_io\<close>, \<^verbatim>\<open>setup_io\<close>), text width and time formats
  (\<^verbatim>\<open>ui_env\<close>).

  \<^bold>\<open>Theories.\<close>

  \<^item> \<^verbatim>\<open>Prelude\<close>: machine integers, \<^verbatim>\<open>Duration\<close>, operations of \<^verbatim>\<open>Vec\<close>, the random generator and the
    iteration orders.
  \<^item> \<^verbatim>\<open>HyParView_Types\<close>, \<^verbatim>\<open>HyParView_Node\<close> (\<^verbatim>\<open>hyparview/src\<close>): messages, actions, options and
    every handler of \<^verbatim>\<open>node.rs\<close> under its name.  \<^verbatim>\<open>HyParView_Inv\<close> proves the invariant of the
    views and that queued notifications replay the active view, \<^verbatim>\<open>HyParView_Total\<close> that nothing
    panics with positive view sizes, \<^verbatim>\<open>HyParView_Props\<close> states both for reachable states through
    the interfaces \<^verbatim>\<open>view_operation\<close> and \<^verbatim>\<open>safe_view_operation\<close>, \<^verbatim>\<open>HyParView_Handlers\<close> the effect of
    each handler and the symmetric link after a join.
  \<^item> \<^verbatim>\<open>HyParView_Links\<close>: a network of HyParView nodes as a step relation (call, poll, arrive in any
    order, lose what is sent to nobody).  Every operation announces its changes of the active view
    (interface \<^verbatim>\<open>linking_operation\<close>), so a link of one side only is being repaired by a message that
    is queued or under way.  \<^verbatim>\<open>HyParView_Simulation\<close>: the simulation of \<^verbatim>\<open>hyparview/src/lib.rs\<close>, which
    drives this network; the links of an idle network are symmetric.
  \<^item> \<^verbatim>\<open>Timeout_Heap\<close>, \<^verbatim>\<open>Plumtree_Types\<close>, \<^verbatim>\<open>Plumtree_Missing\<close>, \<^verbatim>\<open>Plumtree_Node\<close> (\<^verbatim>\<open>plumtree/src\<close>): the
    binary heap of timers behind the interface \<^verbatim>\<open>priority_queue\<close>, messages and the clock
    (\<^verbatim>\<open>message.rs\<close>, \<^verbatim>\<open>action.rs\<close>, \<^verbatim>\<open>time.rs\<close>), the missing messages (\<^verbatim>\<open>missing.rs\<close>) and the node.
    \<^verbatim>\<open>Plumtree_Inv\<close> and \<^verbatim>\<open>Plumtree_Props\<close> prove the peer sets (interfaces \<^verbatim>\<open>peer_operation\<close>,
    \<^verbatim>\<open>safe_peer_operation\<close>), \<^verbatim>\<open>Plumtree_Delivery\<close> delivery at most once, forwarding and the only
    panics, \<^verbatim>\<open>Plumtree_Repair\<close> timers, termination of polls and the repair by GRAFT.
  \<^item> \<^verbatim>\<open>Plumtree_Spread\<close>, \<^verbatim>\<open>Plumtree_Network\<close>, \<^verbatim>\<open>Plumtree_Broadcast\<close>, \<^verbatim>\<open>Plumtree_Settle\<close>, \<^verbatim>\<open>Plumtree_Liveness\<close>: a
    network of Plumtree nodes over links that are symmetric and stay, as an event interpreter:
    packets are reordered and delayed but not lost, identifiers are published once, nothing is
    forgotten.  \<open>Spread\<close> says what one node owes its peers (interface-like lemmas per handler),
    \<open>Network\<close> that the debts of all nodes are paid or under way, \<open>Broadcast\<close> that a quiet network
    has delivered everything once, \<open>Settle\<close> bounds the work by a potential of \<open>(9n + 5)n\<close> per published
    message, \<open>Liveness\<close> drives every state to a quiet one.
  \<^item> \<^verbatim>\<open>Plumtree_Simulation\<close>: the loop of \<^verbatim>\<open>plumtree/src/lib.rs\<close> that runs nodes in one process.  It
    drives the network too, and it ends.  \<^verbatim>\<open>Unit_Tests\<close>: the unit tests of both protocol crates as
    predicates, which the models pass.  \<^verbatim>\<open>Many_Nodes\<close>: the test of 500 nodes with random links, when
    it succeeds and when it cannot.
  \<^item> \<^verbatim>\<open>Plumtree_Range\<close>: how far clock, timers and counters can have come, by the interface
    \<^verbatim>\<open>timed_operation\<close>, which every operation of the node satisfies: the clock is the time of the ticks, a
    message expires a timeout after the last of its announcements, and no number is larger than
    what was asked of the node, so none overflows while there is that much room.
  \<^item> \<^verbatim>\<open>Debug_Text\<close>, \<^verbatim>\<open>Plumtree_Text\<close> (\<^verbatim>\<open>message.rs\<close>, \<^verbatim>\<open>action.rs\<close>): copying, comparison, conversion
    and the debug text of messages and actions, which tells them apart.
  \<^item> \<^verbatim>\<open>Ordered_Map\<close>, \<^verbatim>\<open>Node_Server\<close>, \<^verbatim>\<open>P2P_Node\<close>, \<^verbatim>\<open>P2P_Loop\<close> (\<^verbatim>\<open>p2p/src/p2p/node.rs\<close> and
    \<^verbatim>\<open>node/node_server.rs\<close>, \<^verbatim>\<open>message.rs\<close>, \<^verbatim>\<open>misc.rs\<close>): the message buffer, the server handle and
    its sending tasks, the node and the loops of \<^verbatim>\<open>poll_next\<close> with their termination.  \<^verbatim>\<open>P2P_Inv\<close>
    proves the agreement of both protocols through the interface \<^verbatim>\<open>neighbor_listener\<close>,
    \<^verbatim>\<open>P2P_Props\<close> the properties of reachable nodes, \<^verbatim>\<open>P2P_Safety\<close> when a poll returns, ticks and
    periodic jobs included, \<^verbatim>\<open>Failed_Sends\<close> what a failed send does at the polls that follow.
  \<^item> \<^verbatim>\<open>Two_Nodes\<close>: two application nodes with their servers and the messages between them, from the
    join to a broadcast that both hand out.
  \<^item> \<^verbatim>\<open>Connection_Pool\<close>: concurrent calls of \<^verbatim>\<open>get_connection\<close>, one step per await point; mutual
    exclusion, the number of connections, and refinement of the sequential function; every call
    returns within four of its own steps, and until then it or the holder of the lock can run.
  \<^item> \<^verbatim>\<open>Connection_Listener\<close>: the tasks of one connection (\<^verbatim>\<open>handle_connection\<close>,
    \<^verbatim>\<open>handle_recv_stream\<close>); order of messages, the reverse connection and its disconnect, and the
    disconnect that its tasks never report.
  \<^item> \<^verbatim>\<open>Tls_Identity\<close> (\<^verbatim>\<open>node/node_id.rs\<close>, \<^verbatim>\<open>tls.rs\<close>, \<^verbatim>\<open>tls/\<close>): keys, names, certificates, the installed
    verifiers and what they check of a handshake: name, certificate, and the signature with the key of
    the certificate.  \<open>crypto_ok\<close> says of signatures what is said of an ideal scheme: only the holder
    of a secret key makes those that its public key verifies.  \<^verbatim>\<open>Identifiers\<close>: the orders of keys
    and identifiers (instances of \<^verbatim>\<open>linorder\<close>), \<^verbatim>\<open>Identifier_Text\<close> how they are written.  \<^verbatim>\<open>Server_Setup\<close> (\<^verbatim>\<open>net.rs\<close> and the builder): the public
    address, the endpoint, the server and its accept loop.
  \<^item> \<^verbatim>\<open>Vector_Clock\<close> (\<^verbatim>\<open>node/clock.rs\<close>): a join semilattice of times, and what the comparison
    really decides.
  \<^item> \<^verbatim>\<open>Text_Input\<close>, \<^verbatim>\<open>View_Models\<close>, \<^verbatim>\<open>Terminal_App\<close> (\<^verbatim>\<open>model/\<close>, \<^verbatim>\<open>view/\<close>, \<^verbatim>\<open>tui/\<close>, \<^verbatim>\<open>controller/\<close>): the
    input line on UTF-8 text, lists that scroll (interface \<^verbatim>\<open>view_model_fmt\<close> for the trait
    \<^verbatim>\<open>ViewModelFmt\<close>), key handlers, drawings and the main loop.  \<^verbatim>\<open>Ui_Tasks\<close>: logs and the macros that
    write them, scrolling of both lists (interface \<^verbatim>\<open>auto_scrollable\<close> for the trait
    \<^verbatim>\<open>AutoScrollableViewModel\<close>), the task that reads the terminal, and what is measured against what is drawn.
  \<^item> \<^verbatim>\<open>Markdown_Render\<close>, \<^verbatim>\<open>Gpt_Chat\<close> (\<^verbatim>\<open>gpt/\<close>): the renderer with its global stacks, and the bounded
    history, requests and streams of the language model client.
  \<^item> \<^verbatim>\<open>Chat_Node\<close> (\<^verbatim>\<open>chat.rs\<close>): the chat program on top of the node.  \<^verbatim>\<open>Program\<close> (\<^verbatim>\<open>main.rs\<close>,
    \<^verbatim>\<open>node/args.rs\<close>): the start from the parsed arguments, the line that tells others how to join,
    and the thread that reads standard input.

  \<^bold>\<open>Bounds and loops.\<close>  No loop has fuel.  The loops of the protocol and application nodes are
  total functions with a measure (active nodes left, timers and actions left, messages in the
  inbox).  Three loops may run forever and are partial functions: receiving in the chat program
  while messages keep coming, whose property says when it returns, the simulation of a
  HyParView network, whose end depends on the random numbers it draws, and the simulation of a Plumtree
  network, which is shown to return.  The thread that reads standard input
  is a function of the rounds it meets.  Liveness of a Plumtree network asks for room: how far
  clocks and counters are from their ends is a hypothesis.

  \<^bold>\<open>Abstract specifications.\<close>  The notifications of HyParView replay to its active view, and
  Plumtree's peers follow them, so after every poll the broadcast tree spans the active view.
  The heap is a priority queue, the buffer an ordered map, the interleaved connection function
  refines the sequential one.  A network of HyParView nodes promises symmetric links when idle,
  which is what a network of Plumtree nodes asks for; that one promises every message to every
  node, once.

  \<^bold>\<open>Not modelled.\<close>  Serialisation (a frame decodes to a message or not), QUIC and TLS records,
  the elliptic curve, the width of text and the placing of widgets, the markdown and JSON
  parsers, logging to the terminal, the debug text of whole Plumtree nodes, the parsing of the command line, failing writes to the terminal and poisoned
  locks.  Spawning tasks, waiting for the cancellation and closing the endpoint are library calls.  The receiver of a node's inbox is taken to
  live as long as its server.
\<close>

end
